(* ===== verification/Rsp_Prelude.thy ===== *)
theory Rsp_Prelude
  imports Main "HOL-Library.Word" "HOL-Library.Char_ord" "HOL-Library.List_Lexorder"
    "HOL-Library.Product_Lexorder"
begin

text \<open>
  Shared vocabulary of the development: the types every component of the platform uses
  (bytes, buffers, user, room and routing ids, time points), the collections of lemmas
  the component proofs are run with, a few generic facts on lists, maps and words, and
  the contract of an event-driven component (a step function with an invariant), from
  which the invariant of every run follows once and for all.
\<close>

subsection \<open>Types\<close>

text \<open>
  A C++ \<open>char\<close> of a \<open>raw_buffer\<close> is one byte; its signedness never matters because the
  code converts through \<open>unsigned char\<close>. \<open>Uid\<close> and \<open>RoutingId\<close> are \<open>std::string\<close>s (byte
  strings, ordered lexicographically), \<open>RoomId\<close> is \<open>std::uint32_t\<close>. A \<open>steady_clock\<close> time
  point is an unbounded integer number of ticks.
\<close>

type_synonym byte = "8 word"
type_synonym raw_buffer = "byte list"
type_synonym Uid = string
type_synonym RoutingId = string
type_synonym RoomId = "32 word"
type_synonym time_point = int
type_synonym size_t = "64 word"

subsection \<open>Collections of lemmas\<close>

named_theorems wire_simps \<open>rewrite rules for header integers and frames\<close>
named_theorems map_simps \<open>rewrite rules for the ordered map\<close>
named_theorems inv_intros \<open>preservation rules for component invariants\<close>

subsection \<open>Lists\<close>

lemma sum_list_snoc [simp]: "sum_list (xs @ [x]) = sum_list xs + (x :: nat)"
  by simp

lemma drop_append_le: "n \<le> length xs \<Longrightarrow> drop n (xs @ ys) = drop n xs @ ys"
  by simp

lemma nth_append_offset: "i < length ys \<Longrightarrow> (xs @ ys @ zs) ! (length xs + i) = ys ! i"
  by (simp add: nth_append)

lemma take_drop_split3:
  "xs = take i xs @ take j (drop i xs) @ take k (drop (i + j) xs) @ drop (i + j + k) xs"
proof -
  have "drop (i + j) xs = take k (drop (i + j) xs) @ drop (i + j + k) xs"
    using append_take_drop_id[of k "drop (i + j) xs"] by (simp add: add.commute add.left_commute)
  moreover have "drop i xs = take j (drop i xs) @ drop (i + j) xs"
    using append_take_drop_id[of j "drop i xs"] by (simp add: add.commute)
  ultimately show ?thesis using append_take_drop_id[of i xs] by simp
qed

lemma filter_snoc: "filter P (xs @ [x]) = filter P xs @ (if P x then [x] else [])"
  by simp

subsection \<open>Runs of event-driven components\<close>

text \<open>
  A component that reacts to events: \<open>step s e\<close> is the state after event \<open>e\<close>. A run
  is the fold of the steps over the events in the order they occur.
\<close>

definition run_events :: "('s \<Rightarrow> 'e \<Rightarrow> 's) \<Rightarrow> 's \<Rightarrow> 'e list \<Rightarrow> 's" where
  "run_events step s es = foldl step s es"

lemma run_events_simps [simp]:
  "run_events step s [] = s"
  "run_events step s (e # es) = run_events step (step s e) es"
  "run_events step s (es @ fs) = run_events step (run_events step s es) fs"
  by (simp_all add: run_events_def)

text \<open>
  The contract of such a component: an invariant that holds at the start and that every
  event keeps. Its lemmas hold for every component that meets the contract.
\<close>

locale event_machine =
  fixes start :: "'s" and step :: "'s \<Rightarrow> 'e \<Rightarrow> 's" and ok :: "'s \<Rightarrow> bool"
  assumes ok_start: "ok start"
    and ok_step: "ok s \<Longrightarrow> ok (step s e)"
begin

lemma ok_run_from: "ok s \<Longrightarrow> ok (run_events step s es)"
  by (induction es arbitrary: s) (simp_all add: ok_step)

lemma ok_run: "ok (run_events step start es)"
  by (rule ok_run_from) (rule ok_start)

text \<open>A state relation that every event keeps, such as a field nobody writes.\<close>

lemma stable_run:
  assumes "\<And>s e. ok s \<Longrightarrow> P s \<Longrightarrow> P (step s e)" and "ok s" and "P s"
  shows "P (run_events step s es)"
  using assms(2,3)
proof (induction es arbitrary: s)
  case (Cons e es)
  then show ?case by (simp add: assms(1) ok_step)
qed simp

end

text \<open>
  A component that implements a more abstract one: \<open>abs\<close> forgets the details, and every
  event is a finite number of steps of the abstract transition relation.
\<close>

locale refinement = event_machine start step ok
  for start :: "'s" and step :: "'s \<Rightarrow> 'e \<Rightarrow> 's" and ok :: "'s \<Rightarrow> bool" +
  fixes abs :: "'s \<Rightarrow> 'a" and astep :: "'a \<Rightarrow> 'a \<Rightarrow> bool"
  assumes step_refines: "ok s \<Longrightarrow> astep\<^sup>*\<^sup>* (abs s) (abs (step s e))"
begin

lemma run_refines_from: "ok s \<Longrightarrow> astep\<^sup>*\<^sup>* (abs s) (abs (run_events step s es))"
proof (induction es arbitrary: s)
  case (Cons e es)
  from step_refines[OF Cons.prems, of e] Cons.IH[OF ok_step[OF Cons.prems, of e]]
  show ?case by simp
qed simp

lemma run_refines: "astep\<^sup>*\<^sup>* (abs start) (abs (run_events step start es))"
  by (rule run_refines_from) (rule ok_start)

text \<open>What no abstract step can break holds of every concrete run.\<close>

lemma transfer_invariant:
  assumes "I (abs start)" and "\<And>a b. astep a b \<Longrightarrow> I a \<Longrightarrow> I b"
  shows "I (abs (run_events step start es))"
  using run_refines by (rule rtranclp_induct) (use assms in auto)

end

end
