(* ===== verification/Build_Selection.thy ===== *)
theory Build_Selection
  imports Rsp_Prelude "HOL-Library.Sublist"
begin

text \<open>
  The build selection of the continuous integration (\<open>.github/scripts/select-build.py\<close>): from
  the event that triggered it, the changed paths, and from these the CMake targets to build,
  closed under reverse and runtime dependencies. The order in which Python enumerates a set is
  the argument \<open>enum\<close>, of which only \<open>enumerates\<close> is known; the answers of \<open>git\<close> are functions.
\<close>

subsection \<open>Tables\<close>

datatype component = Proto | Libs | Client | User | Room | RoomContents

fun component_name :: "component \<Rightarrow> string" where
  "component_name Proto = ''Proto''"
| "component_name Libs = ''Libs''"
| "component_name Client = ''Client''"
| "component_name User = ''User''"
| "component_name Room = ''Room''"
| "component_name RoomContents = ''RoomContents''"

definition COMPONENTS :: "component list" where
  "COMPONENTS = [Proto, Libs, Client, User, Room, RoomContents]"

lemma set_COMPONENTS [simp]: "set COMPONENTS = UNIV"
  by (auto simp: COMPONENTS_def intro: component.exhaust)

lemma distinct_COMPONENTS: "distinct COMPONENTS"
  by (simp add: COMPONENTS_def)

instantiation component :: finite
begin

instance
proof
  show "finite (UNIV :: component set)" unfolding set_COMPONENTS[symmetric] by (rule finite_set)
qed

end

fun DEPENDENTS :: "component \<Rightarrow> component set" where
  "DEPENDENTS Proto = {Libs, RoomContents}"
| "DEPENDENTS Libs = {Client, User, Room}"
| "DEPENDENTS RoomContents = {Room}"
| "DEPENDENTS Room = {RoomContents}"
| "DEPENDENTS _ = {}"

definition PREFIXES :: "(string \<times> component list) list" where
  "PREFIXES = [(''proto/'', [Proto]), (''gen-proto/'', [Proto]), (''rsp-libs/'', [Libs]), (''rsp-cli/'', [Client]),
     (''rsp-svr/user/'', [User]), (''rsp-svr/room/'', [Room]), (''rsp-svr/room_contents/'', [RoomContents]),
     (''rsp-svr/rci/'', [Room, RoomContents])]"

definition TESTS :: "(component \<times> string list) list" where
  "TESTS = [(Libs, [''LibsTest'']), (Client, [''ClientTest'']), (Room, [''RoomTest'', ''RoomShutdownTest''])]"

subsection \<open>Selection\<close>

definition documentation :: "string \<Rightarrow> bool" where
  "documentation path \<longleftrightarrow>
     suffix ''.md'' path \<or> suffix ''.rst'' path \<or> prefix ''docs/'' path \<or> prefix ''.github/assets/'' path \<or>
     path = ''LICENSE'' \<or> path = ''NOTICE''"

text \<open>One turn of the loop over the paths: the first prefix that matches, else everything.\<close>

definition path_components :: "string \<Rightarrow> component set" where
  "path_components path =
     (if documentation path then {}
      else case List.find (\<lambda>(p, _). prefix p path) PREFIXES of
        Some (_, cs) \<Rightarrow> set cs
      | None \<Rightarrow> set COMPONENTS)"

definition touched :: "string list \<Rightarrow> component set" where
  "touched paths = fold (\<lambda>path affected. affected \<union> path_components path) paths {}"

fun visit :: "component list \<Rightarrow> component set \<times> component list \<Rightarrow> component set \<times> component list" where
  "visit [] (affected, pending) = (affected, pending)"
| "visit (d # ds) (affected, pending) =
     (if d \<notin> affected then visit ds (insert d affected, pending @ [d]) else visit ds (affected, pending))"

lemma visit_effect:
  "visit ds (a, p) = (a', p') \<Longrightarrow> a' = a \<union> set ds \<and> set p' = set p \<union> (set ds - a) \<and> (a' = a \<longrightarrow> p' = p)"
proof (induction ds "(a, p)" arbitrary: a p rule: visit.induct)
  case (2 d ds a p)
  then show ?case by (cases "d \<in> a") (auto split: if_splits)
qed simp

function close_dependents :: "(component set \<Rightarrow> component list) \<Rightarrow> component set \<Rightarrow> component list \<Rightarrow> component set" where
  "close_dependents enum affected pending =
     (if pending = [] then affected
      else
        (case visit (enum (DEPENDENTS (last pending))) (affected, butlast pending) of
           (affected, pending) \<Rightarrow> close_dependents enum affected pending))"
  by pat_completeness auto
termination
proof (relation "measures [\<lambda>(_, affected, _). card (UNIV - affected), \<lambda>(_, _, pending). length pending]", goal_cases)
  case (2 enum affected pending affected' pending')
  then have v: "visit (enum (DEPENDENTS (last pending))) (affected, butlast pending) = (affected', pending')" by simp
  have "card (UNIV - affected') < card (UNIV - affected)" if "affected' \<noteq> affected"
    using that visit_effect[OF v] by (intro psubset_card_mono) auto
  moreover have "length pending' < length pending" if "affected' = affected"
    using that visit_effect[OF v] 2(1) by simp
  ultimately show ?case by (cases "affected' = affected") simp_all
qed simp

declare close_dependents.simps [simp del]

definition select_affected ::
  "(component set \<Rightarrow> component list) \<Rightarrow> string list \<Rightarrow> bool \<Rightarrow> component set" where
  "select_affected enum paths full =
     (let affected = touched paths;
          changed = (affected \<noteq> {});
          affected = (if changed \<and> full then affected \<union> set COMPONENTS else affected)
      in close_dependents enum affected (enum affected))"

definition selected_targets :: "component set \<Rightarrow> string list" where
  "selected_targets affected =
     map component_name (filter (\<lambda>c. c \<in> affected) COMPONENTS) @
     concat (map snd (filter (\<lambda>(c, _). c \<in> affected) TESTS))"

fun join_space :: "string list \<Rightarrow> string" where
  "join_space [] = []"
| "join_space [x] = x"
| "join_space (x # y # xs) = x @ '' '' @ join_space (y # xs)"

definition lower_bool :: "bool \<Rightarrow> string" where
  "lower_bool b = (if b then ''true'' else ''false'')"

definition select :: "(component set \<Rightarrow> component list) \<Rightarrow> string list \<Rightarrow> bool \<Rightarrow> (string \<times> string) list" where
  "select enum paths full =
     (let affected = select_affected enum paths full
      in [(''changed'', lower_bool (touched paths \<noteq> {})),
          (''targets'', join_space (selected_targets affected)),
          (''libs'', lower_bool (Libs \<in> affected)),
          (''client'', lower_bool (Client \<in> affected)),
          (''room'', lower_bool (Room \<in> affected)),
          (''e2e'', lower_bool ({Client, User, Room, RoomContents} \<subseteq> affected))])"

subsection \<open>Changed paths\<close>

text \<open>
  The part of the event that is read. \<open>git_api\<close> are the three commands used; \<open>None\<close> is a
  failure, which \<open>check_output\<close> raises.
\<close>

datatype ci_event = PullRequest string string | Push string string bool | OtherEvent

record git_api =
  merge_base :: "string \<Rightarrow> string \<Rightarrow> string option"
  commit_exists :: "string \<Rightarrow> bool"
  diff_names :: "string \<Rightarrow> string \<Rightarrow> string option"

fun split_nul :: "string \<Rightarrow> string list" where
  "split_nul [] = [[]]"
| "split_nul (c # cs) =
     (if c = CHR 0x00 then [] # split_nul cs
      else case split_nul cs of [] \<Rightarrow> [[c]] | w # ws \<Rightarrow> (c # w) # ws)"

definition zero_sha :: string where "zero_sha = replicate 40 CHR ''0''"

definition diff_paths :: "git_api \<Rightarrow> string \<Rightarrow> string \<Rightarrow> string list option" where
  "diff_paths g base head = map_option (\<lambda>out. filter (\<lambda>p. p \<noteq> []) (split_nul out)) (diff_names g base head)"

fun changed_paths :: "git_api \<Rightarrow> ci_event \<Rightarrow> string list option" where
  "changed_paths g (PullRequest base head) =
     (case merge_base g base head of None \<Rightarrow> None | Some base \<Rightarrow> diff_paths g base head)"
| "changed_paths g (Push base head deleted) =
     (if deleted \<or> head = zero_sha then Some []
      else if base = zero_sha then Some [''CMakeLists.txt'']
      else if \<not> commit_exists g base then Some [''CMakeLists.txt'']
      else diff_paths g base head)"
| "changed_paths g OtherEvent = Some [''CMakeLists.txt'']"

fun is_pull_request :: "ci_event \<Rightarrow> bool" where
  "is_pull_request (PullRequest _ _) \<longleftrightarrow> True"
| "is_pull_request _ \<longleftrightarrow> False"

text \<open>The main program: the lines appended to the output file.\<close>

definition select_main :: "(component set \<Rightarrow> component list) \<Rightarrow> git_api \<Rightarrow> ci_event \<Rightarrow> string list option" where
  "select_main enum g ev =
     map_option (\<lambda>paths. map (\<lambda>(key, v). key @ ''='' @ v) (select enum paths (\<not> is_pull_request ev)))
       (changed_paths g ev)"

subsection \<open>Closure\<close>

definition enumerates :: "(component set \<Rightarrow> component list) \<Rightarrow> bool" where
  "enumerates enum \<longleftrightarrow> (\<forall>A. set (enum A) = A \<and> distinct (enum A))"

definition dependent_rel :: "(component \<times> component) set" where
  "dependent_rel = {(c, d). d \<in> DEPENDENTS c}"

lemma rtrancl_image_absorb:
  assumes "B \<subseteq> r `` A"
  shows "r\<^sup>* `` (A \<union> B) = r\<^sup>* `` A"
proof -
  have "r\<^sup>* `` B \<subseteq> r\<^sup>* `` A" using assms by (auto intro: converse_rtrancl_into_rtrancl)
  then show ?thesis by (auto simp: Image_Un)
qed

lemma close_dependents_closure:
  assumes "enumerates enum"
  shows "set pending \<subseteq> affected \<Longrightarrow> (\<And>c. c \<in> affected \<Longrightarrow> c \<notin> set pending \<Longrightarrow> DEPENDENTS c \<subseteq> affected) \<Longrightarrow>
    close_dependents enum affected pending = dependent_rel\<^sup>* `` affected"
  using assms
proof (induction enum affected pending rule: close_dependents.induct)
  case (1 enum affected pending)
  show ?case
  proof (cases "pending = []")
    case True
    then have "dependent_rel `` affected \<subseteq> affected" using "1.prems"(2) by (auto simp: dependent_rel_def)
    from Image_closed_trancl[OF this] True show ?thesis by (simp add: close_dependents.simps)
  next
    case False
    let ?c = "last pending"
    obtain a p where v: "visit (enum (DEPENDENTS ?c)) (affected, butlast pending) = (a, p)" by fastforce
    have "set (enum (DEPENDENTS ?c)) = DEPENDENTS ?c" using "1.prems"(3) by (simp add: enumerates_def)
    with visit_effect[OF v] have a: "a = affected \<union> DEPENDENTS ?c"
      and p: "set p = set (butlast pending) \<union> (DEPENDENTS ?c - affected)" by auto
    have s: "set pending = insert ?c (set (butlast pending))"
      using False by (metis append_butlast_last_id list.simps(15) rotate1.simps(2) set_rotate1)
    have "close_dependents enum a p = dependent_rel\<^sup>* `` a"
    proof (rule "1.IH"[OF False _ _ _ "1.prems"(3)])
      show "(a, p) = visit (enum (DEPENDENTS ?c)) (affected, butlast pending)" using v by simp
      show "set p \<subseteq> a" using a p s "1.prems"(1) by auto
      show "DEPENDENTS c \<subseteq> a" if "c \<in> a" "c \<notin> set p" for c
        using that a p s "1.prems"(2)[of c] by (cases "c = ?c") auto
    qed
    moreover have "DEPENDENTS ?c \<subseteq> dependent_rel `` affected"
      using s "1.prems"(1) by (auto simp: dependent_rel_def)
    from rtrancl_image_absorb[OF this] have "dependent_rel\<^sup>* `` a = dependent_rel\<^sup>* `` affected" by (simp add: a)
    ultimately show ?thesis using False v by (subst close_dependents.simps) simp
  qed
qed

lemma touched_paths: "touched paths = (\<Union>path \<in> set paths. path_components path)"
proof -
  have "fold (\<lambda>path affected. affected \<union> path_components path) ps A = A \<union> (\<Union>path \<in> set ps. path_components path)" for ps A
    by (induction ps arbitrary: A) auto
  then show ?thesis by (simp add: touched_def)
qed

lemma select_affected_closure:
  assumes "enumerates enum"
  shows "select_affected enum paths full = dependent_rel\<^sup>* `` (if full \<and> touched paths \<noteq> {} then UNIV else touched paths)"
proof -
  have "close_dependents enum A (enum A) = dependent_rel\<^sup>* `` A" for A
    by (rule close_dependents_closure[OF assms]) (use assms in \<open>simp_all add: enumerates_def\<close>)
  then show ?thesis by (simp add: select_affected_def Let_def)
qed

lemma documentation_touches_nothing: "path_components p = {} \<longleftrightarrow> documentation p"
proof (cases "documentation p")
  case False
  show ?thesis
  proof (cases "List.find (\<lambda>(q, _). prefix q p) PREFIXES")
    case (Some qc)
    then have "qc \<in> set PREFIXES" by (metis find_Some_iff nth_mem)
    then have "snd qc \<noteq> []" by (auto simp: PREFIXES_def)
    then show ?thesis using False Some by (cases qc) (simp add: path_components_def)
  qed (use False in \<open>simp add: path_components_def\<close>)
qed (simp add: path_components_def)

text \<open>The path of a build file is in no component, so it stands for all of them.\<close>

lemma touched_build_file: "touched [''CMakeLists.txt''] = UNIV"
  by (simp add: touched_paths path_components_def documentation_def suffix_to_prefix PREFIXES_def)

lemma closure_UNIV: "dependent_rel\<^sup>* `` UNIV = UNIV"
  by auto

lemma select_all:
  "enumerates enum \<Longrightarrow> select enum [''CMakeLists.txt''] full = [(''changed'', ''true''),
    (''targets'', ''Proto Libs Client User Room RoomContents LibsTest ClientTest RoomTest RoomShutdownTest''),
    (''libs'', ''true''), (''client'', ''true''), (''room'', ''true''), (''e2e'', ''true'')]"
  by (simp add: select_def Let_def select_affected_closure touched_build_file closure_UNIV selected_targets_def
      COMPONENTS_def TESTS_def lower_bool_def)

lemma select_none:
  "enumerates enum \<Longrightarrow> touched paths = {} \<Longrightarrow> select enum paths full = [(''changed'', ''false''), (''targets'', []),
    (''libs'', ''false''), (''client'', ''false''), (''room'', ''false''), (''e2e'', ''false'')]"
  by (simp add: select_def Let_def select_affected_closure selected_targets_def TESTS_def lower_bool_def)

subsection \<open>Properties\<close>

text \<open>C30. The work list of the build selection ends with exactly the components that must be
  rebuilt: those that depend, directly or through others, on a component with a changed file
  (all components on a full run with a change), in whatever order sets are enumerated. The
  selection is empty exactly when all changed paths are documentation.\<close>

theorem selection_is_closure:
  assumes "enumerates enum"
  shows "select_affected enum paths full =
      dependent_rel\<^sup>* `` (\<Union>path \<in> set paths. if full \<and> \<not> documentation path then UNIV else path_components path) \<and>
    (select_affected enum paths full = {} \<longleftrightarrow> list_all documentation paths)"
proof -
  let ?A = "if full \<and> touched paths \<noteq> {} then UNIV else touched paths"
  have t: "touched paths = {} \<longleftrightarrow> list_all documentation paths"
    by (simp add: touched_paths list_all_iff documentation_touches_nothing)
  have "?A = (\<Union>path \<in> set paths. if full \<and> \<not> documentation path then UNIV else path_components path)"
  proof (cases full)
    case True
    show ?thesis
    proof (cases "list_all documentation paths")
      case False
      then obtain p where "p \<in> set paths" "\<not> documentation p" by (auto simp: list_all_iff)
      then show ?thesis using True False t by auto
    qed (use t in \<open>simp add: list_all_iff documentation_touches_nothing\<close>)
  qed (simp add: touched_paths)
  moreover have "dependent_rel\<^sup>* `` ?A = {} \<longleftrightarrow> touched paths = {}" by (cases "touched paths = {}") auto
  ultimately show ?thesis using select_affected_closure[OF assms, of paths full] t by simp
qed

definition declared_order :: "component set \<Rightarrow> component list" where
  "declared_order A = filter (\<lambda>c. c \<in> A) COMPONENTS"

lemma declared_order_enumerates: "enumerates declared_order"
  by (simp add: enumerates_def declared_order_def distinct_COMPONENTS)

theorem selection_is_closure_witness:
  "Room \<in> select_affected declared_order [''README.md'', ''proto/common/ping.proto''] False \<and>
   select_affected declared_order [''README.md''] True = {}"
proof -
  have "(Proto, Libs) \<in> dependent_rel" "(Libs, Room) \<in> dependent_rel" by (simp_all add: dependent_rel_def)
  then have "(Proto, Room) \<in> dependent_rel\<^sup>*" by (meson r_into_rtrancl rtrancl_trans)
  moreover have "path_components ''proto/common/ping.proto'' = {Proto}"
    by (simp add: path_components_def documentation_def suffix_to_prefix PREFIXES_def)
  ultimately have "Room \<in> dependent_rel\<^sup>* ``
      (\<Union>path \<in> set [''README.md'', ''proto/common/ping.proto'']. if False \<and> \<not> documentation path then UNIV else path_components path)"
    by auto
  then show ?thesis
    using selection_is_closure[OF declared_order_enumerates, of "[''README.md'', ''proto/common/ping.proto'']" False]
      selection_is_closure[OF declared_order_enumerates, of "[''README.md'']" True]
    by (auto simp: documentation_def suffix_to_prefix)
qed

text \<open>
  What cannot be compared is built in full, and a deleted branch not at all; neither asks \<open>git\<close>
  for a difference.
\<close>

theorem selection_without_history:
  assumes "enumerates enum"
  shows "deleted \<or> head = zero_sha \<Longrightarrow> select_main enum g (Push base head deleted) =
      Some [''changed=false'', ''targets='', ''libs=false'', ''client=false'', ''room=false'', ''e2e=false'']"
    and "\<not> deleted \<Longrightarrow> head \<noteq> zero_sha \<Longrightarrow> base = zero_sha \<or> \<not> commit_exists g base \<Longrightarrow>
      select_main enum g (Push base head deleted) = select_main enum g OtherEvent"
    and "select_main enum g OtherEvent = Some [''changed=true'',
      ''targets=Proto Libs Client User Room RoomContents LibsTest ClientTest RoomTest RoomShutdownTest'',
      ''libs=true'', ''client=true'', ''room=true'', ''e2e=true'']"
  using select_none[OF assms, of "[]"]
  by (auto simp: select_main_def select_all[OF assms] touched_def)

end
