(* ===== verification/Thread_Safe.thy ===== *)
theory Thread_Safe
  imports Rsp_Prelude
begin

text \<open>
  The \<open>thread_safe\<close> wrapper: every access through \<open>operator->\<close> constructs an \<open>auto_locker_t\<close>,
  which calls \<open>lock\<close> of the wrapped object and, at the end of the full expression, \<open>unlock\<close>.
  The model is a step relation on the shared mutex \<open>guard\<close>, the atomic flag \<open>locked\<close> and a
  program counter for every thread; the steps are the single statements of \<open>lock\<close> and
  \<open>unlock\<close>, interleaved in any order.
\<close>

subsection \<open>State and steps\<close>

text \<open>
  \<open>Outside\<close>: not in an access. \<open>Acquired\<close>: \<open>guard.lock()\<close> returned. \<open>Inside\<close>: \<open>lock()\<close>
  returned, the access runs. \<open>Asserted\<close>: the assertion of \<open>unlock\<close> held. \<open>Released\<close>:
  \<open>guard.unlock()\<close> returned. A failed assertion ends the process: \<open>aborted\<close>.
\<close>

datatype access = Outside | Acquired | Inside | Asserted | Released

type_synonym thread_id = nat

record lockable =
  guard :: "thread_id option"
  locked :: bool
  aborted :: bool
  pc :: "thread_id \<Rightarrow> access"

definition lockable_T :: lockable where
  "lockable_T = \<lparr>guard = None, locked = False, aborted = False, pc = (\<lambda>_. Outside)\<rparr>"

definition move :: "thread_id \<Rightarrow> access \<Rightarrow> lockable \<Rightarrow> lockable" where
  "move t a s = s\<lparr>pc := (pc s)(t := a)\<rparr>"

inductive access_step :: "lockable \<Rightarrow> lockable \<Rightarrow> bool" where
  guard_lock: "\<not> aborted s \<Longrightarrow> pc s t = Outside \<Longrightarrow> guard s = None \<Longrightarrow>
    access_step s (move t Acquired (s\<lparr>guard := Some t\<rparr>))"
| set_locked: "\<not> aborted s \<Longrightarrow> pc s t = Acquired \<Longrightarrow> access_step s (move t Inside (s\<lparr>locked := True\<rparr>))"
| assert_locked: "\<not> aborted s \<Longrightarrow> pc s t = Inside \<Longrightarrow> locked s \<Longrightarrow> access_step s (move t Asserted s)"
| assert_fails: "\<not> aborted s \<Longrightarrow> pc s t = Inside \<Longrightarrow> \<not> locked s \<Longrightarrow> access_step s (s\<lparr>aborted := True\<rparr>)"
| guard_unlock: "\<not> aborted s \<Longrightarrow> pc s t = Asserted \<Longrightarrow> access_step s (move t Released (s\<lparr>guard := None\<rparr>))"
| clear_locked: "\<not> aborted s \<Longrightarrow> pc s t = Released \<Longrightarrow> access_step s (move t Outside (s\<lparr>locked := False\<rparr>))"

inductive_cases access_stepE: "access_step s s'"

inductive access_reachable :: "lockable \<Rightarrow> bool" where
  access_init: "access_reachable lockable_T"
| access_next: "access_reachable s \<Longrightarrow> access_step s s' \<Longrightarrow> access_reachable s'"

text \<open>The destructor asserts, and then checks, that the flag is clear.\<close>

definition destroy_ok :: "lockable \<Rightarrow> bool" where
  "destroy_ok s \<longleftrightarrow> \<not> locked s"

subsection \<open>Mutual exclusion\<close>

definition holding :: "access \<Rightarrow> bool" where
  "holding a \<longleftrightarrow> a = Acquired \<or> a = Inside \<or> a = Asserted"

definition guard_owned :: "lockable \<Rightarrow> bool" where
  "guard_owned s \<longleftrightarrow> (\<forall>t. holding (pc s t) \<longleftrightarrow> guard s = Some t)"

lemma guard_owned_step: "access_step s s' \<Longrightarrow> guard_owned s \<Longrightarrow> guard_owned s'"
  by (erule access_stepE) (auto simp: guard_owned_def holding_def move_def split: if_splits, (metis access.distinct option.inject)+)

lemma guard_owned_init: "guard_owned lockable_T"
  by (simp add: guard_owned_def holding_def lockable_T_def)

lemma guard_owned_reachable: "access_reachable s \<Longrightarrow> guard_owned s"
  by (induction rule: access_reachable.induct) (auto intro: guard_owned_init guard_owned_step)

lemma access_progress:
  assumes "guard_owned s" "\<not> aborted s"
  shows "\<exists>s'. access_step s s'"
proof (cases "guard s")
  case None
  show ?thesis
  proof (cases "pc s 0")
    case Outside
    then show ?thesis using None assms(2) by (blast intro: guard_lock)
  next
    case Released
    then show ?thesis using assms(2) by (blast intro: clear_locked)
  qed (use None assms(1) in \<open>auto simp: guard_owned_def holding_def dest: spec[of _ 0]\<close>)
next
  case (Some t)
  then have "holding (pc s t)" using assms(1) by (simp add: guard_owned_def)
  then show ?thesis
    using assms(2) by (auto simp: holding_def intro: access_step.intros) (metis assert_fails assert_locked)
qed

subsection \<open>Properties\<close>

text \<open>Accesses through \<open>thread_safe\<close> exclude each other: in every reachable interleaving at
  most one thread is between the return of \<open>lock\<close> and the release of the mutex, and as long as
  the process has not aborted some thread can take its next step.\<close>

theorem accesses_exclusive:
  assumes "access_reachable s"
  shows "(holding (pc s t) \<and> holding (pc s u) \<longrightarrow> t = u) \<and> (\<not> aborted s \<longrightarrow> (\<exists>s'. access_step s s'))"
  using guard_owned_reachable[OF assms] access_progress by (auto simp: guard_owned_def)

definition two_threads :: "thread_id option \<Rightarrow> bool \<Rightarrow> bool \<Rightarrow> access \<Rightarrow> access \<Rightarrow> lockable" where
  "two_threads g l ab a b = \<lparr>guard = g, locked = l, aborted = ab, pc = (\<lambda>_. Outside)(0 := a, Suc 0 := b)\<rparr>"

lemma two_threads_sel [simp]:
  "guard (two_threads g l ab a b) = g" "locked (two_threads g l ab a b) = l" "aborted (two_threads g l ab a b) = ab"
  "pc (two_threads g l ab a b) 0 = a" "pc (two_threads g l ab a b) (Suc 0) = b"
  by (simp_all add: two_threads_def)

lemma two_threads_upd [simp]:
  "two_threads g l ab a b\<lparr>guard := g'\<rparr> = two_threads g' l ab a b"
  "two_threads g l ab a b\<lparr>locked := l'\<rparr> = two_threads g l' ab a b"
  "two_threads g l ab a b\<lparr>aborted := ab'\<rparr> = two_threads g l ab' a b"
  "move 0 c (two_threads g l ab a b) = two_threads g l ab c b"
  "move (Suc 0) c (two_threads g l ab a b) = two_threads g l ab a c"
  by (simp_all add: two_threads_def move_def fun_eq_iff)

lemma first_inside: "access_reachable (two_threads (Some 0) True False Inside Outside)"
proof -
  have "access_reachable (two_threads None False False Outside Outside)"
    using access_init by (simp add: lockable_T_def two_threads_def fun_upd_idem)
  from access_next[OF this guard_lock[of _ 0]] have "access_reachable (two_threads (Some 0) False False Acquired Outside)"
    by simp
  from access_next[OF this set_locked[of _ 0]] show ?thesis by simp
qed

theorem accesses_exclusive_witness:
  "\<exists>s'. access_step (two_threads (Some 0) True False Inside Outside) s'"
  using accesses_exclusive[OF first_inside, of 0 0] by simp

text \<open>
  The flag is cleared after the mutex is released. A thread that locks in between sees its flag
  cleared under its access: its own \<open>unlock\<close> then fails the assertion, and before that the
  destructor's check passes although the resource is locked.
\<close>

theorem unlock_race_aborts:
  "access_reachable (two_threads (Some 1) False False Outside Inside) \<and>
   destroy_ok (two_threads (Some 1) False False Outside Inside) \<and>
   access_reachable (two_threads (Some 1) False True Outside Inside)"
proof -
  from access_next[OF first_inside assert_locked[of _ 0]]
  have "access_reachable (two_threads (Some 0) True False Asserted Outside)" by simp
  from access_next[OF this guard_unlock[of _ 0]]
  have "access_reachable (two_threads None True False Released Outside)" by simp
  from access_next[OF this guard_lock[of _ "Suc 0"]]
  have "access_reachable (two_threads (Some 1) True False Released Acquired)" by simp
  from access_next[OF this set_locked[of _ "Suc 0"]]
  have "access_reachable (two_threads (Some 1) True False Released Inside)" by simp
  from access_next[OF this clear_locked[of _ 0]]
  have r: "access_reachable (two_threads (Some 1) False False Outside Inside)" by simp
  from access_next[OF r assert_fails[of _ "Suc 0"]] r show ?thesis by (simp add: destroy_ok_def)
qed

end
