(* ===== verification/Logger.thy ===== *)
theory Logger
  imports Rsp_Prelude
begin

unbundle bit_operations_syntax

text \<open>
  The streaming logger (\<open>logger/\<close>): levels with their order, the flag word, and the operators
  that a log statement is made of. The stream is the text written so far; what a value prints
  as, the time and the name of the executable come from outside and are strings.
\<close>

subsection \<open>Levels\<close>

datatype log_level = kTrace | kDebug | kInfo | kWarn | kError

fun level_rank :: "log_level \<Rightarrow> nat" where
  "level_rank kTrace = 0"
| "level_rank kDebug = 1"
| "level_rank kInfo = 2"
| "level_rank kWarn = 3"
| "level_rank kError = 4"

lemma level_rank_inject: "level_rank a = level_rank b \<longleftrightarrow> a = b"
  by (cases a; cases b) simp_all

instantiation log_level :: linorder
begin

definition less_eq_log_level :: "log_level \<Rightarrow> log_level \<Rightarrow> bool" where
  "less_eq_log_level a b \<longleftrightarrow> level_rank a \<le> level_rank b"

definition less_log_level :: "log_level \<Rightarrow> log_level \<Rightarrow> bool" where
  "less_log_level a b \<longleftrightarrow> level_rank a < level_rank b"

instance
  by standard (auto simp: less_eq_log_level_def less_log_level_def level_rank_inject)

end

fun represent_level :: "log_level \<Rightarrow> string" where
  "represent_level kTrace = ''TRACE''"
| "represent_level kDebug = ''DEBUG''"
| "represent_level kInfo = ''INFO''"
| "represent_level kWarn = ''WARN''"
| "represent_level kError = ''ERROR''"

text \<open>The colour codes, as they are printed.\<close>

fun color_code :: "log_level \<Rightarrow> string" where
  "color_code kTrace = ''37''"
| "color_code kDebug = ''34''"
| "color_code kInfo = ''32''"
| "color_code kWarn = ''33''"
| "color_code kError = ''31''"

subsection \<open>Flags\<close>

type_synonym flags = "32 word"

definition L_clearflags :: flags where "L_clearflags = 0"
definition L_concat :: flags where "L_concat = 1"
definition L_time :: flags where "L_time = 2"
definition L_flush :: flags where "L_flush = 3"
definition L_endl :: flags where "L_endl = 4"
definition L_startWithFlushing :: flags where "L_startWithFlushing = 5"
definition L_null :: flags where "L_null = 6"
definition L_cout :: flags where "L_cout = 7"
definition L_space :: flags where "L_space = 8"
definition L_color :: flags where "L_color = 16"
definition L_tabs :: flags where "L_tabs = 32"
definition L_allwaysFlush :: flags where "L_allwaysFlush = 64"
definition L_level :: flags where "L_level = 128"

lemmas flag_defs = L_clearflags_def L_concat_def L_time_def L_flush_def L_endl_def L_startWithFlushing_def
  L_null_def L_cout_def L_space_def L_color_def L_tabs_def L_allwaysFlush_def L_level_def

definition flags_add :: "flags \<Rightarrow> flags \<Rightarrow> flags" where
  "flags_add l r = l OR r"

definition flags_sub :: "flags \<Rightarrow> flags \<Rightarrow> flags" where
  "flags_sub l r = l AND NOT r"

subsection \<open>The logger\<close>

record s_logger =
  global_flags :: flags
  lflags :: flags
  level :: log_level
  streaming_level :: log_level
  executable :: string
  stream_text :: string

definition console_logger :: "log_level \<Rightarrow> flags \<Rightarrow> string \<Rightarrow> s_logger" where
  "console_logger lvl options exe =
     \<lparr>global_flags = options, lflags = options, level = lvl, streaming_level = kTrace, executable = exe, stream_text = []\<rparr>"

text \<open>\<open>instance\<close>: the first call constructs the logger, later calls ignore their arguments.\<close>

definition logger_instance :: "s_logger option \<Rightarrow> log_level \<Rightarrow> flags \<Rightarrow> string \<Rightarrow> s_logger" where
  "logger_instance inst lvl options exe = (case inst of None \<Rightarrow> console_logger lvl options exe | Some l \<Rightarrow> l)"

definition put :: "string \<Rightarrow> s_logger \<Rightarrow> s_logger" where
  "put t l = l\<lparr>stream_text := stream_text l @ t\<rparr>"

definition add_flag :: "flags \<Rightarrow> s_logger \<Rightarrow> s_logger" where
  "add_flag f l = l\<lparr>lflags := flags_add (lflags l) f\<rparr>"

definition remove_flag :: "flags \<Rightarrow> s_logger \<Rightarrow> s_logger" where
  "remove_flag f l = l\<lparr>lflags := flags_sub (lflags l) f\<rparr>"

definition activate :: "bool \<Rightarrow> s_logger \<Rightarrow> s_logger" where
  "activate makeActive l = (if makeActive then remove_flag L_null l else add_flag L_null l)"

definition is_space :: "s_logger \<Rightarrow> bool" where "is_space l \<longleftrightarrow> lflags l AND L_space \<noteq> 0"
definition has_level :: "s_logger \<Rightarrow> bool" where "has_level l \<longleftrightarrow> lflags l AND L_level = L_level"
definition is_tabs :: "s_logger \<Rightarrow> bool" where "is_tabs l \<longleftrightarrow> lflags l AND L_tabs \<noteq> 0 \<or> has_level l"
definition is_null :: "s_logger \<Rightarrow> bool" where "is_null l \<longleftrightarrow> lflags l = L_null"
definition has_color :: "s_logger \<Rightarrow> bool" where "has_color l \<longleftrightarrow> lflags l AND L_color = L_color"
definition has_meet_level :: "s_logger \<Rightarrow> bool" where "has_meet_level l \<longleftrightarrow> streaming_level l \<ge> level l"

text \<open>The escape sequences, and the line feed and tab characters.\<close>

definition escape :: "string \<Rightarrow> string" where
  "escape code = CHR 0x1B # ''['' @ code @ ''m''"

definition newline :: string where "newline = [CHR 0x0A]"

definition tab :: string where "tab = [CHR 0x09]"

definition flush :: "s_logger \<Rightarrow> s_logger" where
  "flush l = remove_flag L_startWithFlushing (if has_color l then put (escape ''0'') l else l)"

text \<open>\<open>log\<close>, and the operator for values. The console logger has no mirror stream, so the loop over the
  streams runs once.\<close>

definition log_value :: "string \<Rightarrow> s_logger \<Rightarrow> s_logger" where
  "log_value v l =
     (if is_null l then l
      else
        (let l = (if is_space l then put '' '' l else l);
             l = (if is_tabs l then put tab l else l);
             l = put v l
         in remove_flag L_time l))"

definition stream_value :: "string \<Rightarrow> s_logger \<Rightarrow> s_logger" where
  "stream_value v l = (if \<not> has_meet_level l then l else log_value v l)"

definition log_time :: "string \<Rightarrow> s_logger \<Rightarrow> s_logger" where
  "log_time time l = add_flag L_time (stream_value time l)"

definition print_level :: "s_logger \<Rightarrow> s_logger" where
  "print_level l = put (''['' @ represent_level (streaming_level l) @ '']'') l"

definition clear_flags :: "s_logger \<Rightarrow> s_logger" where
  "clear_flags l =
     (if lflags l \<noteq> L_startWithFlushing
      then l\<lparr>lflags := flags_add (lflags l AND L_allwaysFlush) (global_flags l)\<rparr> else l)"

text \<open>The operator for flags; \<open>time\<close> is what \<open>put_time\<close> prints.\<close>

definition stream_flag :: "string \<Rightarrow> flags \<Rightarrow> s_logger \<Rightarrow> s_logger" where
  "stream_flag time flag l =
     (if is_null l then l
      else if \<not> has_meet_level l then l
      else if flag = L_time then log_time time l
      else if flag = L_flush
      then flush (stream_value ('' |F|'' @ newline) (l\<lparr>lflags := lflags l AND L_allwaysFlush\<rparr>))
      else if flag = L_level then add_flag L_level (print_level l)
      else if flag = L_space then stream_value '' '' l
      else if flag = L_endl
      then
        (let l = (if lflags l AND L_allwaysFlush \<noteq> 0 then stream_value '' |F|'' l
                  else if lflags l = L_startWithFlushing then stream_value '' |SF|'' l else l);
             l = put newline l;
             l = (if lflags l AND L_allwaysFlush \<noteq> 0 \<or> lflags l = L_startWithFlushing then flush l else l)
         in clear_flags l)
      else if flag = L_clearflags then clear_flags l
      else if flag = L_allwaysFlush then add_flag L_allwaysFlush l
      else if flag = L_concat then remove_flag L_tabs l
      else add_flag flag l)"

definition stream_level :: "log_level \<Rightarrow> s_logger \<Rightarrow> s_logger" where
  "stream_level lvl l =
     (let l = l\<lparr>streaming_level := lvl\<rparr>
      in if has_color l then put (escape (color_code (streaming_level l))) l else l)"

text \<open>\<open>filename.substr(filename.find_last_of('/') + 1)\<close>\<close>

definition base_name :: "string \<Rightarrow> string" where
  "base_name filename = rev (takeWhile (\<lambda>c. c \<noteq> CHR ''/'') (rev filename))"

text \<open>\<open>trace\<close>, \<open>debug\<close>, \<open>info\<close>, \<open>warn\<close> and \<open>error\<close>, which differ in the level only; \<open>line\<close> is
  the line number as it is printed.\<close>

definition log_at :: "log_level \<Rightarrow> string \<Rightarrow> string \<Rightarrow> string \<Rightarrow> s_logger \<Rightarrow> s_logger" where
  "log_at lvl time file line l =
     (let name = (if file = [] then file else base_name file)
      in (stream_flag time L_level \<circ> stream_flag time L_space \<circ> stream_value line \<circ> stream_value '':'' \<circ>
          stream_value name \<circ> stream_value ''::'' \<circ> stream_value (executable l) \<circ> stream_flag time L_space \<circ>
          stream_flag time L_time \<circ> stream_level lvl) l)"

subsection \<open>Log statements\<close>

text \<open>A statement \<open>logger().info() << v1 << ... << vn << L_endl\<close>.\<close>

record log_statement =
  st_level :: log_level
  st_time :: string
  st_file :: string
  st_line :: string
  st_values :: "string list"

definition log_statement_run :: "s_logger \<Rightarrow> log_statement \<Rightarrow> s_logger" where
  "log_statement_run l st =
     stream_flag (st_time st) L_endl
       (fold stream_value (st_values st) (log_at (st_level st) (st_time st) (st_file st) (st_line st) l))"

text \<open>What a statement should add to the log of a coloured console.\<close>

definition render :: "log_level \<Rightarrow> string \<Rightarrow> log_statement \<Rightarrow> string" where
  "render lvl exe st =
     escape (color_code (st_level st)) @
     (if lvl \<le> st_level st
      then st_time st @ '' '' @ exe @ ''::'' @ base_name (st_file st) @ '':'' @ st_line st @ '' ['' @
           represent_level (st_level st) @ '']'' @ concat (map (\<lambda>v. tab @ v) (st_values st)) @ newline
      else [])"

lemma base_name_spec: "\<exists>d. file = d @ base_name file \<and> CHR ''/'' \<notin> set (base_name file) \<and> (d = [] \<or> last d = CHR ''/'')"
proof -
  let ?P = "\<lambda>c. c \<noteq> CHR ''/''" and ?d = "rev (dropWhile (\<lambda>c. c \<noteq> CHR ''/'') (rev file))"
  have "file = ?d @ base_name file"
    unfolding base_name_def rev_append[symmetric] takeWhile_dropWhile_id by simp
  moreover have "CHR ''/'' \<notin> set (base_name file)" by (auto simp: base_name_def dest: set_takeWhileD)
  moreover have "?d = [] \<or> last ?d = CHR ''/''"
    using hd_dropWhile[of ?P "rev file"] by (auto simp: last_rev)
  ultimately show ?thesis by blast
qed

text \<open>The state between two statements.\<close>

definition idle_logger :: "log_level \<Rightarrow> string \<Rightarrow> s_logger \<Rightarrow> bool" where
  "idle_logger lvl exe l \<longleftrightarrow> global_flags l = L_color \<and> lflags l = L_color \<and> level l = lvl \<and> executable l = exe"

lemmas logger_ops = stream_value_def stream_flag_def stream_level_def log_value_def log_time_def print_level_def
  clear_flags_def put_def add_flag_def remove_flag_def is_null_def is_space_def is_tabs_def has_level_def has_color_def
  has_meet_level_def flags_add_def flags_sub_def flag_defs Let_def

lemma log_at_met:
  assumes "idle_logger lvl exe l" and "lvl \<le> st"
  shows "log_at st time file line l = l\<lparr>streaming_level := st, lflags := L_color OR L_level,
    stream_text := stream_text l @ escape (color_code st) @ time @ '' '' @ exe @ ''::'' @ base_name file @ '':'' @ line @
      '' ['' @ represent_level st @ '']''\<rparr>"
  using assms by (simp add: idle_logger_def log_at_def logger_ops base_name_def)

lemma log_at_filtered:
  assumes "idle_logger lvl exe l" and "\<not> lvl \<le> st"
  shows "log_at st time file line l =
    l\<lparr>streaming_level := st, stream_text := stream_text l @ escape (color_code st)\<rparr>"
  using assms by (simp add: idle_logger_def log_at_def logger_ops)

lemma values_met:
  assumes "level l \<le> streaming_level l" and "lflags l = L_color OR L_level"
  shows "fold stream_value vs l = l\<lparr>stream_text := stream_text l @ concat (map (\<lambda>v. tab @ v) vs)\<rparr>"
  using assms
proof (induction vs arbitrary: l)
  case (Cons v vs)
  have "stream_value v l = l\<lparr>stream_text := stream_text l @ tab @ v\<rparr>"
    using Cons.prems by (simp add: logger_ops)
  then show ?case using Cons by simp
qed simp

lemma values_filtered: "\<not> level l \<le> streaming_level l \<Longrightarrow> fold stream_value vs l = l"
  by (induction vs) (simp_all add: stream_value_def has_meet_level_def)

lemma endl_met:
  assumes "level l \<le> streaming_level l" and "lflags l = L_color OR L_level" and "global_flags l = L_color"
  shows "stream_flag time L_endl l = l\<lparr>lflags := L_color, stream_text := stream_text l @ newline\<rparr>"
  using assms by (simp add: logger_ops)

lemma endl_filtered: "\<not> level l \<le> streaming_level l \<Longrightarrow> stream_flag time f l = l"
  by (simp add: stream_flag_def has_meet_level_def)

lemma log_statement_effect:
  assumes "idle_logger lvl exe l"
  shows "log_statement_run l st =
    l\<lparr>streaming_level := st_level st, stream_text := stream_text l @ render lvl exe st\<rparr>"
proof (cases "lvl \<le> st_level st")
  case True
  have f: "level l = lvl" "global_flags l = L_color" "lflags l = L_color" using assms by (simp_all add: idle_logger_def)
  then show ?thesis using True
    by (simp add: log_statement_run_def log_at_met[OF assms] values_met endl_met render_def)
next
  case False
  then show ?thesis using assms
    by (simp add: log_statement_run_def log_at_filtered values_filtered endl_filtered render_def idle_logger_def)
qed

lemma idle_statement: "idle_logger lvl exe l \<Longrightarrow> idle_logger lvl exe (log_statement_run l st)"
  by (simp add: log_statement_effect) (simp add: idle_logger_def)

lemma log_run_from:
  "idle_logger lvl exe l \<Longrightarrow>
    stream_text (foldl log_statement_run l sts) = stream_text l @ concat (map (render lvl exe) sts)"
  by (induction sts arbitrary: l) (simp_all add: idle_statement, simp add: log_statement_effect)

subsection \<open>Properties\<close>

text \<open>C31. The log of a coloured console is the concatenation of its statements' lines, whatever
  flags the statements set on their way: each statement at or above the logger's level adds
  its colour, time, executable, file name without directory, line, level and tab-separated
  values and a line feed; each statement below it adds nothing but its colour.\<close>

theorem log_is_rendered:
  "stream_text (foldl log_statement_run (console_logger lvl L_color exe) sts) = concat (map (render lvl exe) sts)"
  using log_run_from[of lvl exe "console_logger lvl L_color exe" sts]
  by (simp add: idle_logger_def console_logger_def)

text \<open>
  The colour is written before the level is compared, so a statement that is filtered out
  changes the colour of what follows; and no statement resets it, because \<open>L_endl\<close> flushes
  only with \<open>L_allwaysFlush\<close> or \<open>L_startWithFlushing\<close>.
\<close>

theorem filtered_statement_leaks_color:
  "log_statement_run (console_logger kInfo L_color exe) (st\<lparr>st_level := kTrace\<rparr>) =
     (console_logger kInfo L_color exe)\<lparr>stream_text := escape ''37''\<rparr>"
  by (subst log_statement_effect[of kInfo exe])
    (simp_all add: idle_logger_def console_logger_def render_def less_eq_log_level_def)

text \<open>
  Switching a coloured logger off has no effect: \<open>L_null\<close> is added to the other flags, and
  \<open>is_null\<close> compares with \<open>L_null\<close> alone.
\<close>

theorem deactivated_logger_logs:
  "stream_text (stream_value v (activate False (console_logger kTrace L_color exe))) = v"
  by (simp add: activate_def console_logger_def logger_ops less_eq_log_level_def)

end
