(* ===== verification/Heartbeat.thy ===== *)
theory Heartbeat
  imports Rsp_Prelude
begin

text \<open>
  The heartbeat coroutine of a session (\<open>session::send_heartbeats\<close>). The loop suspends in
  a timer wait; what it finds when it wakes up is a value of the environment: whether the
  session was stopped before the wait and by its end, the clock, and the time of the last
  message. A run of the coroutine is a sequence of such wake-ups.
\<close>

definition kPingPeriod :: int where "kPingPeriod = 5"

definition kMaxFailedCount :: nat where "kMaxFailedCount = 3"

record wake_up =
  stop_before :: bool
  stop_after :: bool
  wake_now :: time_point
  last_received :: time_point

datatype heartbeat_call = SendPing | EnqueueStop bool

text \<open>
  The loop with \<open>failed_count\<close>, over the wake-ups so far: the calls it made, and whether it
  has ended. \<open>sends w\<close> tells whether \<open>serialize\<close> and \<open>send\<close> return; an exception ends the
  loop.
\<close>

fun send_heartbeats :: "(wake_up \<Rightarrow> bool) \<Rightarrow> nat \<Rightarrow> wake_up list \<Rightarrow> heartbeat_call list \<times> bool" where
  "send_heartbeats sends failed_count [] = ([], False)"
| "send_heartbeats sends failed_count (w # ws) =
     (if stop_before w then ([], True)
      else if stop_after w then ([], True)
      else if last_received w + kPingPeriod > wake_now w then send_heartbeats sends failed_count ws
      else if failed_count + 1 \<ge> kMaxFailedCount then ([EnqueueStop True], True)
      else if sends w
      then (case send_heartbeats sends (failed_count + 1) ws of (cs, e) \<Rightarrow> (SendPing # cs, e))
      else ([], True))"

definition silent :: "wake_up \<Rightarrow> bool" where
  "silent w \<longleftrightarrow> last_received w + kPingPeriod \<le> wake_now w"

lemma send_heartbeats_pings:
  "f < kMaxFailedCount \<Longrightarrow>
    f + length (filter (\<lambda>c. c = SendPing) (fst (send_heartbeats sends f ws))) < kMaxFailedCount"
  by (induction sends f ws rule: send_heartbeats.induct) (auto split: prod.split)

lemma send_heartbeats_ends:
  "f + length (filter silent ws) \<ge> kMaxFailedCount \<Longrightarrow> f < kMaxFailedCount \<Longrightarrow> snd (send_heartbeats sends f ws)"
  by (induction sends f ws rule: send_heartbeats.induct) (auto simp: silent_def split: prod.split if_splits)

lemma send_heartbeats_undisturbed:
  "list_all (\<lambda>w. \<not> stop_before w \<and> \<not> stop_after w \<and> sends w) ws \<Longrightarrow>
    f + length (filter silent ws) \<ge> kMaxFailedCount \<Longrightarrow> f < kMaxFailedCount \<Longrightarrow>
    fst (send_heartbeats sends f ws) = replicate (kMaxFailedCount - f - 1) SendPing @ [EnqueueStop True]"
proof (induction sends f ws rule: send_heartbeats.induct)
  case (2 sends f w ws)
  then show ?case
    by (cases "kMaxFailedCount - f - 1") (auto simp: silent_def not_le split: prod.split if_splits)
qed simp

lemma skip_active:
  "list_all (\<lambda>w. \<not> stop_before w \<and> \<not> stop_after w \<and> \<not> silent w) gap \<Longrightarrow>
    send_heartbeats sends f (gap @ ws) = send_heartbeats sends f ws"
  by (induction gap) (auto simp: silent_def)

subsection \<open>Property\<close>

text \<open>C29. The heartbeat loop terminates: at the latest at its third wake-up with no message in
  the period before, whatever happened in between. By then it has sent at most two pings, and
  when neither a stop nor an exception cut it short it sent exactly two pings and then stopped
  the session by force.\<close>

theorem heartbeats_terminate:
  assumes "length (filter silent ws) \<ge> kMaxFailedCount"
  shows "snd (send_heartbeats sends 0 ws) \<and>
    length (filter (\<lambda>c. c = SendPing) (fst (send_heartbeats sends 0 ws))) \<le> 2 \<and>
    (list_all (\<lambda>w. \<not> stop_before w \<and> \<not> stop_after w \<and> sends w) ws \<longrightarrow>
      fst (send_heartbeats sends 0 ws) = [SendPing, SendPing, EnqueueStop True])"
proof -
  have z: "0 < kMaxFailedCount" by (simp add: kMaxFailedCount_def)
  show ?thesis
    using send_heartbeats_ends[of 0 ws sends] send_heartbeats_pings[OF z, of sends ws]
      send_heartbeats_undisturbed[where sends = sends and ws = ws and f = 0] assms z
    by (simp add: kMaxFailedCount_def numeral_eq_Suc)
qed

definition quiet_wake :: "time_point \<Rightarrow> time_point \<Rightarrow> wake_up" where
  "quiet_wake t r = \<lparr>stop_before = False, stop_after = False, wake_now = t, last_received = r\<rparr>"

theorem heartbeats_terminate_witness:
  "send_heartbeats (\<lambda>_. True) 0 [quiet_wake 5 0, quiet_wake 10 7, quiet_wake 15 7, quiet_wake 20 7] =
     ([SendPing, SendPing, EnqueueStop True], True)"
  using heartbeats_terminate[of "[quiet_wake 5 0, quiet_wake 10 7, quiet_wake 15 7, quiet_wake 20 7]" "\<lambda>_. True"]
  by (simp add: silent_def quiet_wake_def kPingPeriod_def kMaxFailedCount_def prod_eq_iff)

text \<open>
  The count of silent periods is never reset: a session that was silent for three periods of its
  whole life is stopped, also when it sent messages in all the periods between them.
\<close>

theorem failures_accumulate:
  assumes "list_all (\<lambda>w. \<not> stop_before w \<and> \<not> stop_after w \<and> \<not> silent w) gap" "list_all (\<lambda>w. \<not> stop_before w \<and> \<not> stop_after w \<and> silent w) [a, b, c]"
  shows "send_heartbeats (\<lambda>_. True) 0 (a # gap @ b # gap @ [c]) = ([SendPing, SendPing, EnqueueStop True], True)"
  using assms by (simp add: skip_active kMaxFailedCount_def silent_def)

end
