(* ===== verification/Serializer.thy ===== *)
theory Serializer
  imports Rsp_Prelude
begin

text \<open>
  The wire format: big-endian header integers (\<open>message/helper.hpp\<close>), the frame
  \<open>CONTENT_LEN (8) | TYPE (4) | payload\<close> and the parser of one frame
  (\<open>message/serializer.hpp\<close>), and the message type numbers (\<open>message_type.proto\<close>).
  Protocol buffer messages are encoded by generated code: their byte size and their
  encoding are arguments of \<open>serialize\<close>, their parser is an argument of \<open>deserialize\<close>.
\<close>

unbundle bit_operations_syntax

subsection \<open>Message types\<close>

text \<open>
  A proto3 enum is open: \<open>static_cast<MessageType>\<close> of any header value is a
  \<open>MessageType\<close>. So a message type is the 32-bit number, and the named constants are
  the numbers of \<open>message_type.proto\<close>.
\<close>

type_synonym MessageType = "32 word"

datatype message_kind =
    kPing | kPong
  | kReqLogin | kResLogin | kReqLogout | kResLogout
  | kReqCreateRoom | kResCreateRoom | kReqJoinRoom | kResJoinRoom
  | kFwdRoom | kFwdClient | kNtfLeaveRoom | kReqLeaveRoom | kResLeaveRoom
  | kUser2RoomReqCreateRoom | kUser2RoomResCreateRoom
  | kUser2RoomReqJoinRoom | kUser2RoomResJoinRoom
  | kUser2RoomFwdRoom | kUser2RoomFwdClient | kUser2RoomNtfLeaveRoom
  | kUser2RoomReqLeaveRoom | kUser2RoomResLeaveRoom | kUser2RoomCancelRequest

fun message_type :: "message_kind \<Rightarrow> MessageType" where
  "message_type kPing = 0"
| "message_type kPong = 1"
| "message_type kReqLogin = 2"
| "message_type kResLogin = 3"
| "message_type kReqLogout = 4"
| "message_type kResLogout = 5"
| "message_type kReqCreateRoom = 6"
| "message_type kResCreateRoom = 7"
| "message_type kReqJoinRoom = 8"
| "message_type kResJoinRoom = 9"
| "message_type kFwdRoom = 10"
| "message_type kFwdClient = 12"
| "message_type kNtfLeaveRoom = 23"
| "message_type kReqLeaveRoom = 24"
| "message_type kResLeaveRoom = 25"
| "message_type kUser2RoomReqCreateRoom = 14"
| "message_type kUser2RoomResCreateRoom = 15"
| "message_type kUser2RoomReqJoinRoom = 16"
| "message_type kUser2RoomResJoinRoom = 17"
| "message_type kUser2RoomFwdRoom = 18"
| "message_type kUser2RoomFwdClient = 20"
| "message_type kUser2RoomNtfLeaveRoom = 22"
| "message_type kUser2RoomReqLeaveRoom = 26"
| "message_type kUser2RoomResLeaveRoom = 27"
| "message_type kUser2RoomCancelRequest = 28"

lemma message_type_eq_iff [simp]: "message_type a = message_type b \<longleftrightarrow> a = b"
  by (cases a; cases b) simp_all

subsection \<open>Big-endian integers\<close>

text \<open>
  \<open>for (remaining = sizeof(T); remaining > 0; --remaining)\<close> appends the byte
  \<open>(value >> ((remaining - 1) * 8)) & 0xff\<close>. The code admits \<open>uint32_t\<close> and
  \<open>uint64_t\<close> (a \<open>static_assert\<close>); the definitions are over any width.
\<close>

fun mset_be_loop :: "nat \<Rightarrow> 'a::len word \<Rightarrow> raw_buffer \<Rightarrow> raw_buffer" where
  "mset_be_loop 0 v dest = dest"
| "mset_be_loop (Suc r) v dest =
     mset_be_loop r v (dest @ [ucast (drop_bit (r * 8) v AND 0xff)])"

definition mset_be :: "raw_buffer \<Rightarrow> 'a::len word \<Rightarrow> raw_buffer" where
  "mset_be dest v = mset_be_loop (LENGTH('a) div 8) v dest"

text \<open>\<open>for (index = 0; index < sizeof(T); ++index) value = (value << 8) | src[offset + index]\<close>;
  \<open>n\<close> counts the iterations left.\<close>

fun mget_be_loop :: "nat \<Rightarrow> raw_buffer \<Rightarrow> nat \<Rightarrow> 'a::len word \<Rightarrow> 'a word" where
  "mget_be_loop 0 src i v = v"
| "mget_be_loop (Suc n) src i v = mget_be_loop n src (Suc i) (push_bit 8 v OR ucast (src ! i))"

definition mget_be :: "raw_buffer \<Rightarrow> nat \<Rightarrow> 'a::len word option" where
  "mget_be src offset =
     (if offset > length src \<or> length src - offset < LENGTH('a) div 8 then None
      else Some (mget_be_loop (LENGTH('a) div 8) src offset 0))"

lemma mset_be_loop_append: "mset_be_loop r v dest = dest @ mset_be_loop r v []"
proof (induction r arbitrary: dest)
  case (Suc r)
  show ?case
    using Suc[of "dest @ [ucast (drop_bit (r * 8) v AND 0xff)]"]
      Suc[of "[ucast (drop_bit (r * 8) v AND 0xff)]"] by simp
qed simp

lemma mset_be_append: "mset_be dest v = dest @ mset_be [] v"
  unfolding mset_be_def by (rule mset_be_loop_append)

lemma length_mset_be_loop: "length (mset_be_loop r v dest) = length dest + r"
  by (induction r v dest rule: mset_be_loop.induct) simp_all

lemma length_mset_be [wire_simps]:
  "length (mset_be dest (v :: 'a::len word)) = length dest + LENGTH('a) div 8"
  by (simp add: mset_be_def length_mset_be_loop)

text \<open>One byte shifted into the accumulator restores eight more bits of the value.\<close>

lemma shift_in_byte:
  fixes v :: "'a::len word"
  assumes "(r + 1) * 8 \<le> LENGTH('a)"
  shows "push_bit 8 (drop_bit ((r + 1) * 8) v) OR
      ucast (ucast (drop_bit (r * 8) v AND 0xff) :: byte) = drop_bit (r * 8) v"
proof (rule bit_word_eqI)
  fix n assume n: "n < LENGTH('a)"
  have m: "(0xff :: 'a word) = mask 8" by (simp add: mask_eq_exp_minus_1)
  show "bit (push_bit 8 (drop_bit ((r + 1) * 8) v) OR
      ucast (ucast (drop_bit (r * 8) v AND 0xff) :: byte)) n = bit (drop_bit (r * 8) v) n"
    using n unfolding m
    by (cases "n < 8")
      (auto simp: bit_or_iff bit_push_bit_iff bit_drop_bit_eq bit_and_iff bit_mask_iff
        bit_unsigned_iff algebra_simps dest: bit_imp_le_length)
qed

lemma mget_mset_be_loop:
  fixes v :: "'a::len word"
  assumes "r * 8 \<le> LENGTH('a)"
  shows "mget_be_loop r (pre @ mset_be_loop r v [] @ post) (length pre) (drop_bit (r * 8) v) = v"
  using assms
proof (induction r arbitrary: pre)
  case (Suc r)
  let ?b = "ucast (drop_bit (r * 8) v AND 0xff) :: byte"
  have split: "mset_be_loop r v [?b] = ?b # mset_be_loop r v []"
    using mset_be_loop_append[of r v "[?b]"] by simp
  have "push_bit 8 (drop_bit (Suc r * 8) v) OR ucast ?b = drop_bit (r * 8) v"
    using shift_in_byte[of r v] Suc.prems by simp
  then have "mget_be_loop (Suc r) (pre @ mset_be_loop (Suc r) v [] @ post) (length pre)
      (drop_bit (Suc r * 8) v) =
    mget_be_loop r ((pre @ [?b]) @ mset_be_loop r v [] @ post) (length (pre @ [?b]))
      (drop_bit (r * 8) v)"
    by (simp add: split)
  also have "\<dots> = v" using Suc.IH[of "pre @ [?b]"] Suc.prems by simp
  finally show ?case .
qed simp

lemma mget_mset_be:
  fixes v :: "'a::len word"
  assumes "8 dvd LENGTH('a)"
  shows "mget_be (pre @ mset_be [] v @ post) (length pre) = Some v"
proof -
  let ?n = "LENGTH('a) div 8"
  have n: "?n * 8 = LENGTH('a)" using assms by simp
  have "drop_bit (?n * 8) v = 0" unfolding n
    by (rule bit_word_eqI) (auto simp: bit_drop_bit_eq dest: bit_imp_le_length)
  then show ?thesis
    using mget_mset_be_loop[where r = ?n and v = v and pre = pre and post = post] n by (simp add: mget_be_def mset_be_def length_mset_be_loop)
qed

text \<open>Conversely, writing what was read gives back the bytes: the encoding is one to one.\<close>

lemma mset_be_loop_cong:
  fixes v w :: "'a::len word"
  assumes "\<And>i. i < n * 8 \<Longrightarrow> bit v i = bit w i"
  shows "mset_be_loop n v dest = mset_be_loop n w dest"
  using assms
proof (induction n arbitrary: dest)
  case (Suc n)
  have m: "(0xff :: 'a word) = mask 8" by (simp add: mask_eq_exp_minus_1)
  have "bit v (n * 8 + i) = bit w (n * 8 + i)" if "i < 8" for i
    using Suc.prems[of "n * 8 + i"] that by simp
  then have "(ucast (drop_bit (n * 8) v AND 0xff) :: byte) = ucast (drop_bit (n * 8) w AND 0xff)"
    unfolding m by (intro bit_word_eqI) (simp add: bit_simps)
  with Suc show ?case by simp
qed simp

lemma mset_be_loop_shift:
  fixes v :: "'a::len word"
  shows "mset_be_loop (Suc n) v dest = mset_be_loop n (drop_bit 8 v) dest @ [ucast (v AND 0xff)]"
proof (induction n arbitrary: dest)
  case (Suc n)
  show ?case by (subst mset_be_loop.simps) (simp only: Suc, simp add: ac_simps)
qed simp

lemma mget_be_loop_foldl:
  "i + n \<le> length src \<Longrightarrow>
   mget_be_loop n src i v = foldl (\<lambda>v b. push_bit 8 v OR ucast b) v (take n (drop i src))"
proof (induction n src i v rule: mget_be_loop.induct)
  case (2 n src i v)
  then have "take (Suc n) (drop i src) = src ! i # take n (drop (Suc i) src)"
    using Cons_nth_drop_Suc[of i src, symmetric] by simp
  with 2 show ?case by simp
qed simp

lemma mset_foldl_bytes:
  fixes v :: "'a::len word"
  assumes "length bs * 8 \<le> LENGTH('a)"
  shows "mset_be_loop (length bs) (foldl (\<lambda>v b. push_bit 8 v OR ucast b) v bs) [] = bs"
  using assms
proof (induction bs rule: rev_induct)
  case (snoc b bs)
  let ?w = "foldl (\<lambda>v b. push_bit 8 v OR ucast b) v bs"
  have m: "(0xff :: 'a word) = mask 8" by (simp add: mask_eq_exp_minus_1)
  have low: "(ucast ((push_bit 8 ?w OR ucast b) AND 0xff) :: byte) = b"
    unfolding m using snoc.prems by (intro bit_word_eqI) (simp add: bit_simps)
  have "bit (drop_bit 8 (push_bit 8 ?w OR ucast b)) i = bit ?w i" if "i < length bs * 8" for i
    using snoc.prems that bit_imp_le_length[of b "8 + i"] by (auto simp: bit_simps)
  then have "mset_be_loop (length bs) (drop_bit 8 (push_bit 8 ?w OR ucast b)) [] =
      mset_be_loop (length bs) ?w []"
    by (rule mset_be_loop_cong)
  with low snoc show ?case by (simp add: mset_be_loop_shift del: mset_be_loop.simps)
qed simp

lemma mset_mget_be:
  fixes v :: "'a::len word"
  assumes "mget_be src offset = Some v" and "8 dvd LENGTH('a)"
  shows "take (LENGTH('a) div 8) (drop offset src) = mset_be [] v"
proof -
  let ?n = "LENGTH('a) div 8" and ?bs = "take (LENGTH('a) div 8) (drop offset src)"
  from assms(1) have len: "offset + ?n \<le> length src"
    and v: "v = foldl (\<lambda>v b. push_bit 8 v OR ucast b) 0 ?bs"
    by (auto simp: mget_be_def mget_be_loop_foldl split: if_splits)
  have "length ?bs = ?n" using len by simp
  then show ?thesis using mset_foldl_bytes[of ?bs "0 :: 'a word"] assms(2) v
    by (simp add: mset_be_def)
qed

lemma mget_be_prefix:
  "mget_be src offset = Some v \<Longrightarrow> mget_be (src @ rest) offset = Some v"
proof -
  have loop: "i + n \<le> length src \<Longrightarrow> mget_be_loop n (src @ rest) i a = mget_be_loop n src i a"
    for n i and a :: "'a word"
    by (induction n src i a rule: mget_be_loop.induct) (simp_all add: nth_append)
  show "mget_be src offset = Some v \<Longrightarrow> mget_be (src @ rest) offset = Some v"
    by (auto simp: mget_be_def loop split: if_splits)
qed

subsection \<open>Slices of a buffer\<close>

text \<open>
  \<open>retrieve_parts\<close> takes its bounds as \<open>int\<close>: a \<open>size_t\<close> argument is converted modulo
  \<open>2 ^ 32\<close>. Reading outside the buffer is undefined behaviour, the value \<open>None\<close>.
\<close>

definition int_of_size :: "nat \<Rightarrow> int" where
  "int_of_size n = sint (of_nat n :: 32 word)"

definition retrieve_parts :: "raw_buffer \<Rightarrow> int \<Rightarrow> int \<Rightarrow> raw_buffer option" where
  "retrieve_parts buf b e =
     (if b \<ge> e then Some []
      else if 0 \<le> b \<and> e \<le> int (length buf) then Some (take (nat (e - b)) (drop (nat b) buf))
      else None)"

definition retrieve_v :: "raw_buffer \<Rightarrow> nat \<Rightarrow> nat \<Rightarrow> raw_buffer option" where
  "retrieve_v buf b e = retrieve_parts buf (int_of_size b) (int_of_size e)"

lemma int_of_size_small: "n < 2 ^ 31 \<Longrightarrow> int_of_size n = int n"
  by (simp add: int_of_size_def signed_of_nat signed_take_bit_int_eq_self)

lemma retrieve_v_suffix:
  "b \<le> length buf \<Longrightarrow> length buf < 2 ^ 31 \<Longrightarrow> retrieve_v buf b (length buf) = Some (drop b buf)"
  by (auto simp: retrieve_v_def retrieve_parts_def int_of_size_small nat_diff_distrib)

subsection \<open>Frames\<close>

datatype parse_status = kIncomplete | kComplete | kInvalid

record meta =
  status :: parse_status
  size :: nat
  payload_size :: nat
  mtype :: MessageType
  payload :: raw_buffer

definition meta_default :: meta where
  "meta_default = \<lparr>status = kIncomplete, size = 0, payload_size = 0, mtype = 0, payload = []\<rparr>"

definition kContentLen :: nat where "kContentLen = 8"
definition kType :: nat where "kType = 4"
definition kHeaderSize :: nat where "kHeaderSize = kContentLen + kType"
definition kMaxPayloadSize :: nat where "kMaxPayloadSize = 64 * 1024"

lemmas frame_consts = kContentLen_def kType_def kHeaderSize_def kMaxPayloadSize_def

datatype length_error = LengthError

definition serialize ::
  "('m \<Rightarrow> nat) \<Rightarrow> ('m \<Rightarrow> raw_buffer) \<Rightarrow> MessageType \<Rightarrow> 'm \<Rightarrow> length_error + raw_buffer" where
  "serialize ByteSizeLong SerializeAsString type message =
     (let content_len = ByteSizeLong message in
      if content_len > kMaxPayloadSize then Inl LengthError
      else Inr (mset_be (mset_be [] (of_nat content_len :: 64 word)) type @ SerializeAsString message))"

definition destruct_buffer :: "raw_buffer \<Rightarrow> meta" where
  "destruct_buffer buffer =
     (case (mget_be buffer 0 :: 64 word option) of
        None \<Rightarrow> meta_default
      | Some content_length \<Rightarrow>
          if unat content_length > kMaxPayloadSize then meta_default\<lparr>status := kInvalid\<rparr>
          else
            (let plen = unat content_length; message_len = kHeaderSize + plen in
             if length buffer < message_len then meta_default
             else
               (case (mget_be buffer kContentLen :: 32 word option) of
                  None \<Rightarrow> meta_default
                | Some type_parts \<Rightarrow>
                    \<lparr>status = kComplete, size = message_len, payload_size = plen,
                     mtype = type_parts,
                     payload = drop (kContentLen + kType) (take message_len buffer)\<rparr>)))"

text \<open>\<open>ParseFromIstream\<close> over a copy of the bytes: the result flag and the message that
  was (perhaps partly) filled.\<close>

definition deserialize :: "(raw_buffer \<Rightarrow> bool \<times> 'm) \<Rightarrow> raw_buffer \<Rightarrow> bool \<times> 'm" where
  "deserialize ParseFromIstream buffer = ParseFromIstream buffer"

text \<open>The bytes of a frame with a given type and payload, as an abstract specification.\<close>

definition frame :: "MessageType \<Rightarrow> raw_buffer \<Rightarrow> raw_buffer" where
  "frame type p = mset_be [] (of_nat (length p) :: 64 word) @ mset_be [] type @ p"

lemma length_frame [wire_simps]: "length (frame type p) = kHeaderSize + length p"
  by (simp add: frame_def length_mset_be frame_consts)

lemma serialize_eq_frame:
  "ByteSizeLong m = length (SerializeAsString m) \<Longrightarrow> length (SerializeAsString m) \<le> kMaxPayloadSize \<Longrightarrow>
   serialize ByteSizeLong SerializeAsString type m = Inr (frame type (SerializeAsString m))"
  using mset_be_append[of "mset_be [] (of_nat (length (SerializeAsString m)) :: 64 word)" type]
  by (simp add: serialize_def frame_def)

lemma frame_len_read: "mget_be (frame type p @ rest) 0 = Some (of_nat (length p) :: 64 word)"
  using mget_mset_be[where pre = "[]" and v = "of_nat (length p) :: 64 word" and post = "mset_be [] type @ p @ rest"]
  by (simp add: frame_def)

lemma frame_type_read: "mget_be (frame type p @ rest) kContentLen = Some type"
  using mget_mset_be[where pre = "mset_be [] (of_nat (length p) :: 64 word)" and v = type and post = "p @ rest"]
  by (simp add: frame_def length_mset_be frame_consts)

lemma unat_of_len: "n \<le> kMaxPayloadSize \<Longrightarrow> unat (of_nat n :: 64 word) = n"
  by (simp add: unat_of_nat frame_consts)

lemma destruct_frame [wire_simps]:
  assumes "length p \<le> kMaxPayloadSize"
  shows "destruct_buffer (frame type p @ rest) =
    \<lparr>status = kComplete, size = kHeaderSize + length p, payload_size = length p,
     mtype = type, payload = p\<rparr>"
proof -
  have "drop (kContentLen + kType) (take (kHeaderSize + length p) (frame type p @ rest)) = p"
    by (simp add: frame_def length_mset_be frame_consts)
  with assms show ?thesis
    by (simp add: destruct_buffer_def frame_len_read frame_type_read unat_of_len length_frame Let_def)
qed

lemma mget_be_None_iff:
  "(mget_be src offset :: 'a::len word option) = None \<longleftrightarrow>
     length src < offset \<or> length src - offset < LENGTH('a) div 8"
  by (simp add: mget_be_def)

lemma mget_be_0_cases [consumes 0, case_names short enough]:
  obtains "length b < 8" and "(mget_be b 0 :: 64 word option) = None"
  | cl where "8 \<le> length b" and "mget_be b 0 = Some (cl :: 64 word)"
  by (cases "mget_be b 0 :: 64 word option") (auto simp: mget_be_def split: if_splits)

text \<open>The type field is always readable once the whole message has arrived.\<close>

lemma mget_type_total:
  "kHeaderSize \<le> length b \<Longrightarrow> \<exists>t. mget_be b kContentLen = Some (t :: 32 word)"
  by (simp add: mget_be_def frame_consts)

lemma destruct_sound_frame:
  assumes "status (destruct_buffer b) = kComplete"
  defines "m \<equiv> destruct_buffer b"
  shows "b = frame (mtype m) (payload m) @ drop (size m) b"
    and "size m = kHeaderSize + length (payload m)" and "payload_size m = length (payload m)"
    and "length (payload m) \<le> kMaxPayloadSize" and "size m \<le> length b"
proof -
  from assms(1) obtain cl t where cl: "mget_be b 0 = Some (cl :: 64 word)"
    and max: "unat cl \<le> kMaxPayloadSize" and len: "kHeaderSize + unat cl \<le> length b"
    and t: "mget_be b kContentLen = Some (t :: 32 word)"
    and m: "m = \<lparr>status = kComplete, size = kHeaderSize + unat cl, payload_size = unat cl,
      mtype = t, payload = drop (kContentLen + kType) (take (kHeaderSize + unat cl) b)\<rparr>"
    by (auto simp: destruct_buffer_def m_def meta_default_def Let_def not_less
      split: option.splits if_splits)
  have pl: "length (payload m) = unat cl" using len by (simp add: m frame_consts)
  have h1: "take 8 b = mset_be [] cl" using mset_mget_be[OF cl] by simp
  have h2: "take 4 (drop 8 b) = mset_be [] t" using mset_mget_be[OF t] by (simp add: frame_consts)
  have "b = take 8 b @ take 4 (drop 8 b) @ payload m @ drop (size m) b"
    using take_drop_split3[of b 8 4 "unat cl"] by (simp add: m frame_consts drop_take)
  then show "b = frame (mtype m) (payload m) @ drop (size m) b"
    by (simp add: frame_def pl h1 h2) (simp add: m)
  show "size m = kHeaderSize + length (payload m)" "payload_size m = length (payload m)"
    "length (payload m) \<le> kMaxPayloadSize" "size m \<le> length b"
    using pl max len by (simp_all add: m)
qed

text \<open>Bytes that arrive later never change the verdict on a complete or invalid prefix.\<close>

lemma destruct_complete_ext [wire_simps]:
  assumes "status (destruct_buffer b) = kComplete"
  shows "destruct_buffer (b @ c) = destruct_buffer b"
proof -
  let ?m = "destruct_buffer b"
  note snd = destruct_sound_frame[OF assms]
  have "destruct_buffer (frame (mtype ?m) (payload ?m) @ r) =
      \<lparr>status = kComplete, size = kHeaderSize + length (payload ?m),
       payload_size = length (payload ?m), mtype = mtype ?m, payload = payload ?m\<rparr>" for r
    by (rule destruct_frame) (rule snd(4))
  from this[of "drop (size ?m) b"] this[of "drop (size ?m) b @ c"] show ?thesis
    using snd(1) by (metis append_assoc)
qed

lemma destruct_invalid_iff:
  "status (destruct_buffer b) = kInvalid \<longleftrightarrow>
     (\<exists>cl. mget_be b 0 = Some (cl :: 64 word) \<and> kMaxPayloadSize < unat cl)"
  by (auto simp: destruct_buffer_def meta_default_def Let_def split: option.splits)

lemma destruct_invalid_ext [wire_simps]:
  "status (destruct_buffer b) = kInvalid \<Longrightarrow> status (destruct_buffer (b @ c)) = kInvalid"
  using mget_be_prefix by (fastforce simp: destruct_invalid_iff)

lemma destruct_incomplete_bound:
  assumes "status (destruct_buffer b) = kIncomplete"
  shows "length b < kHeaderSize + kMaxPayloadSize"
proof (cases b rule: mget_be_0_cases)
  case short
  then show ?thesis by (simp add: frame_consts)
next
  case (enough cl)
  show ?thesis
  proof (rule ccontr)
    assume big: "\<not> ?thesis"
    then obtain t where "mget_be b kContentLen = Some (t :: 32 word)"
      using mget_type_total[of b] by auto
    with assms enough big show False
      by (auto simp: destruct_buffer_def Let_def split: if_splits)
  qed
qed

lemma destruct_complete_pos: "status (destruct_buffer b) = kComplete \<Longrightarrow> 0 < size (destruct_buffer b)"
  using destruct_sound_frame(2) by (simp add: frame_consts)

subsection \<open>Properties\<close>

text \<open>C32. Round trip of one message over the wire: unless its encoding is longer than the
  64 KiB limit, in which case \<open>serialize\<close> throws, the receiver parses from the front of
  any byte sequence that starts with the serialized message exactly its type and its
  payload, and decoding the payload gives the message back.\<close>

theorem serialize_roundtrip:
  assumes size: "\<And>m. ByteSizeLong m = length (SerializeAsString m)"
    and parse: "\<And>m. ParseFromIstream (SerializeAsString m) = (True, m)"
  shows "case serialize ByteSizeLong SerializeAsString type m of
      Inl LengthError \<Rightarrow> kMaxPayloadSize < length (SerializeAsString m)
    | Inr bytes \<Rightarrow>
        destruct_buffer (bytes @ rest) =
          \<lparr>status = kComplete, size = length bytes, payload_size = length (SerializeAsString m),
           mtype = type, payload = SerializeAsString m\<rparr> \<and>
        deserialize ParseFromIstream (payload (destruct_buffer (bytes @ rest))) = (True, m)"
proof (cases "length (SerializeAsString m) \<le> kMaxPayloadSize")
  case True
  then show ?thesis
    by (simp add: serialize_eq_frame size destruct_frame length_frame deserialize_def parse)
next
  case False
  then show ?thesis by (simp add: serialize_def size)
qed

theorem serialize_roundtrip_witness:
  "case serialize length (\<lambda>m. m) (message_type kPing) [1, 2, 3] of
      Inl LengthError \<Rightarrow> False
    | Inr bytes \<Rightarrow> payload (destruct_buffer (bytes @ [9])) = [1, 2, 3]"
  using serialize_roundtrip[where ByteSizeLong = length and SerializeAsString = "\<lambda>m. m"
      and ParseFromIstream = "\<lambda>b. (True, b)" and m = "[1, 2, 3]" and rest = "[9]"
      and type = "message_type kPing"]
  by (auto simp: frame_consts split: sum.splits length_error.splits)

text \<open>The parser accepts nothing but frames: when it reports a complete message, the
  buffer starts with the encoding of exactly the type and payload it returns, the size it
  reports is the length of that encoding, and the payload is within the limit.\<close>

theorem destruct_buffer_sound:
  assumes "status (destruct_buffer buffer) = kComplete"
  shows "buffer = frame (mtype (destruct_buffer buffer)) (payload (destruct_buffer buffer))
             @ drop (size (destruct_buffer buffer)) buffer
    \<and> size (destruct_buffer buffer) = kHeaderSize + payload_size (destruct_buffer buffer)
    \<and> payload_size (destruct_buffer buffer) = length (payload (destruct_buffer buffer))
    \<and> length (payload (destruct_buffer buffer)) \<le> kMaxPayloadSize"
  using destruct_sound_frame[OF assms] by simp

theorem destruct_buffer_sound_witness:
  "[0, 0, 0, 0, 0, 0, 0, 2, 0, 0, 0, 10, 65, 66, 7] = frame (message_type kFwdRoom) [65, 66] @ [7]"
proof -
  let ?b = "[0, 0, 0, 0, 0, 0, 0, 2, 0, 0, 0, 10, 65, 66, 7] :: raw_buffer"
  have eval: "destruct_buffer ?b = \<lparr>status = kComplete, size = 14, payload_size = 2,
      mtype = 10, payload = [65, 66]\<rparr>"
    by (simp add: destruct_buffer_def mget_be_def mget_be_loop_foldl frame_consts)
  then have "status (destruct_buffer ?b) = kComplete" by simp
  from destruct_buffer_sound[OF this] show ?thesis by (simp add: eval)
qed

end
