(* ===== verification/Conn_Interpreter.thy ===== *)
theory Conn_Interpreter
  imports Serializer
begin

text \<open>
  The per-connection reassembly of messages from the byte stream
  (\<open>message/conn_interpreter.hpp\<close>). The contract of a frame parser is a locale: the
  verdict on a prefix is stable when more bytes arrive, and a complete frame takes at
  least one byte. Any such parser turns a byte stream into the same frames however the
  stream is cut into reads; \<open>handle_buffer\<close> is shown to implement that stream
  semantics with the parser \<open>destruct_buffer\<close>.
\<close>

subsection \<open>Abstract streams of frames\<close>

datatype 'f parsed = Incomplete | Complete 'f nat | Invalid

text \<open>
  The frames at the front of a byte sequence, and what is left: the unparsed rest, or
  \<open>None\<close> after an invalid header. A parser that consumes nothing is not asked again.
\<close>

function stream :: "('b list \<Rightarrow> 'f parsed) \<Rightarrow> 'b list \<Rightarrow> 'f list \<times> 'b list option" where
  "stream parse b =
     (case parse b of
        Incomplete \<Rightarrow> ([], Some b)
      | Invalid \<Rightarrow> ([], None)
      | Complete f n \<Rightarrow>
          if n = 0 \<or> b = [] then ([], Some b)
          else (let (fs, r) = stream parse (drop n b) in (f # fs, r)))"
  by pat_completeness auto
termination
  by (relation "measure (\<lambda>(parse, b). length b)") auto

declare stream.simps [simp del]

locale frame_parser =
  fixes parse :: "'b list \<Rightarrow> 'f parsed"
  assumes complete_pos: "parse b = Complete f n \<Longrightarrow> 0 < n \<and> n \<le> length b"
    and complete_ext: "parse b = Complete f n \<Longrightarrow> parse (b @ c) = Complete f n"
    and invalid_ext: "parse b = Invalid \<Longrightarrow> parse (b @ c) = Invalid"
begin

lemma stream_Complete:
  assumes "parse b = Complete f n"
  shows "stream parse b = (f # fst (stream parse (drop n b)), snd (stream parse (drop n b)))"
proof -
  have "n \<noteq> 0" and "b \<noteq> []" using complete_pos[OF assms] by auto
  then show ?thesis by (simp add: stream.simps[of parse b] assms split: prod.splits)
qed

lemma stream_Incomplete: "parse b = Incomplete \<Longrightarrow> stream parse b = ([], Some b)"
  by (simp add: stream.simps[of parse b])

lemma stream_Invalid: "parse b = Invalid \<Longrightarrow> stream parse b = ([], None)"
  by (simp add: stream.simps[of parse b])

text \<open>Bytes may arrive in any cut: parse what is there, then the rest with what follows.\<close>

theorem stream_append:
  "stream parse (b @ c) =
     (case stream parse b of
        (fs, None) \<Rightarrow> (fs, None)
      | (fs, Some r) \<Rightarrow> (fs @ fst (stream parse (r @ c)), snd (stream parse (r @ c))))"
proof (induction "length b" arbitrary: b rule: less_induct)
  case less
  show ?case
  proof (cases "parse b")
    case Incomplete
    then show ?thesis by (simp add: stream_Incomplete)
  next
    case (Complete f n)
    with complete_pos have n: "0 < n" "n \<le> length b" by blast+
    then have "length (drop n b) < length b" by simp
    from less[OF this] n show ?thesis
      by (simp add: stream_Complete[OF Complete] stream_Complete[OF complete_ext[OF Complete]]
        split: prod.splits option.splits)
  next
    case Invalid
    then show ?thesis by (simp add: stream_Invalid invalid_ext)
  qed
qed

lemma stream_rest_incomplete:
  "stream parse b = (fs, Some r) \<Longrightarrow> parse r = Incomplete"
proof (induction "length b" arbitrary: b fs rule: less_induct)
  case less
  show ?case
  proof (cases "parse b")
    case (Complete f n)
    with complete_pos have "length (drop n b) < length b" by fastforce
    moreover have "stream parse (drop n b) = (tl fs, Some r)"
      using less.prems by (auto simp: stream_Complete[OF Complete] prod_eq_iff)
    ultimately show ?thesis using less.hyps by blast
  qed (use less.prems in \<open>simp_all add: stream_Incomplete stream_Invalid\<close>)
qed

end

subsection \<open>The parser of the wire format\<close>

definition parse_frame :: "raw_buffer \<Rightarrow> (MessageType \<times> raw_buffer) parsed" where
  "parse_frame b =
     (let m = destruct_buffer b in
      case status m of
        kIncomplete \<Rightarrow> Incomplete
      | kComplete \<Rightarrow> Complete (mtype m, payload m) (size m)
      | kInvalid \<Rightarrow> Invalid)"

lemma parse_frame_status:
  "parse_frame b = Complete f n \<longleftrightarrow> status (destruct_buffer b) = kComplete \<and>
     f = (mtype (destruct_buffer b), payload (destruct_buffer b)) \<and> n = size (destruct_buffer b)"
  "parse_frame b = Invalid \<longleftrightarrow> status (destruct_buffer b) = kInvalid"
  "parse_frame b = Incomplete \<longleftrightarrow> status (destruct_buffer b) = kIncomplete"
  by (auto simp: parse_frame_def Let_def split: parse_status.splits)

interpretation wire: frame_parser parse_frame
  by unfold_locales
    (auto simp: parse_frame_status wire_simps destruct_complete_pos destruct_sound_frame(5))

lemma parse_frame_frame:
  "length p \<le> kMaxPayloadSize \<Longrightarrow>
   parse_frame (frame t p @ rest) = Complete (t, p) (length (frame t p))"
  by (simp add: parse_frame_status destruct_frame length_frame)

lemma stream_frames:
  assumes "\<forall>(t, p) \<in> set ms. length p \<le> kMaxPayloadSize"
  shows "stream parse_frame (concat (map (\<lambda>(t, p). frame t p) ms) @ rest) =
    (ms @ fst (stream parse_frame rest), snd (stream parse_frame rest))"
  using assms
proof (induction ms)
  case (Cons m ms)
  obtain t p where m: "m = (t, p)" by (cases m)
  have "parse_frame (frame t p @ concat (map (\<lambda>(t, p). frame t p) ms) @ rest) =
      Complete (t, p) (length (frame t p))"
    using Cons.prems m by (intro parse_frame_frame) auto
  from wire.stream_Complete[OF this] Cons m show ?case by simp
qed simp

lemma stream_Nil: "stream parse_frame [] = ([], Some [])"
  by (rule wire.stream_Incomplete)
    (simp add: parse_frame_status destruct_buffer_def mget_be_def meta_default_def)

subsection \<open>The interpreter\<close>

text \<open>
  \<open>link_\<close> (\<open>ilink\<close>) and \<open>buffer_\<close> (\<open>ibuffer\<close>) of \<open>conn_interpreter\<close>; \<open>'l\<close> are the links, \<open>'s\<close> is the state
  the dispatcher works on. \<open>dispatch type payload link s\<close> is \<open>dispatcher_->dispatch\<close>.
\<close>

record 'l interpreter =
  ilink :: "'l option"
  ibuffer :: raw_buffer

definition attach_link :: "'l option \<Rightarrow> 'l interpreter \<Rightarrow> 'l interpreter" where
  "attach_link l i = i\<lparr>ilink := l\<rparr>"

lemma retrieve_v_shorter:
  assumes "status (destruct_buffer b) = kComplete"
    and "retrieve_v b (size (destruct_buffer b)) (length b) = Some b'"
  shows "length b' < length b"
proof -
  let ?n = "size (destruct_buffer b)"
  have n: "0 < ?n" "?n \<le> length b" "?n \<le> kHeaderSize + kMaxPayloadSize"
    using destruct_sound_frame[OF assms(1)] destruct_complete_pos[OF assms(1)] by simp_all
  then have "int_of_size ?n = int ?n" by (intro int_of_size_small) (simp add: frame_consts)
  with assms(2) n show ?thesis
    by (auto simp: retrieve_v_def retrieve_parts_def split: if_splits)
qed

text \<open>The loop of \<open>handle_buffer\<close>; \<open>None\<close> is the undefined behaviour of \<open>retrieve_v\<close>
  on bounds outside the buffer.\<close>

function handle_loop ::
  "(MessageType \<Rightarrow> raw_buffer \<Rightarrow> 's \<Rightarrow> 's) \<Rightarrow> raw_buffer \<Rightarrow> 's \<Rightarrow> (bool \<times> raw_buffer \<times> 's) option" where
  "handle_loop dispatch b s =
     (let m = destruct_buffer b in
      if status m = kInvalid then Some (False, [], s)
      else if status m = kIncomplete then Some (True, b, s)
      else
        (case retrieve_v b (size m) (length b) of
           None \<Rightarrow> None
         | Some b' \<Rightarrow> handle_loop dispatch b' (dispatch (mtype m) (payload m) s)))"
  by pat_completeness auto
termination
proof (relation "measure (\<lambda>(dispatch, b, s). length b)", simp_all, goal_cases)
  case (1 b b')
  then show ?case using retrieve_v_shorter parse_status.exhaust by blast
qed

declare handle_loop.simps [simp del]

definition handle_buffer ::
  "(MessageType \<Rightarrow> raw_buffer \<Rightarrow> 'l option \<Rightarrow> 's \<Rightarrow> 's) \<Rightarrow> 'l interpreter \<Rightarrow> raw_buffer \<Rightarrow> nat \<Rightarrow> 's
     \<Rightarrow> (bool \<times> 'l interpreter \<times> 's) option" where
  "handle_buffer dispatch i arr len s =
     (if len > length arr then Some (False, i, s)
      else
        (case handle_loop (\<lambda>t p. dispatch t p (ilink i)) (ibuffer i @ take len arr) s of
           None \<Rightarrow> None
         | Some (ok, b, s') \<Rightarrow> Some (ok, i\<lparr>ibuffer := b\<rparr>, s')))"

text \<open>The loop runs the abstract stream and never leaves the buffer.\<close>

lemma handle_loop_stream:
  assumes "length b < 2 ^ 31"
  shows "handle_loop dispatch b s =
    (case stream parse_frame b of
       (fs, r) \<Rightarrow> Some (r \<noteq> None, case r of None \<Rightarrow> [] | Some b' \<Rightarrow> b',
         fold (\<lambda>(t, p). dispatch t p) fs s))"
  using assms
proof (induction "length b" arbitrary: b s rule: less_induct)
  case less
  let ?m = "destruct_buffer b"
  show ?case
  proof (cases "parse_frame b")
    case Incomplete
    then show ?thesis
      by (simp add: handle_loop.simps[of _ b] wire.stream_Incomplete parse_frame_status)
  next
    case Invalid
    then show ?thesis
      by (simp add: handle_loop.simps[of _ b] wire.stream_Invalid parse_frame_status)
  next
    case (Complete f n)
    then have c: "status ?m = kComplete" and f: "f = (mtype ?m, payload ?m)" and n: "n = size ?m"
      by (auto simp: parse_frame_status)
    have rv: "retrieve_v b n (length b) = Some (drop n b)"
      using less.prems destruct_sound_frame(5)[OF c] n by (simp add: retrieve_v_suffix)
    have "length (drop n b) < length b" using retrieve_v_shorter[OF c] rv n by simp
    from less(1)[OF this] less.prems rv show ?thesis
      by (simp add: handle_loop.simps[of _ b] c n[symmetric] wire.stream_Complete[OF Complete] f
        Let_def split: prod.splits)
  qed
qed

text \<open>
  The reads of a connection: \<open>handle_read\<close> passes each block of at most 128 bytes to
  \<open>handle_buffer\<close> and reads on while it returns true.
\<close>

fun read_blocks ::
  "(MessageType \<Rightarrow> raw_buffer \<Rightarrow> 'l option \<Rightarrow> 's \<Rightarrow> 's) \<Rightarrow> 'l interpreter \<Rightarrow> (raw_buffer \<times> nat) list
     \<Rightarrow> 's \<Rightarrow> (bool \<times> 'l interpreter \<times> 's) option" where
  "read_blocks dispatch i [] s = Some (True, i, s)"
| "read_blocks dispatch i ((arr, len) # blocks) s =
     (case handle_buffer dispatch i arr len s of
        None \<Rightarrow> None
      | Some (ok, i', s') \<Rightarrow> if ok then read_blocks dispatch i' blocks s' else Some (False, i', s'))"

definition block_ok :: "raw_buffer \<times> nat \<Rightarrow> bool" where
  "block_ok = (\<lambda>(arr, len). length arr = 128 \<and> len \<le> length arr)"

definition block_bytes :: "(raw_buffer \<times> nat) list \<Rightarrow> raw_buffer" where
  "block_bytes blocks = concat (map (\<lambda>(arr, len). take len arr) blocks)"

text \<open>What stays buffered between reads: an incomplete frame, hence a bounded one.\<close>

definition interp_inv :: "'l interpreter \<Rightarrow> bool" where
  "interp_inv i \<longleftrightarrow> parse_frame (ibuffer i) = Incomplete"

lemma interp_inv_bound: "interp_inv i \<Longrightarrow> length (ibuffer i) < kHeaderSize + kMaxPayloadSize"
  by (simp add: interp_inv_def parse_frame_status destruct_incomplete_bound)

lemma interp_inv_empty [simp]: "interp_inv \<lparr>ilink = l, ibuffer = []\<rparr>"
  using wire.stream_rest_incomplete[OF stream_Nil] by (simp add: interp_inv_def)

lemma handle_buffer_stream:
  assumes "interp_inv i" and "block_ok (arr, len)"
  shows "handle_buffer dispatch i arr len s =
    (case stream parse_frame (ibuffer i @ take len arr) of
       (fs, r) \<Rightarrow> Some (r \<noteq> None, i\<lparr>ibuffer := (case r of None \<Rightarrow> [] | Some b \<Rightarrow> b)\<rparr>,
         fold (\<lambda>(t, p). dispatch t p (ilink i)) fs s))"
proof -
  have "length (ibuffer i @ take len arr) < 2 ^ 31"
    using interp_inv_bound[OF assms(1)] assms(2) by (simp add: block_ok_def frame_consts)
  then show ?thesis
    using assms(2) by (simp add: handle_buffer_def handle_loop_stream block_ok_def split: prod.splits)
qed

lemma handle_buffer_inv:
  assumes "interp_inv i" and "block_ok (arr, len)"
    and "handle_buffer dispatch i arr len s = Some (ok, i', s')"
  shows "interp_inv i'" and "ilink i' = ilink i"
proof -
  obtain fs r where st: "stream parse_frame (ibuffer i @ take len arr) = (fs, r)" by (cases "stream parse_frame (ibuffer i @ take len arr)")
  with assms have i': "i' = i\<lparr>ibuffer := (case r of None \<Rightarrow> [] | Some b \<Rightarrow> b)\<rparr>"
    by (simp add: handle_buffer_stream)
  show "ilink i' = ilink i" by (simp add: i')
  show "interp_inv i'"
    using st wire.stream_rest_incomplete wire.stream_rest_incomplete[OF stream_Nil]
    by (auto simp: i' interp_inv_def split: option.split)
qed

lemma read_blocks_stream:
  assumes "interp_inv i" and "\<forall>bl \<in> set blocks. block_ok bl"
  shows "\<exists>b. read_blocks dispatch i blocks s =
    (case stream parse_frame (ibuffer i @ block_bytes blocks) of
       (fs, r) \<Rightarrow> Some (r \<noteq> None, i\<lparr>ibuffer := (case r of None \<Rightarrow> b | Some r \<Rightarrow> r)\<rparr>,
         fold (\<lambda>(t, p). dispatch t p (ilink i)) fs s))"
  using assms
proof (induction blocks arbitrary: i s)
  case Nil
  then show ?case
    by (simp add: block_bytes_def wire.stream_Incomplete interp_inv_def)
next
  case (Cons bl blocks)
  obtain arr len where bl: "bl = (arr, len)" by (cases bl)
  let ?b = "ibuffer i @ take len arr"
  obtain fs r where st: "stream parse_frame ?b = (fs, r)" by (cases "stream parse_frame ?b")
  have ok: "block_ok (arr, len)" using Cons.prems bl by simp
  note hb = handle_buffer_stream[OF Cons.prems(1) ok, of dispatch s, unfolded st]
  have bytes: "ibuffer i @ block_bytes (bl # blocks) = ?b @ block_bytes blocks"
    by (simp add: block_bytes_def bl)
  show ?case
  proof (cases r)
    case None
    have "stream parse_frame (?b @ block_bytes blocks) = (fs, None)"
      using wire.stream_append[of ?b "block_bytes blocks"] st None by simp
    with hb bl bytes None show ?thesis by auto
  next
    case (Some rest)
    let ?i = "i\<lparr>ibuffer := rest\<rparr>" and ?s = "fold (\<lambda>(t, p). dispatch t p (ilink i)) fs s"
    have "interp_inv ?i" using wire.stream_rest_incomplete st Some by (simp add: interp_inv_def)
    from Cons.IH[OF this, of ?s] Cons.prems obtain b where
      "read_blocks dispatch ?i blocks ?s =
        (case stream parse_frame (rest @ block_bytes blocks) of
           (fs, r) \<Rightarrow> Some (r \<noteq> None, ?i\<lparr>ibuffer := (case r of None \<Rightarrow> b | Some r \<Rightarrow> r)\<rparr>,
             fold (\<lambda>(t, p). dispatch t p (ilink i)) fs ?s))"
      by auto
    moreover have "stream parse_frame (?b @ block_bytes blocks) =
        (fs @ fst (stream parse_frame (rest @ block_bytes blocks)),
         snd (stream parse_frame (rest @ block_bytes blocks)))"
      using wire.stream_append[of ?b "block_bytes blocks"] st Some by simp
    ultimately show ?thesis
      using hb bl bytes Some by (intro exI[of _ b]) (simp split: prod.splits)
  qed
qed

lemma fold_log: "fold (\<lambda>(t, p). (\<lambda>log. log @ [(t, p, l)])) fs log = log @ map (\<lambda>(t, p). (t, p, l)) fs"
  by (induction fs arbitrary: log) auto

subsection \<open>Properties\<close>

text \<open>C7. Reassembly: however the network cuts the bytes of a sequence of messages into
  reads of at most 128 bytes, the interpreter dispatches exactly these messages, in order,
  each once and with the attached link, reports success and has nothing left buffered.\<close>

theorem messages_reassembled:
  assumes "\<forall>(t, p) \<in> set ms. length p \<le> kMaxPayloadSize"
    and "\<forall>bl \<in> set blocks. block_ok bl"
    and "block_bytes blocks = concat (map (\<lambda>(t, p). frame t p) ms)"
  shows "read_blocks (\<lambda>t p l log. log @ [(t, p, l)]) \<lparr>ilink = l, ibuffer = []\<rparr> blocks [] =
    Some (True, \<lparr>ilink = l, ibuffer = []\<rparr>, map (\<lambda>(t, p). (t, p, l)) ms)"
  using read_blocks_stream[OF interp_inv_empty assms(2), of "\<lambda>t p l log. log @ [(t, p, l)]" l "[]"]
    stream_frames[OF assms(1), of "[]"] assms(3)
  by (simp add: stream_Nil fold_log)

theorem messages_reassembled_witness:
  "read_blocks (\<lambda>t p l log. log @ [(t, p, l)]) \<lparr>ilink = Some (), ibuffer = []\<rparr>
     [(take 5 (frame 2 [7, 8]) @ replicate 123 0, 5), (drop 5 (frame 2 [7, 8]) @ frame 0 [] @ replicate 107 0, 21)] [] =
   Some (True, \<lparr>ilink = Some (), ibuffer = []\<rparr>, [(2, [7, 8], Some ()), (0, [], Some ())])"
  by (rule messages_reassembled[where ms = "[(2, [7, 8]), (0, [])]", simplified])
    (simp_all add: block_ok_def block_bytes_def length_frame frame_consts)

text \<open>C33. A length field above the limit is rejected: the messages before it are dispatched,
  then \<open>handle_buffer\<close> returns false and nothing of the offending or any later message
  is ever dispatched, whatever bytes follow.\<close>

theorem oversized_rejected:
  assumes "\<forall>(t, p) \<in> set ms. length p \<le> kMaxPayloadSize"
    and "\<forall>bl \<in> set blocks. block_ok bl"
    and "block_bytes blocks = concat (map (\<lambda>(t, p). frame t p) ms) @ mset_be [] (len :: 64 word) @ rest"
    and "kMaxPayloadSize < unat len"
  shows "\<exists>i. read_blocks (\<lambda>t p l log. log @ [(t, p, l)]) \<lparr>ilink = l, ibuffer = []\<rparr> blocks [] =
    Some (False, i, map (\<lambda>(t, p). (t, p, l)) ms)"
proof -
  have "mget_be (mset_be [] len @ rest) 0 = Some len"
    using mget_mset_be[where pre = "[]" and v = len and post = rest] by simp
  then have "parse_frame (mset_be [] len @ rest) = Invalid"
    using assms(4) by (auto simp: parse_frame_status destruct_invalid_iff)
  then have "stream parse_frame (block_bytes blocks) = (ms, None)"
    using stream_frames[OF assms(1)] assms(3) by (simp add: wire.stream_Invalid)
  then show ?thesis
    using read_blocks_stream[OF interp_inv_empty assms(2), of "\<lambda>t p l log. log @ [(t, p, l)]" l "[]"]
    by (auto simp: fold_log)
qed

theorem oversized_rejected_witness:
  "\<exists>i. read_blocks (\<lambda>t p l log. log @ [(t, p, l)]) \<lparr>ilink = None :: unit option, ibuffer = []\<rparr>
     [(frame 4 [1] @ mset_be [] (70000 :: 64 word) @ replicate 107 0, 24)] [] =
   Some (False, i, [(4, [1], None)])"
  by (rule oversized_rejected[where ms = "[(4, [1])]" and len = 70000 and rest = "[0, 0, 0]", simplified])
    (simp_all add: block_ok_def block_bytes_def length_frame length_mset_be frame_consts
      numeral_3_eq_3)

text \<open>C34. Memory bound and definedness: no sequence of reads makes the interpreter index
  outside its buffer (in particular the narrowing of \<open>size_t\<close> to \<open>int\<close> in
  \<open>retrieve_v\<close> is harmless), and between reads it holds less than one maximal frame.\<close>

theorem interpreter_bounded:
  assumes "\<forall>bl \<in> set blocks. block_ok bl"
  shows "\<exists>ok i' s'. read_blocks dispatch \<lparr>ilink = l, ibuffer = []\<rparr> blocks s = Some (ok, i', s') \<and>
    length (ibuffer i') < kHeaderSize + kMaxPayloadSize"
proof -
  have "interp_inv i \<Longrightarrow> \<exists>ok i' s'. read_blocks dispatch i blocks s = Some (ok, i', s') \<and> interp_inv i'"
    for i :: "'a interpreter"
    using assms
  proof (induction blocks arbitrary: i s)
    case (Cons bl blocks)
    obtain arr len where bl: "bl = (arr, len)" by (cases bl)
    obtain ok i' s' where hb: "handle_buffer dispatch i arr len s = Some (ok, i', s')"
      using handle_buffer_stream[of i arr len dispatch s] Cons.prems bl by (auto split: prod.splits)
    moreover have "interp_inv i'" using handle_buffer_inv(1)[OF _ _ hb] Cons.prems bl by simp
    ultimately show ?case using Cons bl by auto
  qed auto
  then show ?thesis using interp_inv_bound interp_inv_empty by metis
qed

theorem interpreter_bounded_witness:
  "\<exists>ok i' s'. read_blocks (\<lambda>t p l n. n + (1 :: nat)) \<lparr>ilink = None :: unit option, ibuffer = []\<rparr>
     [(replicate 128 0, 128)] 0 = Some (ok, i', s') \<and> length (ibuffer i') < kHeaderSize + kMaxPayloadSize"
  by (rule interpreter_bounded) (simp add: block_ok_def)

end
