(* ===== verification/Tcp_Connection.thy ===== *)
theory Tcp_Connection
  imports Conn_Interpreter "HOL-Library.Sublist"
begin

text \<open>
  One client connection (\<open>server/tcp_connection.hpp\<close>). Everything below \<open>send\<close>,
  \<open>stop\<close> and \<open>start\<close> runs on the connection's strand, so the state is one record and the
  strand is a queue of tasks. What the connection asks of the socket is recorded in \<open>io\<close>;
  the socket's answers (completions, error codes) are events. \<open>outstanding\<close> are the
  writes whose completion handler has not run, and \<open>c_undefined\<close> is set where the code
  would use the front of an empty queue or leave its buffer.
\<close>

datatype conn_task = StartImpl nat | ActiveStopImpl bool | SendImpl raw_buffer size_t | StopImpl

datatype io_call = AsyncRead | AsyncWrite raw_buffer | ShutdownSend | SocketClose | OnClosed

record 'l tcp_connection =
  c_strand :: "conn_task list"
  c_open :: bool
  c_interpreter :: "'l interpreter"
  c_link :: "'l option"
  c_write_queue :: "(raw_buffer \<times> size_t) list"
  c_on_closed :: bool
  c_max_pending :: size_t
  c_pending :: size_t
  c_overflowed :: bool
  c_graceful :: bool
  c_sent_shutdown :: bool
  c_closed :: bool
  c_outstanding :: "raw_buffer list"
  c_reads :: nat
  c_io :: "io_call list"
  c_undefined :: bool
  c_accepted :: "raw_buffer list"

definition kBufBytes :: nat where "kBufBytes = 128"
definition kMaxPendingSendBytes :: size_t where "kMaxPendingSendBytes = 1024 * 1024"

text \<open>\<open>create\<close>, with a socket that has been accepted.\<close>

definition tcp_create :: "size_t \<Rightarrow> 'l tcp_connection" where
  "tcp_create max_pending =
     \<lparr>c_strand = [], c_open = True, c_interpreter = \<lparr>ilink = None, ibuffer = []\<rparr>, c_link = None,
      c_write_queue = [], c_on_closed = True, c_max_pending = max_pending, c_pending = 0,
      c_overflowed = False, c_graceful = False, c_sent_shutdown = False, c_closed = False,
      c_outstanding = [], c_reads = 0, c_io = [], c_undefined = False, c_accepted = []\<rparr>"

definition c_post :: "conn_task \<Rightarrow> 'l tcp_connection \<Rightarrow> 'l tcp_connection" where
  "c_post t c = c\<lparr>c_strand := c_strand c @ [t]\<rparr>"

definition c_log :: "io_call \<Rightarrow> 'l tcp_connection \<Rightarrow> 'l tcp_connection" where
  "c_log e c = c\<lparr>c_io := c_io c @ [e]\<rparr>"

subsection \<open>Reservation of send bytes\<close>

text \<open>\<open>reserve_send_bytes\<close> run alone: the compare-exchange takes the value just loaded. Its
  interleavings are treated in the theory of reservations.\<close>

definition reserve_send_bytes :: "size_t \<Rightarrow> 'l tcp_connection \<Rightarrow> bool \<times> 'l tcp_connection" where
  "reserve_send_bytes sz c =
     (if c_overflowed c then (False, c)
      else if sz \<le> c_max_pending c \<and> c_pending c \<le> c_max_pending c - sz
      then (True, c\<lparr>c_pending := c_pending c + sz\<rparr>)
      else (False, c))"

definition release_send_bytes :: "size_t \<Rightarrow> 'l tcp_connection \<Rightarrow> 'l tcp_connection" where
  "release_send_bytes sz c = c\<lparr>c_pending := c_pending c - sz\<rparr>"

subsection \<open>Closing\<close>

definition finish_close :: "'l tcp_connection \<Rightarrow> 'l tcp_connection" where
  "finish_close c =
     (if c_closed c then c
      else
        (let c = c\<lparr>c_closed := True\<rparr>;
             c = (if c_open c then c_log SocketClose (c\<lparr>c_open := False\<rparr>) else c);
             c = fold (\<lambda>w. release_send_bytes (snd w)) (c_write_queue c) c;
             c = c\<lparr>c_write_queue := []\<rparr>;
             on_closed = c_on_closed c;
             c = c\<lparr>c_on_closed := False\<rparr>
         in if on_closed then c_log OnClosed c else c))"

text \<open>\<open>ec\<close> tells whether the socket's \<open>shutdown\<close> failed.\<close>

definition shutdown_send_impl :: "bool \<Rightarrow> 'l tcp_connection \<Rightarrow> 'l tcp_connection" where
  "shutdown_send_impl ec c =
     (let c = (c_log ShutdownSend c)\<lparr>c_sent_shutdown := True\<rparr>
      in if ec then finish_close c else c)"

definition active_stop_impl :: "bool \<Rightarrow> bool \<Rightarrow> 'l tcp_connection \<Rightarrow> 'l tcp_connection" where
  "active_stop_impl ec force c =
     (if c_closed c \<or> (\<not> force \<and> c_graceful c) then c
      else if \<not> c_open c \<or> force then finish_close c
      else
        (let c = c\<lparr>c_graceful := True\<rparr>
         in if c_write_queue c \<noteq> [] then c else shutdown_send_impl ec c))"

definition stop_impl :: "'l tcp_connection \<Rightarrow> 'l tcp_connection" where
  "stop_impl c = finish_close c"

text \<open>
  \<open>stop(bool)\<close>: a forced stop is dispatched, so it runs at once on the strand and is
  queued from elsewhere; a graceful one is always queued. \<open>stop(error_code)\<close> is called on
  the strand only.
\<close>

definition conn_stop :: "bool \<Rightarrow> bool \<Rightarrow> bool \<Rightarrow> 'l tcp_connection \<Rightarrow> 'l tcp_connection" where
  "conn_stop on_strand ec force c =
     (if force \<and> on_strand then active_stop_impl ec True c else c_post (ActiveStopImpl force) c)"

definition conn_stop_error :: "'l tcp_connection \<Rightarrow> 'l tcp_connection" where
  "conn_stop_error c = stop_impl c"

subsection \<open>Sending\<close>

definition write_next :: "'l tcp_connection \<Rightarrow> 'l tcp_connection" where
  "write_next c =
     (case c_write_queue c of
        [] \<Rightarrow> c\<lparr>c_undefined := True\<rparr>
      | (buffer, _) # _ \<Rightarrow>
          c_log (AsyncWrite buffer) (c\<lparr>c_outstanding := c_outstanding c @ [buffer]\<rparr>))"

definition send_impl :: "raw_buffer \<Rightarrow> size_t \<Rightarrow> 'l tcp_connection \<Rightarrow> 'l tcp_connection" where
  "send_impl buffer reserved c =
     (if c_closed c \<or> c_graceful c \<or> c_overflowed c \<or> \<not> c_open c
      then release_send_bytes reserved c
      else
        (let write_in_progress = (c_write_queue c \<noteq> []);
             c = c\<lparr>c_write_queue := c_write_queue c @ [(buffer, reserved)]\<rparr>
         in if write_in_progress then c else write_next c))"

text \<open>\<open>send\<close>, from any thread. \<open>c_accepted\<close> lists the messages that got a reservation.\<close>

definition conn_send :: "bool \<Rightarrow> bool \<Rightarrow> raw_buffer \<Rightarrow> 'l tcp_connection \<Rightarrow> 'l tcp_connection" where
  "conn_send on_strand ec msg c =
     (let sz = of_nat (length msg) in
      case reserve_send_bytes sz c of
        (False, c) \<Rightarrow>
          if \<not> c_overflowed c then conn_stop on_strand ec True (c\<lparr>c_overflowed := True\<rparr>) else c
      | (True, c) \<Rightarrow> c_post (SendImpl msg sz) (c\<lparr>c_accepted := c_accepted c @ [msg]\<rparr>))"

datatype write_error = BrokenPipe | WriteFailed

definition handle_write :: "bool \<Rightarrow> write_error option \<Rightarrow> 'l tcp_connection \<Rightarrow> 'l tcp_connection" where
  "handle_write ec err c =
     (if c_closed c then c
      else
        (case err of
           Some BrokenPipe \<Rightarrow> finish_close c
         | Some WriteFailed \<Rightarrow> finish_close c
         | None \<Rightarrow>
             (case c_write_queue c of
                [] \<Rightarrow> c\<lparr>c_undefined := True\<rparr>
              | (_, reserved) # rest \<Rightarrow>
                  (let c = (release_send_bytes reserved c)\<lparr>c_write_queue := rest\<rparr>
                   in if rest \<noteq> [] then write_next c
                      else if c_graceful c then shutdown_send_impl ec c
                      else c))))"

subsection \<open>Reading\<close>

definition start_impl :: "nat \<Rightarrow> 'l tcp_connection \<Rightarrow> 'l tcp_connection" where
  "start_impl len c =
     (if \<not> c_open c then c else c_log AsyncRead (c\<lparr>c_reads := Suc (c_reads c)\<rparr>))"

definition conn_start :: "nat \<Rightarrow> 'l tcp_connection \<Rightarrow> 'l tcp_connection" where
  "conn_start len c = c_post (StartImpl len) c"

definition conn_attach_link :: "'l \<Rightarrow> 'l tcp_connection \<Rightarrow> 'l tcp_connection" where
  "conn_attach_link l c =
     c\<lparr>c_link := Some l, c_interpreter := attach_link (Some l) (c_interpreter c)\<rparr>"

definition conn_detach_link :: "'l tcp_connection \<Rightarrow> 'l tcp_connection" where
  "conn_detach_link c = c\<lparr>c_link := None\<rparr>"

text \<open>What the message handlers do to the connection while it dispatches to them.\<close>

datatype conn_call = CallSend raw_buffer | CallStop bool

fun apply_call :: "bool \<Rightarrow> bool \<Rightarrow> conn_call \<Rightarrow> 'l tcp_connection \<Rightarrow> 'l tcp_connection" where
  "apply_call on_strand ec (CallSend msg) c = conn_send on_strand ec msg c"
| "apply_call on_strand ec (CallStop force) c = conn_stop on_strand ec force c"

datatype read_result = ReadEof | ReadAborted | ReadError | ReadOk raw_buffer nat

text \<open>\<open>react type payload link\<close> are the calls the dispatched handler makes.\<close>

fun handle_read ::
  "(MessageType \<Rightarrow> raw_buffer \<Rightarrow> 'l option \<Rightarrow> conn_call list) \<Rightarrow> bool \<Rightarrow> read_result
     \<Rightarrow> 'l tcp_connection \<Rightarrow> 'l tcp_connection" where
  "handle_read react ec ReadEof c = conn_stop_error c"
| "handle_read react ec ReadAborted c = (if \<not> c_closed c then finish_close c else c)"
| "handle_read react ec ReadError c = conn_stop_error c"
| "handle_read react ec (ReadOk arr bytes) c =
     (case handle_buffer (\<lambda>t p l. fold (apply_call True ec) (react t p l)) (c_interpreter c) arr bytes c of
        None \<Rightarrow> c\<lparr>c_undefined := True\<rparr>
      | Some (ok, i, c) \<Rightarrow>
          (let c = c\<lparr>c_interpreter := i\<rparr>
           in if \<not> ok then conn_stop True ec True c else conn_start kBufBytes c))"

fun run_conn_task :: "bool \<Rightarrow> conn_task \<Rightarrow> 'l tcp_connection \<Rightarrow> 'l tcp_connection" where
  "run_conn_task ec (StartImpl len) c = start_impl len c"
| "run_conn_task ec (ActiveStopImpl force) c = active_stop_impl ec force c"
| "run_conn_task ec (SendImpl buffer reserved) c = send_impl buffer reserved c"
| "run_conn_task ec StopImpl c = stop_impl c"

subsection \<open>Runs\<close>

text \<open>
  Calls from other threads, the strand taking its next task, and completions of
  outstanding operations. The flag of an event is the error code a \<open>shutdown\<close> in it
  would give.
\<close>

datatype 'l conn_event =
    Call conn_call
  | CallStart nat
  | Attach 'l
  | Detach
  | RunTask bool
  | WriteDone bool "write_error option"
  | ReadDone bool read_result

text \<open>A read fills at most the array it was given.\<close>

fun read_fits :: "read_result \<Rightarrow> bool" where
  "read_fits (ReadOk arr bytes) \<longleftrightarrow> length arr = kBufBytes \<and> bytes \<le> kBufBytes"
| "read_fits _ \<longleftrightarrow> True"

fun conn_step ::
  "(MessageType \<Rightarrow> raw_buffer \<Rightarrow> 'l option \<Rightarrow> conn_call list) \<Rightarrow> 'l tcp_connection \<Rightarrow> 'l conn_event
     \<Rightarrow> 'l tcp_connection" where
  "conn_step react c (Call k) = apply_call False False k c"
| "conn_step react c (CallStart len) = conn_start len c"
| "conn_step react c (Attach l) = conn_attach_link l c"
| "conn_step react c Detach = conn_detach_link c"
| "conn_step react c (RunTask ec) =
     (case c_strand c of [] \<Rightarrow> c | t # ts \<Rightarrow> run_conn_task ec t (c\<lparr>c_strand := ts\<rparr>))"
| "conn_step react c (WriteDone ec err) =
     (case c_outstanding c of [] \<Rightarrow> c | _ # os \<Rightarrow> handle_write ec err (c\<lparr>c_outstanding := os\<rparr>))"
| "conn_step react c (ReadDone ec res) =
     (if c_reads c = 0 \<or> \<not> read_fits res then c else handle_read react ec res (c\<lparr>c_reads := c_reads c - 1\<rparr>))"

subsection \<open>Invariant\<close>

fun task_bytes :: "conn_task \<Rightarrow> nat" where
  "task_bytes (SendImpl _ n) = unat n"
| "task_bytes _ = 0"

fun task_buffers :: "conn_task \<Rightarrow> raw_buffer list" where
  "task_buffers (SendImpl b _) = [b]"
| "task_buffers _ = []"

text \<open>The bytes that are reserved: queued to the socket or on their way to the strand.\<close>

definition load :: "'l tcp_connection \<Rightarrow> nat" where
  "load c = sum_list (map (unat \<circ> snd) (c_write_queue c)) + sum_list (map task_bytes (c_strand c))"

definition bytes_inv :: "'l tcp_connection \<Rightarrow> bool" where
  "bytes_inv c \<longleftrightarrow> c_pending c = of_nat (load c) \<and> load c \<le> unat (c_max_pending c)"

fun written :: "io_call list \<Rightarrow> raw_buffer list" where
  "written [] = []"
| "written (AsyncWrite b # xs) = b # written xs"
| "written (_ # xs) = written xs"

lemma written_append [simp]: "written (xs @ ys) = written xs @ written ys"
  by (induction xs rule: written.induct) simp_all

text \<open>Nothing is written after the sending side was shut down or the socket was closed.\<close>

fun write_order :: "io_call list \<Rightarrow> bool" where
  "write_order [] \<longleftrightarrow> True"
| "write_order (e # xs) \<longleftrightarrow> (if e = ShutdownSend \<or> e = SocketClose then written xs = [] else write_order xs)"

lemma write_order_append [simp]:
  "write_order (xs @ ys) \<longleftrightarrow>
     write_order xs \<and> (if ShutdownSend \<in> set xs \<or> SocketClose \<in> set xs then written ys = [] else write_order ys)"
  by (induction xs) auto

text \<open>One write at a time, and it is the front of the queue; closing happens once.\<close>

definition queue_inv :: "'l tcp_connection \<Rightarrow> bool" where
  "queue_inv c \<longleftrightarrow>
     \<not> c_undefined c \<and> interp_inv (c_interpreter c) \<and>
     (c_open c \<longleftrightarrow> \<not> c_closed c) \<and> (c_on_closed c \<longleftrightarrow> \<not> c_closed c) \<and>
     (c_closed c \<longrightarrow> c_write_queue c = [] \<and> length (c_outstanding c) \<le> 1) \<and>
     (\<not> c_closed c \<longrightarrow> c_outstanding c = map fst (take 1 (c_write_queue c)))"

definition io_inv :: "'l tcp_connection \<Rightarrow> bool" where
  "io_inv c \<longleftrightarrow>
     count_list (c_io c) OnClosed = (if c_closed c then 1 else 0) \<and>
     count_list (c_io c) SocketClose = (if c_closed c then 1 else 0) \<and>
     count_list (c_io c) ShutdownSend = (if c_sent_shutdown c then 1 else 0) \<and>
     (c_closed c \<longrightarrow> c_sent_shutdown c \<longrightarrow> c_graceful c) \<and>
     (\<not> c_closed c \<longrightarrow> c_sent_shutdown c = (c_graceful c \<and> c_write_queue c = [])) \<and>
     write_order (c_io c)"

definition dead :: "'l tcp_connection \<Rightarrow> bool" where
  "dead c \<longleftrightarrow> c_closed c \<or> c_graceful c \<or> c_overflowed c \<or> \<not> c_open c"

definition fifo_inv :: "'l tcp_connection \<Rightarrow> bool" where
  "fifo_inv c \<longleftrightarrow>
     prefix (written (c_io c) @ map fst (tl (c_write_queue c))) (c_accepted c) \<and>
     (\<not> dead c \<longrightarrow> c_accepted c =
        written (c_io c) @ map fst (tl (c_write_queue c)) @ concat (map task_buffers (c_strand c)))"

definition tcp_inv :: "'l tcp_connection \<Rightarrow> bool" where
  "tcp_inv c \<longleftrightarrow> bytes_inv c \<and> queue_inv c \<and> io_inv c \<and> fifo_inv c"

lemma tcp_inv_create: "tcp_inv (tcp_create m)"
  by (simp add: tcp_inv_def bytes_inv_def queue_inv_def io_inv_def fifo_inv_def tcp_create_def load_def)

lemmas tcp_invs = tcp_inv_def bytes_inv_def queue_inv_def io_inv_def fifo_inv_def load_def dead_def

subsection \<open>Preservation\<close>

text \<open>Fields an operation may change without touching the invariant.\<close>

lemma tcp_inv_frame [simp]:
  "tcp_inv (c\<lparr>c_reads := n\<rparr>) = tcp_inv c" "tcp_inv (c\<lparr>c_link := l\<rparr>) = tcp_inv c"
  by (simp_all add: tcp_invs)

lemma tcp_inv_post:
  "tcp_inv c \<Longrightarrow> task_bytes t = 0 \<Longrightarrow> task_buffers t = [] \<Longrightarrow> tcp_inv (c_post t c)"
  by (simp add: tcp_invs c_post_def)

lemma tcp_inv_interpreter: "tcp_inv c \<Longrightarrow> interp_inv i \<Longrightarrow> tcp_inv (c\<lparr>c_interpreter := i\<rparr>)"
  by (simp add: tcp_invs)

lemma tcp_inv_overflow: "tcp_inv c \<Longrightarrow> tcp_inv (c\<lparr>c_overflowed := True\<rparr>)"
  by (auto simp: tcp_invs)

lemma fold_release:
  "fold (\<lambda>w. release_send_bytes (snd w)) ws c = c\<lparr>c_pending := c_pending c - sum_list (map snd ws)\<rparr>"
  by (induction ws arbitrary: c) (simp_all add: release_send_bytes_def)

lemma of_nat_sum_unat: "of_nat (sum_list (map (unat \<circ> snd) ws)) = (sum_list (map snd ws) :: 64 word)"
  by (induction ws) simp_all

lemma finish_close_eq:
  assumes "tcp_inv c" and "\<not> c_closed c"
  shows "finish_close c = c\<lparr>c_closed := True, c_open := False,
      c_pending := c_pending c - sum_list (map snd (c_write_queue c)), c_write_queue := [],
      c_on_closed := False, c_io := c_io c @ [SocketClose, OnClosed]\<rparr>"
  using assms by (simp add: finish_close_def Let_def fold_release c_log_def tcp_inv_def queue_inv_def)

lemma tcp_inv_finish_close:
  assumes "tcp_inv c"
  shows "tcp_inv (finish_close c)"
proof (cases "c_closed c")
  case False
  note eq = finish_close_eq[OF assms False]
  have "bytes_inv (finish_close c)"
    using assms unfolding eq by (simp add: tcp_inv_def bytes_inv_def load_def of_nat_sum_unat)
  moreover have "queue_inv (finish_close c)"
    using assms False unfolding eq by (auto simp: tcp_inv_def queue_inv_def)
  moreover have "io_inv (finish_close c)"
  proof -
    have "io_inv c" using assms by (simp add: tcp_inv_def)
    then show ?thesis using False unfolding eq io_inv_def by auto
  qed
  moreover have "fifo_inv (finish_close c)"
    using assms unfolding eq
    by (auto simp: tcp_inv_def fifo_inv_def dead_def dest: append_prefixD)
  ultimately show ?thesis by (simp add: tcp_inv_def)
qed (simp add: finish_close_def assms)

lemma tcp_inv_shutdown:
  assumes "tcp_inv c" and "\<not> c_closed c" and "c_write_queue c = []" and "\<not> c_graceful c"
  shows "tcp_inv (c\<lparr>c_graceful := True, c_io := c_io c @ [ShutdownSend], c_sent_shutdown := True\<rparr>)"
  using assms by (simp add: tcp_invs)

lemma tcp_inv_active_stop:
  assumes "tcp_inv c"
  shows "tcp_inv (active_stop_impl ec force c)"
proof (cases "c_closed c \<or> force \<or> c_graceful c")
  case True
  then show ?thesis using assms tcp_inv_finish_close[OF assms] by (auto simp: active_stop_impl_def tcp_inv_def queue_inv_def)
next
  case False
  then have o: "c_open c" using assms by (simp add: tcp_inv_def queue_inv_def)
  show ?thesis
  proof (cases "c_write_queue c")
    case Nil
    have sd: "tcp_inv (c\<lparr>c_graceful := True, c_io := c_io c @ [ShutdownSend], c_sent_shutdown := True\<rparr>)"
      using assms False Nil by (intro tcp_inv_shutdown) simp_all
    from tcp_inv_finish_close[OF sd] sd show ?thesis using False o Nil
      by (simp add: active_stop_impl_def shutdown_send_impl_def c_log_def Let_def)
  next
    case (Cons w ws)
    then have "tcp_inv (c\<lparr>c_graceful := True\<rparr>)" using assms False by (simp add: tcp_invs)
    then show ?thesis using False o Cons by (simp add: active_stop_impl_def)
  qed
qed

lemma tcp_inv_stop: "tcp_inv c \<Longrightarrow> tcp_inv (conn_stop on_strand ec force c)"
  by (simp add: conn_stop_def tcp_inv_active_stop tcp_inv_post)

lemma reserve_ok:
  assumes "bytes_inv c" and "sz \<le> c_max_pending c" and "c_pending c \<le> c_max_pending c - sz"
  shows "load c + unat sz \<le> unat (c_max_pending c)"
proof -
  have "unat (c_max_pending c) < 2 ^ LENGTH(64)" by (rule unsigned_less)
  then have "load c < 2 ^ LENGTH(64)" using assms(1) unfolding bytes_inv_def by linarith
  then have "unat (c_pending c) = load c" using assms(1) by (simp add: bytes_inv_def unat_of_nat)
  then show ?thesis using assms(2,3) by (simp add: word_le_nat_alt unat_sub)
qed

lemma tcp_inv_send:
  assumes "tcp_inv c"
  shows "tcp_inv (conn_send on_strand ec msg c)"
proof (cases "fst (reserve_send_bytes (of_nat (length msg)) c)")
  case False
  then have "snd (reserve_send_bytes (of_nat (length msg)) c) = c"
    by (auto simp: reserve_send_bytes_def split: if_splits)
  then have "reserve_send_bytes (of_nat (length msg)) c = (False, c)" using False by (metis prod.collapse)
  then show ?thesis using assms by (simp add: conn_send_def Let_def tcp_inv_stop tcp_inv_overflow)
next
  case True
  let ?n = "of_nat (length msg) :: size_t"
  have r: "reserve_send_bytes ?n c = (True, c\<lparr>c_pending := c_pending c + ?n\<rparr>)"
    and room: "load c + unat ?n \<le> unat (c_max_pending c)"
    using True assms reserve_ok[of c ?n] by (auto simp: reserve_send_bytes_def tcp_inv_def split: if_splits)
  have eq: "conn_send on_strand ec msg c = c\<lparr>c_pending := c_pending c + ?n, c_accepted := c_accepted c @ [msg],
      c_strand := c_strand c @ [SendImpl msg ?n]\<rparr>"
    by (simp add: conn_send_def r c_post_def Let_def)
  have "bytes_inv (conn_send on_strand ec msg c)"
    using assms room unfolding eq by (simp add: tcp_inv_def bytes_inv_def load_def)
  then show ?thesis using assms unfolding eq
    by (simp add: tcp_inv_def queue_inv_def io_inv_def fifo_inv_def dead_def)
qed

lemma tcp_inv_send_impl:
  assumes "tcp_inv c" and "c_strand c = SendImpl b n # ts"
  shows "tcp_inv (send_impl b n (c\<lparr>c_strand := ts\<rparr>))"
proof (cases "dead c")
  case True
  then have "send_impl b n (c\<lparr>c_strand := ts\<rparr>) = c\<lparr>c_strand := ts, c_pending := c_pending c - n\<rparr>"
    by (auto simp: send_impl_def dead_def release_send_bytes_def)
  then show ?thesis using assms True by (simp add: tcp_invs)
next
  case False
  note live = False[unfolded dead_def]
  show ?thesis
  proof (cases "c_write_queue c")
    case Nil
    have "send_impl b n (c\<lparr>c_strand := ts\<rparr>) = c\<lparr>c_strand := ts, c_write_queue := [(b, n)],
        c_outstanding := c_outstanding c @ [b], c_io := c_io c @ [AsyncWrite b]\<rparr>"
      using live Nil by (simp add: send_impl_def write_next_def c_log_def)
    moreover have "ShutdownSend \<notin> set (c_io c)" "SocketClose \<notin> set (c_io c)"
      using assms(1) live by (auto simp: tcp_inv_def io_inv_def count_list_0_iff)
    ultimately show ?thesis using assms live Nil by (simp add: tcp_invs)
  next
    case (Cons w ws)
    have "send_impl b n (c\<lparr>c_strand := ts\<rparr>) = c\<lparr>c_strand := ts, c_write_queue := c_write_queue c @ [(b, n)]\<rparr>"
      using live Cons by (simp add: send_impl_def)
    then show ?thesis using assms live Cons by (simp add: tcp_invs)
  qed
qed

lemma finish_close_outstanding: "finish_close (c\<lparr>c_outstanding := os\<rparr>) = (finish_close c)\<lparr>c_outstanding := os\<rparr>"
  by (simp add: finish_close_def Let_def fold_release c_log_def)

lemma finish_close_closed [simp]: "c_closed (finish_close c)"
  by (simp add: finish_close_def Let_def fold_release c_log_def)

lemma tcp_inv_outstanding: "tcp_inv c \<Longrightarrow> c_closed c \<Longrightarrow> length os \<le> 1 \<Longrightarrow> tcp_inv (c\<lparr>c_outstanding := os\<rparr>)"
  by (auto simp: tcp_invs)

text \<open>The completion of a write while the connection is open.\<close>

lemma tcp_inv_written:
  assumes "tcp_inv c" and "\<not> c_closed c" and "c_write_queue c = (b, n) # rest"
  shows "tcp_inv (handle_write ec None (c\<lparr>c_outstanding := []\<rparr>))"
proof (cases rest)
  case Nil
  show ?thesis
  proof (cases "c_graceful c")
    case True
    let ?c = "c\<lparr>c_outstanding := [], c_pending := c_pending c - n, c_write_queue := [],
        c_io := c_io c @ [ShutdownSend], c_sent_shutdown := True\<rparr>"
    have inv: "tcp_inv ?c" using assms Nil True by (simp add: tcp_invs)
    have "handle_write ec None (c\<lparr>c_outstanding := []\<rparr>) = (if ec then finish_close ?c else ?c)"
      using assms Nil True by (simp add: handle_write_def release_send_bytes_def shutdown_send_impl_def c_log_def Let_def)
    then show ?thesis using inv tcp_inv_finish_close[OF inv] by simp
  next
    case False
    have "handle_write ec None (c\<lparr>c_outstanding := []\<rparr>) =
        c\<lparr>c_outstanding := [], c_pending := c_pending c - n, c_write_queue := []\<rparr>"
      using assms Nil False by (simp add: handle_write_def release_send_bytes_def Let_def)
    then show ?thesis using assms Nil False by (simp add: tcp_invs)
  qed
next
  case (Cons w ws)
  obtain b' n' where w: "w = (b', n')" by (cases w)
  have "handle_write ec None (c\<lparr>c_outstanding := []\<rparr>) =
      c\<lparr>c_outstanding := [b'], c_pending := c_pending c - n, c_write_queue := rest, c_io := c_io c @ [AsyncWrite b']\<rparr>"
    using assms Cons w by (simp add: handle_write_def release_send_bytes_def write_next_def c_log_def Let_def)
  moreover have "ShutdownSend \<notin> set (c_io c)" "SocketClose \<notin> set (c_io c)"
    using assms by (auto simp: tcp_inv_def io_inv_def count_list_0_iff)
  ultimately show ?thesis using assms Cons w by (simp add: tcp_invs)
qed

lemma tcp_inv_write_done:
  assumes "tcp_inv c"
  shows "tcp_inv (conn_step react c (WriteDone ec err))"
proof (cases "c_outstanding c")
  case (Cons o1 os)
  show ?thesis
  proof (cases "c_closed c")
    case True
    then have "os = []" using assms Cons by (simp add: tcp_inv_def queue_inv_def)
    then show ?thesis using assms True Cons by (simp add: handle_write_def tcp_inv_outstanding)
  next
    case False
    then have "c_outstanding c = map fst (take 1 (c_write_queue c))" using assms by (simp add: tcp_inv_def queue_inv_def)
    then obtain b n rest where q: "c_write_queue c = (b, n) # rest" and os: "os = []"
      using Cons by (cases "c_write_queue c") auto
    show ?thesis
    proof (cases err)
      case None
      then show ?thesis using tcp_inv_written[OF assms False q] Cons os by simp
    next
      case (Some e)
      have "tcp_inv ((finish_close c)\<lparr>c_outstanding := []\<rparr>)"
        by (rule tcp_inv_outstanding[OF tcp_inv_finish_close[OF assms]]) simp_all
      then show ?thesis using Some Cons os False
        by (cases e) (simp_all add: handle_write_def finish_close_outstanding)
    qed
  qed
qed (simp add: assms)

lemma tcp_inv_call: "tcp_inv c \<Longrightarrow> tcp_inv (apply_call on_strand ec k c)"
  by (cases k) (simp_all add: tcp_inv_send tcp_inv_stop)

lemma tcp_inv_fold: "(\<And>x c. tcp_inv c \<Longrightarrow> tcp_inv (f x c)) \<Longrightarrow> tcp_inv c \<Longrightarrow> tcp_inv (fold f xs c)"
  by (induction xs arbitrary: c) simp_all

lemma tcp_inv_read:
  assumes "tcp_inv c" and "read_fits res"
  shows "tcp_inv (handle_read react ec res c)"
proof (cases res)
  case (ReadOk arr n)
  let ?d = "\<lambda>t p l. fold (apply_call True ec) (react t p l)"
  have i: "interp_inv (c_interpreter c)" using assms(1) by (simp add: tcp_inv_def queue_inv_def)
  have ok: "block_ok (arr, n)" using assms(2) ReadOk by (simp add: block_ok_def kBufBytes_def)
  obtain fs r where st: "stream parse_frame (ibuffer (c_interpreter c) @ take n arr) = (fs, r)"
    by (cases "stream parse_frame (ibuffer (c_interpreter c) @ take n arr)")
  then have hb: "handle_buffer ?d (c_interpreter c) arr n c =
      Some (r \<noteq> None, (c_interpreter c)\<lparr>ibuffer := (case r of None \<Rightarrow> [] | Some b \<Rightarrow> b)\<rparr>,
        fold (\<lambda>(t, p). ?d t p (ilink (c_interpreter c))) fs c)"
    using handle_buffer_stream[OF i ok] by simp
  from handle_buffer_inv(1)[OF i ok hb]
  have i': "interp_inv ((c_interpreter c)\<lparr>ibuffer := (case r of None \<Rightarrow> [] | Some b \<Rightarrow> b)\<rparr>)" .
  have "tcp_inv (fold (\<lambda>(t, p). ?d t p (ilink (c_interpreter c))) fs c)"
    by (rule tcp_inv_fold[OF _ assms(1)]) (auto intro: tcp_inv_fold tcp_inv_call)
  from tcp_inv_interpreter[OF this i'] show ?thesis
    using ReadOk hb by (cases r) (simp_all add: tcp_inv_stop conn_start_def tcp_inv_post Let_def)
qed (use assms in \<open>simp_all add: conn_stop_error_def stop_impl_def tcp_inv_finish_close\<close>)

lemma tcp_inv_pop:
  "tcp_inv c \<Longrightarrow> c_strand c = t # ts \<Longrightarrow> task_bytes t = 0 \<Longrightarrow> task_buffers t = [] \<Longrightarrow> tcp_inv (c\<lparr>c_strand := ts\<rparr>)"
  by (simp add: tcp_invs)

lemma tcp_inv_async_read: "tcp_inv c \<Longrightarrow> tcp_inv (c\<lparr>c_reads := n, c_io := c_io c @ [AsyncRead]\<rparr>)"
  by (cases "c_closed c") (auto simp: tcp_invs)

lemma tcp_inv_task:
  assumes "tcp_inv c" and "c_strand c = t # ts"
  shows "tcp_inv (run_conn_task ec t (c\<lparr>c_strand := ts\<rparr>))"
proof (cases t)
  case (StartImpl len)
  then have "tcp_inv (c\<lparr>c_strand := ts\<rparr>)" using assms by (simp add: tcp_inv_pop)
  then show ?thesis using StartImpl tcp_inv_async_read[of "c\<lparr>c_strand := ts\<rparr>"] by (simp add: start_impl_def c_log_def)
next
  case (ActiveStopImpl force)
  then show ?thesis using assms by (simp add: tcp_inv_pop tcp_inv_active_stop)
next
  case (SendImpl b n)
  then show ?thesis using assms by (simp add: tcp_inv_send_impl)
next
  case StopImpl
  then show ?thesis using assms by (simp add: tcp_inv_pop tcp_inv_finish_close stop_impl_def)
qed

lemma tcp_inv_step: "tcp_inv c \<Longrightarrow> tcp_inv (conn_step react c e)"
proof (cases e)
  case (Attach l)
  assume "tcp_inv c"
  then have "interp_inv (attach_link (Some l) (c_interpreter c))"
    by (simp add: attach_link_def interp_inv_def tcp_inv_def queue_inv_def)
  then have "tcp_inv (c\<lparr>c_link := Some l, c_interpreter := attach_link (Some l) (c_interpreter c)\<rparr>)"
    using \<open>tcp_inv c\<close> by (intro tcp_inv_interpreter) simp_all
  then show ?thesis using Attach by (simp add: conn_attach_link_def)
next
  case (RunTask ec)
  assume "tcp_inv c"
  then show ?thesis using RunTask tcp_inv_task by (cases "c_strand c") simp_all
next
  case (WriteDone ec err)
  assume "tcp_inv c"
  then show ?thesis using WriteDone tcp_inv_write_done by simp
qed (simp_all add: tcp_inv_call tcp_inv_post conn_start_def conn_detach_link_def tcp_inv_read)

interpretation conn: event_machine "tcp_create m" "conn_step react" tcp_inv
  by unfold_locales (simp_all add: tcp_inv_create tcp_inv_step del: conn_step.simps)

subsection \<open>The abstract outbox\<close>

text \<open>
  What a connection promises its senders: an outbox that takes messages and hands them to
  the socket in that order, none twice and none skipped. It may stop handing them over.
\<close>

record outbox =
  taken :: "raw_buffer list"
  handed :: "raw_buffer list"

inductive outbox_step :: "outbox \<Rightarrow> outbox \<Rightarrow> bool" where
  take_one: "outbox_step b (b\<lparr>taken := taken b @ [m]\<rparr>)"
| hand_one: "taken b = handed b @ m # rest \<Longrightarrow> outbox_step b (b\<lparr>handed := handed b @ [m]\<rparr>)"

inductive_cases outbox_stepE: "outbox_step a b"

definition outbox_of :: "'l tcp_connection \<Rightarrow> outbox" where
  "outbox_of c = \<lparr>taken = c_accepted c, handed = written (c_io c)\<rparr>"

lemma outbox_takes: "outbox_step\<^sup>*\<^sup>* b (b\<lparr>taken := taken b @ ms\<rparr>)"
proof (induction ms rule: rev_induct)
  case (snoc m ms)
  then show ?case using take_one[of "b\<lparr>taken := taken b @ ms\<rparr>" m] by (simp add: rtranclp.rtrancl_into_rtrancl)
qed simp

lemma outbox_hands:
  "taken b = handed b @ ms @ rest \<Longrightarrow> outbox_step\<^sup>*\<^sup>* b (b\<lparr>handed := handed b @ ms\<rparr>)"
proof (induction ms arbitrary: rest rule: rev_induct)
  case (snoc m ms)
  let ?b = "b\<lparr>handed := handed b @ ms\<rparr>"
  have "outbox_step ?b (?b\<lparr>handed := handed ?b @ [m]\<rparr>)"
    using snoc.prems by (intro hand_one[of _ m rest]) simp
  with snoc.IH[of "m # rest"] snoc.prems show ?case by (simp add: rtranclp.rtrancl_into_rtrancl)
qed simp

text \<open>Operations only append to what was accepted and to what was asked of the socket.\<close>

definition grows :: "'l tcp_connection \<Rightarrow> 'l tcp_connection \<Rightarrow> bool" where
  "grows c c' \<longleftrightarrow> prefix (c_accepted c) (c_accepted c') \<and> prefix (c_io c) (c_io c') \<and>
     c_max_pending c' = c_max_pending c"

lemma grows_refl [simp]: "grows c c"
  by (simp add: grows_def)

lemma grows_trans: "grows a b \<Longrightarrow> grows b c \<Longrightarrow> grows a c"
  by (auto simp: grows_def intro: prefix_order.trans)

lemma finish_close_fields [simp]:
  "c_accepted (finish_close c) = c_accepted c" "c_max_pending (finish_close c) = c_max_pending c"
  "prefix xs (c_io c) \<Longrightarrow> prefix xs (c_io (finish_close c))"
  by (simp_all add: finish_close_def Let_def fold_release c_log_def)

lemma grows_finish_close: "grows c (finish_close c)"
  by (simp add: grows_def)

lemma grows_active_stop: "grows c (active_stop_impl ec force c)"
  by (auto simp: active_stop_impl_def shutdown_send_impl_def c_log_def Let_def grows_def)

lemma grows_stop: "grows c (conn_stop on_strand ec force c)"
  by (simp add: conn_stop_def grows_active_stop) (simp add: grows_def c_post_def)

lemma grows_call: "grows c (apply_call on_strand ec k c)"
proof (cases k)
  case (CallSend m)
  have "grows c (c\<lparr>c_overflowed := True\<rparr>)" by (simp add: grows_def)
  from grows_trans[OF this grows_stop] show ?thesis using CallSend
    by (auto simp: conn_send_def reserve_send_bytes_def Let_def) (simp_all add: grows_def c_post_def)
qed (simp add: grows_stop)

lemma grows_fold: "(\<And>x c. grows c (f x c)) \<Longrightarrow> grows c (fold f xs c)"
proof (induction xs arbitrary: c)
  case (Cons x xs)
  then show ?case using grows_trans[of c "f x c"] by simp
qed simp

lemma grows_write: "grows c (handle_write ec err c)"
  by (simp add: grows_def handle_write_def shutdown_send_impl_def write_next_def release_send_bytes_def c_log_def Let_def
      split: option.split write_error.split list.split)

lemma grows_read: "grows c (handle_read react ec res c)"
proof (cases res)
  case (ReadOk arr n)
  let ?d = "\<lambda>t p l. fold (apply_call True ec) (react t p l)"
  have loop: "handle_loop f b c = Some (ok, b', c') \<Longrightarrow> (\<And>t p c. grows c (f t p c)) \<Longrightarrow> grows c c'" for f b c ok b' c'
  proof (induction f b c rule: handle_loop.induct)
    case (1 f b c)
    show ?case
    proof (cases "status (destruct_buffer b) = kInvalid \<or> status (destruct_buffer b) = kIncomplete")
      case True
      then show ?thesis using "1.prems"(1) by (subst (asm) handle_loop.simps) (auto simp: Let_def)
    next
      case False
      then obtain b2 where b2: "retrieve_v b (size (destruct_buffer b)) (length b) = Some b2"
        using "1.prems"(1) by (subst (asm) handle_loop.simps) (auto simp: Let_def split: option.splits)
      let ?m = "destruct_buffer b"
      have "handle_loop f b2 (f (mtype ?m) (payload ?m) c) = Some (ok, b', c')"
        using "1.prems"(1) False b2 by (subst (asm) handle_loop.simps) (simp add: Let_def)
      from "1.IH"[OF refl _ _ b2 this "1.prems"(2)] False have "grows (f (mtype ?m) (payload ?m) c) c'" by simp
      with "1.prems"(2) show ?thesis by (rule grows_trans)
    qed
  qed
  show ?thesis
  proof (cases "handle_buffer ?d (c_interpreter c) arr n c")
    case None
    then show ?thesis using ReadOk by (simp add: grows_def)
  next
    case (Some r)
    obtain ok i c' where r: "r = (ok, i, c')" by (cases r)
    have "handle_loop (\<lambda>t p. ?d t p l) b x = Some (k, b', x') \<Longrightarrow> grows x x'" for l b x k b' x'
      by (erule loop) (rule grows_fold, rule grows_call)
    then have "grows c c'" using Some r
      by (auto simp: handle_buffer_def split: if_splits option.splits prod.splits)
    moreover have "grows c' (c'\<lparr>c_interpreter := i\<rparr>)" by (simp add: grows_def)
    ultimately have "grows c (c'\<lparr>c_interpreter := i\<rparr>)" by (rule grows_trans)
    from grows_trans[OF this grows_stop] grows_trans[OF this, of "conn_start kBufBytes (c'\<lparr>c_interpreter := i\<rparr>)"]
    show ?thesis using ReadOk Some r by (simp add: Let_def) (simp add: conn_start_def c_post_def grows_def)
  qed
qed (simp_all add: conn_stop_error_def stop_impl_def grows_finish_close)

lemma grows_step: "grows c (conn_step react c e)"
proof (cases e)
  case (RunTask ec)
  have "grows c (run_conn_task ec t (c\<lparr>c_strand := ts\<rparr>))" for t ts
    using grows_trans[of c "c\<lparr>c_strand := ts\<rparr>"] grows_active_stop[of "c\<lparr>c_strand := ts\<rparr>" ec]
      grows_finish_close[of "c\<lparr>c_strand := ts\<rparr>"]
    by (cases t) (auto simp: grows_def start_impl_def stop_impl_def send_impl_def write_next_def
        release_send_bytes_def c_log_def Let_def split: list.split)
  then show ?thesis using RunTask by (simp split: list.split)
next
  case (WriteDone ec err)
  have "grows c (handle_write ec err (c\<lparr>c_outstanding := os\<rparr>))" for os
    using grows_write[of "c\<lparr>c_outstanding := os\<rparr>" ec err] by (simp add: grows_def)
  then show ?thesis using WriteDone by (simp split: list.split)
next
  case (ReadDone ec res)
  have "grows c (handle_read react ec res (c\<lparr>c_reads := n\<rparr>))" for n
    using grows_read[of "c\<lparr>c_reads := n\<rparr>" react ec res] by (simp add: grows_def)
  then show ?thesis using ReadDone by simp
qed (simp_all add: grows_call, simp_all add: grows_def conn_start_def c_post_def conn_attach_link_def conn_detach_link_def)

lemma written_prefix: "prefix xs ys \<Longrightarrow> \<exists>zs. written ys = written xs @ zs"
  by (auto simp: prefix_def)

lemma step_refines_outbox:
  assumes "tcp_inv c"
  shows "outbox_step\<^sup>*\<^sup>* (outbox_of c) (outbox_of (conn_step react c e))"
proof -
  let ?c = "conn_step react c e"
  have g: "grows c ?c" by (rule grows_step)
  then obtain ms where ms: "c_accepted ?c = c_accepted c @ ms" by (auto simp: grows_def prefix_def)
  from g obtain zs where zs: "written (c_io ?c) = written (c_io c) @ zs"
    using written_prefix by (auto simp: grows_def)
  have "tcp_inv ?c" by (rule tcp_inv_step[OF assms])
  then obtain rest where rest: "c_accepted ?c = written (c_io c) @ zs @ rest"
    using zs by (auto simp: tcp_inv_def fifo_inv_def prefix_def)
  let ?b = "(outbox_of c)\<lparr>taken := taken (outbox_of c) @ ms\<rparr>"
  have "outbox_step\<^sup>*\<^sup>* (outbox_of c) ?b" by (rule outbox_takes)
  also have "outbox_step\<^sup>*\<^sup>* ?b (?b\<lparr>handed := handed ?b @ zs\<rparr>)"
    using ms rest by (intro outbox_hands[of _ _ rest]) (simp add: outbox_of_def)
  also have "?b\<lparr>handed := handed ?b @ zs\<rparr> = outbox_of ?c"
    using ms zs by (simp add: outbox_of_def)
  finally show ?thesis .
qed

interpretation conn_outbox: refinement "tcp_create m" "conn_step react" tcp_inv outbox_of outbox_step
  by unfold_locales (rule step_refines_outbox)

subsection \<open>Draining\<close>

text \<open>A successful completion while the connection is open takes the front off the queue and
  starts the next write, or shuts the sending side down after a graceful stop.\<close>

lemma write_done_effect:
  assumes "tcp_inv c" and "\<not> c_closed c" and "c_graceful c" and "c_write_queue c = w # rest"
  shows "let c' = conn_step react c (WriteDone False None) in
     tcp_inv c' \<and> \<not> c_closed c' \<and> c_graceful c' \<and> c_write_queue c' = rest \<and>
     c_io c' = c_io c @ (case rest of [] \<Rightarrow> [ShutdownSend] | (b, _) # _ \<Rightarrow> [AsyncWrite b])"
proof -
  have "c_outstanding c = [fst w]" using assms by (simp add: tcp_inv_def queue_inv_def)
  then show ?thesis
    using assms tcp_inv_step[OF assms(1), of react "WriteDone False None"]
    by (cases w; cases rest)
      (auto simp: handle_write_def release_send_bytes_def shutdown_send_impl_def write_next_def c_log_def Let_def)
qed

lemma drain_queue:
  assumes "tcp_inv c" and "\<not> c_closed c" and "c_graceful c" and "c_write_queue c = w # ws"
  shows "let c' = run_events (conn_step react) c (replicate (Suc (length ws)) (WriteDone False None)) in
     c_write_queue c' = [] \<and> \<not> c_closed c' \<and>
     c_io c' = c_io c @ map (AsyncWrite \<circ> fst) ws @ [ShutdownSend]"
  using assms
proof (induction ws arbitrary: c w)
  case Nil
  then show ?case using write_done_effect[OF Nil, of react] by (simp add: Let_def del: conn_step.simps)
next
  case (Cons v vs)
  let ?c = "conn_step react c (WriteDone False None)"
  have e: "tcp_inv ?c" "\<not> c_closed ?c" "c_graceful ?c" "c_write_queue ?c = v # vs"
    "c_io ?c = c_io c @ [AsyncWrite (fst v)]"
    using write_done_effect[OF Cons.prems, of react] by (cases v; simp add: Let_def del: conn_step.simps)+
  from Cons.IH[OF e(1-4)] e(5) show ?case by (simp add: Let_def del: conn_step.simps)
qed

subsection \<open>Properties\<close>

text \<open>C12. Backpressure is exact in every run: the counter of pending bytes is the sum of what
  the queue and the strand hold, never above the limit and never wrapped, and no operation
  takes the front of an empty queue.\<close>

theorem send_bytes_accounted:
  "let c = run_events (conn_step react) (tcp_create m) es in
     unat (c_pending c) = load c \<and> load c \<le> unat m \<and> \<not> c_undefined c"
proof -
  let ?c = "run_events (conn_step react) (tcp_create m) es"
  have inv: "tcp_inv ?c" by (rule conn.ok_run)
  have "c_max_pending ?c = m"
  proof (induction es rule: rev_induct)
    case (snoc e es)
    then show ?case using grows_step[of "run_events (conn_step react) (tcp_create m) es" react e]
      by (simp add: grows_def del: conn_step.simps)
  qed (simp add: tcp_create_def)
  moreover have "unat m < 2 ^ LENGTH(64)" by (rule unsigned_less)
  ultimately show ?thesis using inv
    by (simp add: tcp_inv_def bytes_inv_def queue_inv_def unat_of_nat Let_def)
qed

text \<open>C11. A connection refines the abstract outbox: along every run, what was given to the
  socket grows by handing over the messages that got a reservation, in that order, none
  skipped and none repeated.\<close>

theorem connection_refines_outbox:
  "outbox_step\<^sup>*\<^sup>* \<lparr>taken = [], handed = []\<rparr>
     (outbox_of (run_events (conn_step react) (tcp_create m) es))"
  using conn_outbox.run_refines[of m react es] by (simp add: outbox_of_def tcp_create_def)

text \<open>C14. Writes never overlap and end in order: at most one write is outstanding, nothing is
  written once the sending side was shut down or the socket closed, and the shutdown and the
  close are asked for at most once.\<close>

theorem write_discipline:
  "let c = run_events (conn_step react) (tcp_create m) es in
     length (c_outstanding c) \<le> 1 \<and> write_order (c_io c) \<and>
     count_list (c_io c) ShutdownSend \<le> 1 \<and> count_list (c_io c) SocketClose \<le> 1"
proof -
  let ?c = "run_events (conn_step react) (tcp_create m) es"
  have "tcp_inv ?c" by (rule conn.ok_run)
  then show ?thesis
    by (cases "c_closed ?c") (auto simp: tcp_inv_def queue_inv_def io_inv_def Let_def)
qed

text \<open>C15. Closing is final and reported once: the close callback has been called exactly when
  the connection is closed, and then the socket is closed, the queue is empty, and only bytes
  of sends that the strand has yet to drop remain reserved.\<close>

theorem close_reported_once:
  "let c = run_events (conn_step react) (tcp_create m) es in
     count_list (c_io c) OnClosed = (if c_closed c then 1 else 0) \<and>
     (if c_closed c
      then \<not> c_open c \<and> c_write_queue c = [] \<and> load c = sum_list (map task_bytes (c_strand c))
      else c_open c)"
proof -
  let ?c = "run_events (conn_step react) (tcp_create m) es"
  have "tcp_inv ?c" by (rule conn.ok_run)
  then show ?thesis by (simp add: tcp_inv_def queue_inv_def io_inv_def load_def Let_def)
qed

text \<open>C18. A graceful stop drains: if writes succeed, every message in the queue is written, in
  order, and the sending side is shut down right after the last one.\<close>

theorem graceful_stop_drains:
  assumes "tcp_inv c" and "\<not> c_closed c" and "c_graceful c" and "c_write_queue c = w # ws"
  shows "let c' = run_events (conn_step react) c (replicate (length (c_write_queue c)) (WriteDone False None)) in
     c_write_queue c' = [] \<and> c_io c' = c_io c @ map (AsyncWrite \<circ> fst) ws @ [ShutdownSend]"
  using drain_queue[OF assms, of react] assms(4) by (simp add: Let_def del: conn_step.simps)

theorem graceful_stop_drains_witness:
  "let c = run_events (conn_step (\<lambda>_ _ _. [])) (tcp_create 100 :: nat tcp_connection)
        [Call (CallSend [1, 2]), Call (CallSend [3]), Call (CallStop False), RunTask False, RunTask False, RunTask False];
       c' = run_events (conn_step (\<lambda>_ _ _. [])) c (replicate (length (c_write_queue c)) (WriteDone False None))
   in c_write_queue c' = [] \<and> c_io c' = [AsyncWrite [1, 2], AsyncWrite [3], ShutdownSend]"
proof -
  let ?r = "\<lambda>_ _ _. [] :: conn_call list"
  let ?es = "[Call (CallSend [1, 2]), Call (CallSend [3]), Call (CallStop False), RunTask False, RunTask False, RunTask False]"
  let ?c = "run_events (conn_step ?r) (tcp_create 100 :: nat tcp_connection) ?es"
  have inv: "tcp_inv ?c" by (rule conn.ok_run)
  have c: "\<not> c_closed ?c" "c_graceful ?c" "c_write_queue ?c = ([1, 2], 2) # [([3], 1)]" "c_io ?c = [AsyncWrite [1, 2]]"
    by (simp_all add: tcp_create_def conn_send_def reserve_send_bytes_def c_post_def conn_stop_def send_impl_def
        write_next_def c_log_def active_stop_impl_def Let_def)
  from graceful_stop_drains[OF inv c(1-3), of ?r] c(4) show ?thesis by (simp add: Let_def del: conn_step.simps)
qed

text \<open>C19. Overflow closes: a message that does not fit the send budget of an open connection is
  not queued; the connection refuses every later message and the forced stop it posts closes
  the socket.\<close>

theorem overflow_closes:
  assumes "tcp_inv c" and "\<not> c_closed c" and "\<not> c_overflowed c" and "c_strand c = []"
    and "\<not> (of_nat (length msg) \<le> c_max_pending c \<and> c_pending c \<le> c_max_pending c - of_nat (length msg))"
  shows "let c1 = conn_step react c (Call (CallSend msg)); c2 = conn_step react c1 (RunTask ec) in
     c_accepted c1 = c_accepted c \<and> c_closed c2 \<and> c_pending c2 = 0 \<and>
     fst (reserve_send_bytes n c2) = False"
proof -
  let ?c1 = "conn_step react c (Call (CallSend msg))"
  have c1: "?c1 = c\<lparr>c_overflowed := True, c_strand := [ActiveStopImpl True]\<rparr>"
    using assms by (auto simp: conn_send_def reserve_send_bytes_def conn_stop_def c_post_def Let_def)
  have "tcp_inv ?c1" by (rule tcp_inv_step[OF assms(1)])
  then have inv: "tcp_inv (?c1\<lparr>c_strand := []\<rparr>)"
    by (rule tcp_inv_pop[where t = "ActiveStopImpl True"]) (unfold c1, simp_all)
  have c2: "conn_step react ?c1 (RunTask ec) = finish_close (?c1\<lparr>c_strand := []\<rparr>)"
    unfolding c1 using assms(2) by (simp add: active_stop_impl_def)
  have "tcp_inv (finish_close (?c1\<lparr>c_strand := []\<rparr>))" by (rule tcp_inv_finish_close[OF inv])
  moreover have "c_strand (finish_close (?c1\<lparr>c_strand := []\<rparr>)) = []"
    and "c_overflowed (finish_close (?c1\<lparr>c_strand := []\<rparr>))"
    and "c_write_queue (finish_close (?c1\<lparr>c_strand := []\<rparr>)) = []"
    using finish_close_eq[OF inv] assms(2) unfolding c1 by simp_all
  ultimately show ?thesis
    using c1 c2 by (simp add: Let_def reserve_send_bytes_def tcp_inv_def bytes_inv_def load_def del: conn_step.simps)
qed

theorem overflow_closes_witness:
  "let c = tcp_create 2 :: nat tcp_connection; r = (\<lambda>_ _ _. []);
       c1 = conn_step r c (Call (CallSend [1, 2, 3])); c2 = conn_step r c1 (RunTask False)
   in c_accepted c1 = [] \<and> c_closed c2 \<and> c_pending c2 = 0 \<and> fst (reserve_send_bytes 1 c2) = False"
  using overflow_closes[OF tcp_inv_create, of 2 "[1, 2, 3]" "\<lambda>_ _ _. []" False 1]
  by (simp add: tcp_create_def Let_def del: conn_step.simps)

end
