(* ===== verification/Tcp_Server.thy ===== *)
theory Tcp_Server
  imports Tcp_Connection "HOL-Library.AList"
begin

text \<open>
  The accepting side of the user server: \<open>thread_pool\<close> (an \<open>io_context\<close> run by a group of
  threads) and \<open>tcp_server\<close>, which accepts connections, reports them to its subscribers and
  starts them. The accept handler runs on an acceptor thread while the connections' strands
  run on the I/O threads, so its statements are separate steps: one per subscriber it
  notifies, and a last one that starts the connection and accepts the next.
\<close>

subsection \<open>Thread pool\<close>

text \<open>
  \<open>tp_group\<close> is the size of the thread group, if there is one; \<open>tp_stopped\<close> tells that the
  \<open>io_context\<close> was stopped: \<open>run\<close> then returns at once and nothing restarts it. The work
  guard keeps \<open>run\<close> from returning for lack of work.
\<close>

record thread_pool =
  tp_size :: nat
  tp_group :: "nat option"
  tp_stopped :: bool

definition thread_pool_make :: "nat \<Rightarrow> thread_pool" where
  "thread_pool_make pool_size = \<lparr>tp_size = pool_size, tp_group = None, tp_stopped = False\<rparr>"

definition pool_start :: "thread_pool \<Rightarrow> thread_pool" where
  "pool_start p =
     (let p = (if tp_group p = None then p\<lparr>tp_group := Some 0\<rparr> else p)
      in p\<lparr>tp_group := map_option (\<lambda>n. n + tp_size p) (tp_group p)\<rparr>)"

definition pool_stop :: "thread_pool \<Rightarrow> thread_pool" where
  "pool_stop p = (if tp_group p = None then p else p\<lparr>tp_stopped := True, tp_group := None\<rparr>)"

text \<open>Handlers posted to the pool's context are run.\<close>

definition pool_runs :: "thread_pool \<Rightarrow> bool" where
  "pool_runs p \<longleftrightarrow> (case tp_group p of None \<Rightarrow> False | Some n \<Rightarrow> n > 0 \<and> \<not> tp_stopped p)"

text \<open>\<open>worker::instance\<close>: the singleton is constructed on first use, and started.\<close>

definition worker_instance :: thread_pool where
  "worker_instance = pool_start (thread_pool_make 30)"

subsection \<open>Server\<close>

type_synonym conn_id = nat

datatype server_call = OnConnCreated nat conn_id | ConnStart conn_id | OnConnClosed nat conn_id

text \<open>
  Subscribers are kept in the order of the set (\<open>sv_subscribers\<close>, ascending). \<open>sv_accepting\<close>
  are the connections an \<open>async_accept\<close> is outstanding for, \<open>sv_handling\<close> the running accept
  handlers with the subscribers still to be notified. A connection is in \<open>sv_conns\<close> from the
  moment its socket is accepted; until then it is only a number that was handed out.
\<close>

record 'l tcp_server =
  sv_acceptor_threads :: thread_pool
  sv_io_threads :: thread_pool
  sv_subscribers :: "nat list"
  sv_conns :: "conn_id \<Rightarrow> 'l tcp_connection option"
  sv_next :: conn_id
  sv_accepting :: "conn_id list"
  sv_handling :: "(conn_id \<times> nat list) list"
  sv_calls :: "server_call list"

definition tcp_server_new :: "'l tcp_server" where
  "tcp_server_new =
     \<lparr>sv_acceptor_threads = thread_pool_make 2, sv_io_threads = thread_pool_make 5,
      sv_subscribers = [], sv_conns = (\<lambda>_. None), sv_next = 0, sv_accepting = [], sv_handling = [],
      sv_calls = []\<rparr>"

definition sv_subscribe :: "nat \<Rightarrow> 'l tcp_server \<Rightarrow> 'l tcp_server" where
  "sv_subscribe event s = s\<lparr>sv_subscribers := insort_insert event (sv_subscribers s)\<rparr>"

definition sv_unsubscribe :: "nat \<Rightarrow> 'l tcp_server \<Rightarrow> 'l tcp_server" where
  "sv_unsubscribe event s = s\<lparr>sv_subscribers := remove1 event (sv_subscribers s)\<rparr>"

definition notify_on_closed :: "conn_id \<Rightarrow> 'l tcp_server \<Rightarrow> 'l tcp_server" where
  "notify_on_closed i s = s\<lparr>sv_calls := sv_calls s @ map (\<lambda>e. OnConnClosed e i) (sv_subscribers s)\<rparr>"

definition start_accept :: "'l tcp_server \<Rightarrow> 'l tcp_server" where
  "start_accept s = s\<lparr>sv_next := Suc (sv_next s), sv_accepting := sv_accepting s @ [sv_next s]\<rparr>"

text \<open>\<open>start\<close>, up to the joins, which block until the pools are stopped, and \<open>stop\<close>.\<close>

definition sv_start :: "'l tcp_server \<Rightarrow> 'l tcp_server" where
  "sv_start s =
     start_accept (s\<lparr>sv_acceptor_threads := pool_start (sv_acceptor_threads s),
                     sv_io_threads := pool_start (sv_io_threads s)\<rparr>)"

definition sv_stop :: "'l tcp_server \<Rightarrow> 'l tcp_server" where
  "sv_stop s =
     s\<lparr>sv_acceptor_threads := pool_stop (sv_acceptor_threads s), sv_io_threads := pool_stop (sv_io_threads s)\<rparr>"

text \<open>
  \<open>handle_accept\<close>: its entry, one call of the loop in \<open>notify_on_created\<close>, and its end.
  \<open>owner e i\<close> is the link that the subscriber attaches to the new connection, if it does.
\<close>

definition handle_accept :: "conn_id \<Rightarrow> bool \<Rightarrow> 'l tcp_server \<Rightarrow> 'l tcp_server" where
  "handle_accept i error s =
     (let s = s\<lparr>sv_accepting := remove1 i (sv_accepting s)\<rparr>
      in if \<not> error
         then s\<lparr>sv_conns := (sv_conns s)(i := Some (tcp_create kMaxPendingSendBytes)),
                sv_handling := sv_handling s @ [(i, sv_subscribers s)]\<rparr>
         else start_accept s)"

definition notify_created :: "(nat \<Rightarrow> conn_id \<Rightarrow> 'l option) \<Rightarrow> conn_id \<Rightarrow> nat \<Rightarrow> 'l tcp_server \<Rightarrow> 'l tcp_server" where
  "notify_created owner i e s =
     s\<lparr>sv_calls := sv_calls s @ [OnConnCreated e i],
       sv_conns := (sv_conns s)(i := map_option
         (\<lambda>c. case owner e i of Some l \<Rightarrow> conn_attach_link l c | None \<Rightarrow> c) (sv_conns s i))\<rparr>"

definition accept_start :: "conn_id \<Rightarrow> 'l tcp_server \<Rightarrow> 'l tcp_server" where
  "accept_start i s =
     start_accept (s\<lparr>sv_calls := sv_calls s @ [ConnStart i],
                     sv_conns := (sv_conns s)(i := map_option (conn_start kBufBytes) (sv_conns s i))\<rparr>)"

definition handler_step :: "(nat \<Rightarrow> conn_id \<Rightarrow> 'l option) \<Rightarrow> conn_id \<Rightarrow> 'l tcp_server \<Rightarrow> 'l tcp_server" where
  "handler_step owner i s =
     (case map_of (sv_handling s) i of
        None \<Rightarrow> s
      | Some (e # es) \<Rightarrow> notify_created owner i e (s\<lparr>sv_handling := AList.update i es (sv_handling s)\<rparr>)
      | Some [] \<Rightarrow> accept_start i (s\<lparr>sv_handling := AList.delete i (sv_handling s)\<rparr>))"

text \<open>
  An event of a connection: a call by its owner, or a task or completion on the I/O threads.
  The connection's close callback is \<open>notify_on_closed\<close>. Only the server calls \<open>start\<close>.
\<close>

fun on_io :: "'l conn_event \<Rightarrow> bool" where
  "on_io (RunTask _) \<longleftrightarrow> True"
| "on_io (WriteDone _ _) \<longleftrightarrow> True"
| "on_io (ReadDone _ _) \<longleftrightarrow> True"
| "on_io _ \<longleftrightarrow> False"

fun is_start :: "'l conn_event \<Rightarrow> bool" where
  "is_start (CallStart _) \<longleftrightarrow> True"
| "is_start _ \<longleftrightarrow> False"

definition reports_close :: "'l tcp_connection \<Rightarrow> 'l tcp_connection \<Rightarrow> bool" where
  "reports_close c c' \<longleftrightarrow> count_list (c_io c) OnClosed < count_list (c_io c') OnClosed"

definition sv_conn_event ::
  "(MessageType \<Rightarrow> raw_buffer \<Rightarrow> 'l option \<Rightarrow> conn_call list) \<Rightarrow> conn_id \<Rightarrow> 'l conn_event \<Rightarrow> 'l tcp_server \<Rightarrow> 'l tcp_server" where
  "sv_conn_event react i e s =
     (case sv_conns s i of
        None \<Rightarrow> s
      | Some c \<Rightarrow>
          (let c' = conn_step react c e;
               s = s\<lparr>sv_conns := (sv_conns s)(i := Some c')\<rparr>
           in if reports_close c c' then notify_on_closed i s else s))"

datatype 'l server_input =
    Subscribe nat
  | Unsubscribe nat
  | StartServer
  | StopServer
  | AcceptDone conn_id bool
  | HandlerStep conn_id
  | ConnEvent conn_id "'l conn_event"

text \<open>\<open>StopServer\<close> is the return of \<open>stop\<close>, whose joins wait for the running handlers.\<close>

fun server_step ::
  "(nat \<Rightarrow> conn_id \<Rightarrow> 'l option) \<Rightarrow> (MessageType \<Rightarrow> raw_buffer \<Rightarrow> 'l option \<Rightarrow> conn_call list)
     \<Rightarrow> 'l tcp_server \<Rightarrow> 'l server_input \<Rightarrow> 'l tcp_server" where
  "server_step owner react s (Subscribe e) = sv_subscribe e s"
| "server_step owner react s (Unsubscribe e) = sv_unsubscribe e s"
| "server_step owner react s StartServer = sv_start s"
| "server_step owner react s StopServer = (if sv_handling s = [] then sv_stop s else s)"
| "server_step owner react s (AcceptDone i error) =
     (if i \<in> set (sv_accepting s) \<and> pool_runs (sv_acceptor_threads s) then handle_accept i error s else s)"
| "server_step owner react s (HandlerStep i) = handler_step owner i s"
| "server_step owner react s (ConnEvent i e) =
     (if \<not> is_start e \<and> (on_io e \<longrightarrow> pool_runs (sv_io_threads s)) then sv_conn_event react i e s else s)"

subsection \<open>Connections before their start\<close>

definition quiet :: "'l tcp_connection \<Rightarrow> bool" where
  "quiet c \<longleftrightarrow> c_reads c = 0 \<and> (\<forall>n. StartImpl n \<notin> set (c_strand c))"

lemma finish_close_frame [simp]:
  "c_reads (finish_close c) = c_reads c" "c_strand (finish_close c) = c_strand c"
  "c_interpreter (finish_close c) = c_interpreter c"
  by (simp_all add: finish_close_def Let_def fold_release c_log_def)

lemma active_stop_frame [simp]:
  "c_reads (active_stop_impl ec force c) = c_reads c" "c_strand (active_stop_impl ec force c) = c_strand c"
  "c_interpreter (active_stop_impl ec force c) = c_interpreter c"
  by (simp_all add: active_stop_impl_def shutdown_send_impl_def c_log_def Let_def)

lemma send_impl_frame [simp]:
  "c_reads (send_impl b n c) = c_reads c" "c_strand (send_impl b n c) = c_strand c"
  "c_interpreter (send_impl b n c) = c_interpreter c"
  by (simp_all add: send_impl_def write_next_def release_send_bytes_def c_log_def Let_def split: list.split)

lemma handle_write_frame [simp]:
  "c_reads (handle_write ec err c) = c_reads c" "c_strand (handle_write ec err c) = c_strand c"
  "c_interpreter (handle_write ec err c) = c_interpreter c"
  by (simp_all add: handle_write_def shutdown_send_impl_def write_next_def release_send_bytes_def c_log_def Let_def
      split: option.split write_error.split list.split)

lemma apply_call_frame [simp]:
  "c_reads (apply_call on_strand ec k c) = c_reads c"
  "c_interpreter (apply_call on_strand ec k c) = c_interpreter c"
  "StartImpl n \<in> set (c_strand (apply_call on_strand ec k c)) \<longleftrightarrow> StartImpl n \<in> set (c_strand c)"
  by (cases k; simp add: conn_send_def conn_stop_def reserve_send_bytes_def c_post_def Let_def)+

lemma quiet_step:
  assumes "quiet c" and "\<not> is_start e"
  shows "quiet (conn_step react c e)"
proof (cases e)
  case (RunTask ec)
  show ?thesis
  proof (cases "c_strand c")
    case (Cons t ts)
    then show ?thesis using assms(1) RunTask by (cases t) (auto simp: quiet_def stop_impl_def)
  qed (use assms(1) RunTask in simp)
qed (use assms in \<open>auto simp: quiet_def conn_attach_link_def conn_detach_link_def split: list.split\<close>)

text \<open>Once a link is attached the messages are dispatched with a link.\<close>

definition linked :: "'l tcp_connection \<Rightarrow> bool" where
  "linked c \<longleftrightarrow> ilink (c_interpreter c) \<noteq> None"

lemma linked_read:
  assumes "tcp_inv c" and "linked c" and "read_fits res"
  shows "linked (handle_read react ec res c)"
proof (cases res)
  case (ReadOk arr n)
  let ?d = "\<lambda>t p l. fold (apply_call True ec) (react t p l)"
  have i: "interp_inv (c_interpreter c)" using assms(1) by (simp add: tcp_inv_def queue_inv_def)
  have ok: "block_ok (arr, n)" using assms(3) ReadOk by (simp add: block_ok_def kBufBytes_def)
  show ?thesis
  proof (cases "handle_buffer ?d (c_interpreter c) arr n c")
    case (Some r)
    obtain b j c' where r: "r = (b, j, c')" by (cases r)
    from handle_buffer_inv(2)[OF i ok Some[unfolded r]] assms(2) have "ilink j \<noteq> None" by (simp add: linked_def)
    then show ?thesis using ReadOk Some r
      by (simp add: linked_def conn_start_def conn_stop_def c_post_def Let_def)
  qed (use assms(2) ReadOk in \<open>simp add: linked_def\<close>)
qed (use assms(2) in \<open>simp_all add: linked_def conn_stop_error_def stop_impl_def\<close>)

lemma linked_step:
  assumes "tcp_inv c" and "linked c"
  shows "linked (conn_step react c e)"
proof (cases e)
  case (RunTask ec)
  show ?thesis
  proof (cases "c_strand c")
    case (Cons t ts)
    then show ?thesis using assms(2) RunTask
      by (cases t) (auto simp: linked_def stop_impl_def start_impl_def c_log_def)
  qed (use assms(2) RunTask in simp)
next
  case (ReadDone ec res)
  let ?c = "c\<lparr>c_reads := c_reads c - 1\<rparr>"
  have "tcp_inv ?c" and "linked ?c" using assms by (simp_all add: linked_def)
  from linked_read[OF this, of res react ec] show ?thesis using ReadDone assms(2) by simp
qed (use assms(2) in \<open>auto simp: linked_def conn_start_def c_post_def conn_attach_link_def attach_link_def
      conn_detach_link_def split: list.split\<close>)

lemma closed_step:
  assumes "tcp_inv c"
  shows "c_closed c \<longrightarrow> c_closed (conn_step react c e)"
    and "reports_close c (conn_step react c e) \<longleftrightarrow> \<not> c_closed c \<and> c_closed (conn_step react c e)"
proof -
  let ?c = "conn_step react c e"
  have "io_inv c" and "io_inv ?c" using assms tcp_inv_step[OF assms] by (simp_all add: tcp_inv_def)
  then have n: "count_list (c_io c) OnClosed = (if c_closed c then 1 else 0)"
    "count_list (c_io ?c) OnClosed = (if c_closed ?c then 1 else 0)" by (simp_all add: io_inv_def)
  have "count_list (c_io c) OnClosed \<le> count_list (c_io ?c) OnClosed"
    using grows_step[of c react e] by (auto simp: grows_def elim!: prefixE)
  with n show "c_closed c \<longrightarrow> c_closed ?c" and "reports_close c ?c \<longleftrightarrow> \<not> c_closed c \<and> c_closed ?c"
    by (auto simp: reports_close_def split: if_splits)
qed

subsection \<open>Invariant\<close>

fun sets_up :: "conn_id \<Rightarrow> server_call \<Rightarrow> bool" where
  "sets_up i (OnConnCreated _ j) \<longleftrightarrow> j = i"
| "sets_up i (ConnStart j) \<longleftrightarrow> j = i"
| "sets_up i (OnConnClosed _ _) \<longleftrightarrow> False"

definition setup_of :: "conn_id \<Rightarrow> 'l tcp_server \<Rightarrow> server_call list" where
  "setup_of i s = filter (sets_up i) (sv_calls s)"

definition closes_of :: "nat \<Rightarrow> conn_id \<Rightarrow> 'l tcp_server \<Rightarrow> nat" where
  "closes_of e i s = count_list (sv_calls s) (OnConnClosed e i)"

text \<open>The subscribers \<open>es\<close> were told of the connection, and what they attached is in place.\<close>

definition created :: "(nat \<Rightarrow> conn_id \<Rightarrow> 'l option) \<Rightarrow> conn_id \<Rightarrow> nat list \<Rightarrow> 'l tcp_connection \<Rightarrow> bool" where
  "created owner i es c \<longleftrightarrow> distinct es \<and> ((\<exists>e. e \<in> set es \<and> owner e i \<noteq> None) \<longrightarrow> linked c)"

definition conn_ok :: "(nat \<Rightarrow> conn_id \<Rightarrow> 'l option) \<Rightarrow> 'l tcp_server \<Rightarrow> conn_id \<Rightarrow> 'l tcp_connection \<Rightarrow> bool" where
  "conn_ok owner s i c \<longleftrightarrow> tcp_inv c \<and> (\<forall>e. closes_of e i s \<le> (if c_closed c then 1 else 0)) \<and>
     (\<exists>es. created owner i es c \<and>
        (case map_of (sv_handling s) i of
           Some rest \<Rightarrow> quiet c \<and> distinct (es @ rest) \<and> setup_of i s = map (\<lambda>e. OnConnCreated e i) es
         | None \<Rightarrow> setup_of i s = map (\<lambda>e. OnConnCreated e i) es @ [ConnStart i]))"

definition slot_ok :: "(nat \<Rightarrow> conn_id \<Rightarrow> 'l option) \<Rightarrow> 'l tcp_server \<Rightarrow> conn_id \<Rightarrow> bool" where
  "slot_ok owner s i \<longleftrightarrow>
     (case sv_conns s i of
        None \<Rightarrow> map_of (sv_handling s) i = None \<and> setup_of i s = [] \<and> (\<forall>e. closes_of e i s = 0)
      | Some c \<Rightarrow> i < sv_next s \<and> conn_ok owner s i c)"

definition server_ok :: "(nat \<Rightarrow> conn_id \<Rightarrow> 'l option) \<Rightarrow> 'l tcp_server \<Rightarrow> bool" where
  "server_ok owner s \<longleftrightarrow> sorted (sv_subscribers s) \<and> distinct (sv_subscribers s) \<and>
     distinct (sv_accepting s) \<and> (\<forall>i. i \<in> set (sv_accepting s) \<longrightarrow> i < sv_next s \<and> sv_conns s i = None) \<and>
     distinct (map fst (sv_handling s)) \<and> (\<forall>i. slot_ok owner s i)"

lemma slot_ok_cong:
  assumes "slot_ok owner s i"
    and "sv_conns t i = sv_conns s i" "map_of (sv_handling t) i = map_of (sv_handling s) i"
      "setup_of i t = setup_of i s" "\<And>e. closes_of e i t = closes_of e i s" "sv_next s \<le> sv_next t"
  shows "slot_ok owner t i"
  using assms(1,6) unfolding slot_ok_def conn_ok_def assms(2-5)
  by (cases "sv_conns s i") (simp_all add: less_le_trans)

lemma slot_ok_frame:
  assumes "sv_conns t = sv_conns s" "sv_handling t = sv_handling s" "sv_calls t = sv_calls s" "sv_next s \<le> sv_next t"
  shows "slot_ok owner s i \<Longrightarrow> slot_ok owner t i"
  by (erule slot_ok_cong) (use assms in \<open>simp_all add: setup_of_def closes_of_def\<close>)

lemma server_ok_init: "server_ok owner tcp_server_new"
  by (simp add: server_ok_def slot_ok_def setup_of_def closes_of_def tcp_server_new_def)

lemma server_ok_subscribe:
  assumes "server_ok owner s"
  shows "server_ok owner (sv_subscribe e s)"
proof -
  have "slot_ok owner s i \<Longrightarrow> slot_ok owner (sv_subscribe e s) i" for i
    by (rule slot_ok_frame) (simp_all add: sv_subscribe_def)
  then show ?thesis using assms
    by (simp add: server_ok_def) (simp add: sv_subscribe_def sorted_insort_insert distinct_insort_insert)
qed

lemma server_ok_unsubscribe:
  assumes "server_ok owner s"
  shows "server_ok owner (sv_unsubscribe e s)"
proof -
  have "slot_ok owner s i \<Longrightarrow> slot_ok owner (sv_unsubscribe e s) i" for i
    by (rule slot_ok_frame) (simp_all add: sv_unsubscribe_def)
  then show ?thesis using assms
    by (simp add: server_ok_def) (simp add: sv_unsubscribe_def sorted_remove1)
qed

lemma server_ok_pools:
  assumes "server_ok owner s"
  shows "server_ok owner (s\<lparr>sv_acceptor_threads := p, sv_io_threads := q\<rparr>)"
proof -
  have "slot_ok owner s i \<Longrightarrow> slot_ok owner (s\<lparr>sv_acceptor_threads := p, sv_io_threads := q\<rparr>) i" for i
    by (rule slot_ok_frame) simp_all
  then show ?thesis using assms by (simp add: server_ok_def)
qed

lemma server_slot: "server_ok owner s \<Longrightarrow> slot_ok owner s i"
  by (simp add: server_ok_def)

lemma accepted_below: "server_ok owner s \<Longrightarrow> sv_conns s i = Some c \<Longrightarrow> i < sv_next s \<and> conn_ok owner s i c"
  by (drule server_slot[of _ _ i]) (simp add: slot_ok_def)

lemma unaccepted_clean:
  "server_ok owner s \<Longrightarrow> sv_conns s i = None \<Longrightarrow>
    map_of (sv_handling s) i = None \<and> setup_of i s = [] \<and> (\<forall>e. closes_of e i s = 0)"
  by (drule server_slot[of _ _ i]) (simp add: slot_ok_def)

lemma server_ok_start_accept:
  assumes "server_ok owner s"
  shows "server_ok owner (start_accept s)"
proof -
  have "slot_ok owner s i \<Longrightarrow> slot_ok owner (start_accept s) i" for i
    by (rule slot_ok_frame) (simp_all add: start_accept_def)
  moreover have "sv_conns s (sv_next s) = None"
    using accepted_below[OF assms] by (cases "sv_conns s (sv_next s)") auto
  ultimately show ?thesis using assms
    by (simp add: server_ok_def) (auto simp: start_accept_def less_SucI)
qed

lemma server_ok_accept:
  assumes "server_ok owner s" and "i \<in> set (sv_accepting s)"
  shows "server_ok owner (handle_accept i error s)"
proof -
  let ?s = "s\<lparr>sv_accepting := remove1 i (sv_accepting s)\<rparr>"
  have "slot_ok owner s j \<Longrightarrow> slot_ok owner ?s j" for j
    by (rule slot_ok_frame) simp_all
  then have ok: "server_ok owner ?s"
    using assms(1) by (simp add: server_ok_def)
  show ?thesis
  proof (cases error)
    case True
    then show ?thesis using server_ok_start_accept[OF ok] by (simp add: handle_accept_def)
  next
    case False
    let ?c = "tcp_create kMaxPendingSendBytes :: 'a tcp_connection"
    let ?t = "?s\<lparr>sv_conns := (sv_conns s)(i := Some ?c), sv_handling := sv_handling s @ [(i, sv_subscribers s)]\<rparr>"
    have i: "sv_conns s i = None" "i < sv_next s" "distinct (sv_accepting s)" "distinct (sv_subscribers s)"
      using assms by (auto simp: server_ok_def)
    note n = unaccepted_clean[OF assms(1) i(1)]
    have q: "quiet ?c" "tcp_inv ?c" by (simp_all add: quiet_def tcp_inv_create) (simp add: tcp_create_def)
    have "slot_ok owner ?t j" for j
    proof (cases "j = i")
      case True
      then show ?thesis using q i n
        by (auto simp: slot_ok_def conn_ok_def created_def setup_of_def closes_of_def map_add_def intro!: exI[of _ "[]"])
    next
      case False
      have "slot_ok owner s j" using assms(1) by (simp add: server_ok_def)
      then show ?thesis
        by (rule slot_ok_cong) (use False in \<open>simp_all add: setup_of_def closes_of_def map_add_def split: option.split\<close>)
    qed
    then have "server_ok owner ?t" using ok i n
      by (simp add: server_ok_def map_of_eq_None_iff)
    then show ?thesis using False by (simp add: handle_accept_def)
  qed
qed

definition attached :: "'l option \<Rightarrow> 'l tcp_connection \<Rightarrow> 'l tcp_connection" where
  "attached l c = (case l of Some l \<Rightarrow> conn_attach_link l c | None \<Rightarrow> c)"

lemma attached_ok:
  "tcp_inv c \<Longrightarrow> tcp_inv (attached l c)" "quiet c \<Longrightarrow> quiet (attached l c)" "c_closed (attached l c) = c_closed c"
  "linked (attached l c) \<longleftrightarrow> l \<noteq> None \<or> linked c"
  using tcp_inv_step[of c _ "Attach _"] quiet_step[of c "Attach _"]
  by (auto simp: attached_def conn_attach_link_def linked_def attach_link_def split: option.split)

lemma server_ok_notify:
  assumes "server_ok owner s" and "map_of (sv_handling s) i = Some (e # es)"
  shows "server_ok owner (notify_created owner i e (s\<lparr>sv_handling := AList.update i es (sv_handling s)\<rparr>))"
    (is "server_ok owner ?t")
proof -
  obtain c where c: "sv_conns s i = Some c"
    using unaccepted_clean[OF assms(1), of i] assms(2) by (cases "sv_conns s i") auto
  with accepted_below[OF assms(1)] have i: "i < sv_next s" and ok: "conn_ok owner s i c" by auto
  from ok assms(2) obtain ds where ds: "created owner i ds c" "quiet c" "distinct (ds @ e # es)"
    "setup_of i s = map (\<lambda>e. OnConnCreated e i) ds" by (auto simp: conn_ok_def)
  have t: "sv_conns ?t = (sv_conns s)(i \<mapsto> attached (owner e i) c)" "map_of (sv_handling ?t) = (map_of (sv_handling s))(i \<mapsto> es)"
    "sv_calls ?t = sv_calls s @ [OnConnCreated e i]" "sv_next ?t = sv_next s"
    using c by (simp_all add: notify_created_def attached_def update_conv')
  have "slot_ok owner ?t j" for j
  proof (cases "j = i")
    case True
    have "created owner i (ds @ [e]) (attached (owner e i) c)"
      using ds(1,3) by (auto simp: created_def attached_ok)
    moreover have "setup_of i ?t = map (\<lambda>e. OnConnCreated e i) (ds @ [e])" "\<And>e. closes_of e i ?t = closes_of e i s"
      using ds(4) t(3) by (simp_all add: setup_of_def closes_of_def)
    ultimately show ?thesis using True t i ok ds(2,3)
      by (auto simp: slot_ok_def conn_ok_def attached_ok intro!: exI[of _ "ds @ [e]"])
  next
    case False
    from server_slot[OF assms(1)] show ?thesis
      by (rule slot_ok_cong) (use False t in \<open>simp_all add: setup_of_def closes_of_def\<close>)
  qed
  moreover have "sv_conns ?t j = None \<longleftrightarrow> sv_conns s j = None" for j using c t(1) by simp
  ultimately show ?thesis using assms(1)
    by (simp add: server_ok_def) (simp add: notify_created_def distinct_update)
qed

lemma server_ok_accept_start:
  assumes "server_ok owner s" and "map_of (sv_handling s) i = Some []"
  shows "server_ok owner (accept_start i (s\<lparr>sv_handling := AList.delete i (sv_handling s)\<rparr>))"
proof -
  let ?t = "s\<lparr>sv_handling := AList.delete i (sv_handling s), sv_calls := sv_calls s @ [ConnStart i],
    sv_conns := (sv_conns s)(i := map_option (conn_start kBufBytes) (sv_conns s i))\<rparr>"
  obtain c where c: "sv_conns s i = Some c"
    using unaccepted_clean[OF assms(1), of i] assms(2) by (cases "sv_conns s i") auto
  with accepted_below[OF assms(1)] have i: "i < sv_next s" and ok: "conn_ok owner s i c" by auto
  from ok assms(2) obtain ds where ds: "created owner i ds c" "setup_of i s = map (\<lambda>e. OnConnCreated e i) ds"
    by (auto simp: conn_ok_def)
  have inv: "tcp_inv (conn_start kBufBytes c)" using tcp_inv_step[of c _ "CallStart kBufBytes"] ok by (simp add: conn_ok_def)
  have "slot_ok owner ?t j" for j
  proof (cases "j = i")
    case True
    have "created owner i ds (conn_start kBufBytes c)"
      using ds(1) by (simp add: created_def linked_def conn_start_def c_post_def)
    moreover have "c_closed (conn_start kBufBytes c) = c_closed c" by (simp add: conn_start_def c_post_def)
    ultimately show ?thesis using True c i inv ok ds(2)
      by (auto simp: slot_ok_def conn_ok_def delete_conv' setup_of_def closes_of_def)
  next
    case False
    from server_slot[OF assms(1)] show ?thesis
      by (rule slot_ok_cong) (use False in \<open>simp_all add: setup_of_def closes_of_def delete_conv'\<close>)
  qed
  moreover have "sv_conns ?t j = None \<longleftrightarrow> sv_conns s j = None" for j by simp
  ultimately have "server_ok owner ?t" using assms(1)
    by (simp add: server_ok_def distinct_delete)
  from server_ok_start_accept[OF this] show ?thesis by (simp add: accept_start_def)
qed

lemma server_ok_handler: "server_ok owner s \<Longrightarrow> server_ok owner (handler_step owner i s)"
  by (auto simp: handler_step_def server_ok_notify server_ok_accept_start split: option.split list.split)

lemma count_reported: "distinct es \<Longrightarrow> count_list (map (\<lambda>e. OnConnClosed e i) es) (OnConnClosed e i) \<le> 1"
  by (induction es) (auto simp: count_list_0_iff)

lemma count_other: "j \<noteq> i \<Longrightarrow> count_list (map (\<lambda>e. OnConnClosed e i) es) (OnConnClosed e j) = 0"
  by (auto simp: count_list_0_iff)

lemma setup_reported [simp]: "filter (sets_up j) (map (\<lambda>e. OnConnClosed e i) es) = []"
  by (simp add: filter_empty_conv)

lemma server_ok_conn_event:
  assumes "server_ok owner s" and "\<not> is_start e"
  shows "server_ok owner (sv_conn_event react i e s)"
proof (cases "sv_conns s i")
  case None
  then show ?thesis using assms(1) by (simp add: sv_conn_event_def)
next
  case (Some c)
  let ?c = "conn_step react c e" and ?t = "sv_conn_event react i e s"
  from accepted_below[OF assms(1) Some] have i: "i < sv_next s" and ok: "conn_ok owner s i c" by auto
  then have inv: "tcp_inv c" by (simp add: conn_ok_def)
  define news where "news = (if reports_close c ?c then map (\<lambda>e. OnConnClosed e i) (sv_subscribers s) else [])"
  have t: "?t = s\<lparr>sv_conns := (sv_conns s)(i \<mapsto> ?c), sv_calls := sv_calls s @ news\<rparr>"
    using Some by (simp add: sv_conn_event_def notify_on_closed_def news_def Let_def)
  have sub: "distinct (sv_subscribers s)" using assms(1) by (simp add: server_ok_def)
  have su: "setup_of j ?t = setup_of j s" for j by (simp add: t setup_of_def news_def)
  have "slot_ok owner ?t j" for j
  proof (cases "j = i")
    case True
    have cl: "\<forall>x. closes_of x i ?t \<le> (if c_closed ?c then 1 else 0)"
    proof
      fix x
      have "closes_of x i s \<le> (if c_closed c then 1 else 0)" using ok by (simp add: conn_ok_def)
      moreover have "closes_of x i ?t = closes_of x i s + count_list news (OnConnClosed x i)"
        by (simp add: closes_of_def t)
      ultimately show "closes_of x i ?t \<le> (if c_closed ?c then 1 else 0)"
        using closed_step[OF inv, of react e] count_reported[OF sub, of i x]
        by (cases "c_closed c") (simp_all add: news_def)
    qed
    have ex: "\<exists>es. created owner i es ?c \<and> (case map_of (sv_handling s) i of
           Some rest \<Rightarrow> quiet ?c \<and> distinct (es @ rest) \<and> setup_of i s = map (\<lambda>e. OnConnCreated e i) es
         | None \<Rightarrow> setup_of i s = map (\<lambda>e. OnConnCreated e i) es @ [ConnStart i])"
    proof -
      from ok obtain es where es: "created owner i es c" and h: "case map_of (sv_handling s) i of
           Some rest \<Rightarrow> quiet c \<and> distinct (es @ rest) \<and> setup_of i s = map (\<lambda>e. OnConnCreated e i) es
         | None \<Rightarrow> setup_of i s = map (\<lambda>e. OnConnCreated e i) es @ [ConnStart i]"
        unfolding conn_ok_def by blast
      have "created owner i es ?c" using es linked_step[OF inv] by (auto simp: created_def)
      moreover have "quiet c \<Longrightarrow> quiet ?c" using quiet_step assms(2) by auto
      ultimately show ?thesis using h by (intro exI[of _ es]) (cases "map_of (sv_handling s) i"; simp)
    qed
    have f: "sv_conns ?t i = Some ?c" "sv_handling ?t = sv_handling s" "sv_next ?t = sv_next s" by (simp_all add: t)
    show ?thesis using i cl ex tcp_inv_step[OF inv] unfolding True slot_ok_def conn_ok_def su f by simp
  next
    case False
    from server_slot[OF assms(1)] show ?thesis
      by (rule slot_ok_cong) (use False su count_other[OF False] in \<open>simp_all add: closes_of_def t news_def\<close>)
  qed
  moreover have "sv_conns ?t j = None \<longleftrightarrow> sv_conns s j = None" for j using Some by (simp add: t)
  ultimately show ?thesis using assms(1) by (simp add: server_ok_def) (simp add: t)
qed

lemma server_ok_step: "server_ok owner s \<Longrightarrow> server_ok owner (server_step owner react s e)"
  by (cases e) (simp_all add: server_ok_subscribe server_ok_unsubscribe server_ok_accept server_ok_handler
      server_ok_conn_event sv_start_def sv_stop_def server_ok_start_accept server_ok_pools)

interpretation srv: event_machine tcp_server_new "server_step owner react" "server_ok owner"
  by unfold_locales (auto intro: server_ok_init server_ok_step)

text \<open>The accepts outstanding or being handled: each gives way to exactly one other.\<close>

definition accept_loops :: "'l tcp_server \<Rightarrow> nat" where
  "accept_loops s = length (sv_accepting s) + length (sv_handling s)"

lemma length_alist_update: "map_of al k \<noteq> None \<Longrightarrow> length (AList.update k v al) = length al"
  by (induction al) auto

lemma length_alist_delete:
  "distinct (map fst al) \<Longrightarrow> map_of al k \<noteq> None \<Longrightarrow> Suc (length (AList.delete k al)) = length al"
  by (induction al) (auto simp: map_of_eq_None_iff delete_id, metis fst_conv image_eqI)

lemma accept_loops_step:
  assumes "server_ok owner s"
  shows "accept_loops (server_step owner react s e) = accept_loops s + (if e = StartServer then 1 else 0)"
proof (cases e)
  case (AcceptDone i error)
  have "i \<in> set (sv_accepting s) \<Longrightarrow> 1 \<le> length (sv_accepting s)" by (cases "sv_accepting s") auto
  then show ?thesis using AcceptDone
    by (auto simp: accept_loops_def handle_accept_def start_accept_def length_remove1 Let_def simp del: One_nat_def)
next
  case (HandlerStep i)
  have "distinct (map fst (sv_handling s))" using assms by (simp add: server_ok_def)
  from length_alist_delete[OF this, of i] show ?thesis using HandlerStep length_alist_update[of "sv_handling s" i]
    by (auto simp: accept_loops_def handler_step_def notify_created_def accept_start_def start_accept_def
        split: option.split list.split)
next
  case (ConnEvent i k)
  then show ?thesis
    by (auto simp: accept_loops_def sv_conn_event_def notify_on_closed_def Let_def split: option.split)
qed (simp_all add: accept_loops_def sv_subscribe_def sv_unsubscribe_def sv_start_def sv_stop_def start_accept_def)

lemma accept_loops_run:
  "server_ok owner s \<Longrightarrow>
    accept_loops (run_events (server_step owner react) s es) = accept_loops s + count_list es StartServer"
  by (induction es arbitrary: s) (auto simp: accept_loops_step server_ok_step)

subsection \<open>Properties\<close>





text \<open>C16. The server accepts for ever and reports each end once: after any run there are as many
  accepts outstanding or being handled as \<open>start\<close> was called, whether accepts succeeded or
  failed; a subscriber is told of the end of a connection at most once, and only when the
  connection was accepted and is closed.\<close>

theorem accepts_go_on:
  "let s = run_events (server_step owner react) tcp_server_new es in
     accept_loops s = count_list es StartServer \<and>
     closes_of e i s \<le> 1 \<and>
     (closes_of e i s = 0 \<or> (case sv_conns s i of None \<Rightarrow> False | Some c \<Rightarrow> c_closed c))"
proof -
  let ?s = "run_events (server_step owner react) tcp_server_new es"
  have ok: "server_ok owner ?s" by (rule srv.ok_run)
  have "accept_loops ?s = count_list es StartServer"
    using accept_loops_run[OF server_ok_init] by (simp add: accept_loops_def tcp_server_new_def)
  moreover have "closes_of e i ?s \<le> 1 \<and>
     (closes_of e i ?s = 0 \<or> (case sv_conns ?s i of None \<Rightarrow> False | Some c \<Rightarrow> c_closed c))"
  proof (cases "sv_conns ?s i")
    case None
    then show ?thesis using unaccepted_clean[OF ok None] by simp
  next
    case (Some c)
    then have "closes_of e i ?s \<le> (if c_closed c then 1 else 0)" using accepted_below[OF ok Some] by (simp add: conn_ok_def)
    then show ?thesis using Some by (cases "c_closed c") simp_all
  qed
  ultimately show ?thesis by (simp add: Let_def)
qed

end
