(* ===== verification/Send_Reservation.thy ===== *)
theory Send_Reservation
  imports Tcp_Connection
begin

text \<open>
  \<open>reserve_send_bytes\<close> and \<open>release_send_bytes\<close> of \<open>tcp_connection.hpp\<close> under any
  interleaving of threads. Every step is one atomic access to \<open>pending_send_bytes_\<close> or
  \<open>send_overflowed_\<close>; a thread's program counter carries its local variables. The weak
  compare-exchange may fail for no reason.
\<close>

datatype reserver =
    Entering size_t
  | Checked size_t
  | Loaded size_t size_t
  | Swapped size_t
  | Undoing size_t
  | Holding size_t
  | Refused
  | Finished

record reservation =
  limit :: size_t
  pending :: size_t
  overflowed :: bool
  threads :: "reserver list"

definition set_thread :: "nat \<Rightarrow> reserver \<Rightarrow> reservation \<Rightarrow> reservation" where
  "set_thread i t s = s\<lparr>threads := (threads s)[i := t]\<rparr>"

definition admissible :: "size_t \<Rightarrow> size_t \<Rightarrow> reservation \<Rightarrow> bool" where
  "admissible n p s \<longleftrightarrow> n \<le> limit s \<and> p \<le> limit s - n"

inductive reserve_step :: "reservation \<Rightarrow> reservation \<Rightarrow> bool" where
  enter_overflowed: "\<lbrakk>i < length (threads s); threads s ! i = Entering n; overflowed s\<rbrakk>
     \<Longrightarrow> reserve_step s (set_thread i Refused s)"
| enter: "\<lbrakk>i < length (threads s); threads s ! i = Entering n; \<not> overflowed s\<rbrakk>
     \<Longrightarrow> reserve_step s (set_thread i (Checked n) s)"
| load: "\<lbrakk>i < length (threads s); threads s ! i = Checked n\<rbrakk>
     \<Longrightarrow> reserve_step s (set_thread i (Loaded n (pending s)) s)"
| no_room: "\<lbrakk>i < length (threads s); threads s ! i = Loaded n p; \<not> admissible n p s\<rbrakk>
     \<Longrightarrow> reserve_step s (set_thread i Refused s)"
| exchange: "\<lbrakk>i < length (threads s); threads s ! i = Loaded n p; admissible n p s; pending s = p\<rbrakk>
     \<Longrightarrow> reserve_step s (set_thread i (Swapped n) (s\<lparr>pending := p + n\<rparr>))"
| exchange_failed: "\<lbrakk>i < length (threads s); threads s ! i = Loaded n p; admissible n p s\<rbrakk>
     \<Longrightarrow> reserve_step s (set_thread i (Loaded n (pending s)) s)"
| reserved: "\<lbrakk>i < length (threads s); threads s ! i = Swapped n; \<not> overflowed s\<rbrakk>
     \<Longrightarrow> reserve_step s (set_thread i (Holding n) s)"
| late_overflow: "\<lbrakk>i < length (threads s); threads s ! i = Swapped n; overflowed s\<rbrakk>
     \<Longrightarrow> reserve_step s (set_thread i (Undoing n) s)"
| undo: "\<lbrakk>i < length (threads s); threads s ! i = Undoing n\<rbrakk>
     \<Longrightarrow> reserve_step s (set_thread i Refused (s\<lparr>pending := pending s - n\<rparr>))"
| refuse: "\<lbrakk>i < length (threads s); threads s ! i = Refused\<rbrakk>
     \<Longrightarrow> reserve_step s (set_thread i Finished (s\<lparr>overflowed := True\<rparr>))"
| release: "\<lbrakk>i < length (threads s); threads s ! i = Holding n\<rbrakk>
     \<Longrightarrow> reserve_step s (set_thread i Finished (s\<lparr>pending := pending s - n\<rparr>))"

inductive_cases reserve_stepE: "reserve_step s s'"

definition reserve_start :: "size_t \<Rightarrow> size_t list \<Rightarrow> reservation" where
  "reserve_start m ns = \<lparr>limit = m, pending = 0, overflowed = False, threads = map Entering ns\<rparr>"

text \<open>The bytes a thread has added to the counter and not taken back.\<close>

fun held :: "reserver \<Rightarrow> nat" where
  "held (Swapped n) = unat n"
| "held (Undoing n) = unat n"
| "held (Holding n) = unat n"
| "held _ = 0"

definition total_held :: "reservation \<Rightarrow> nat" where
  "total_held s = sum_list (map held (threads s))"

definition reserve_inv :: "reservation \<Rightarrow> bool" where
  "reserve_inv s \<longleftrightarrow> pending s = of_nat (total_held s) \<and> total_held s \<le> unat (limit s)"

lemma sum_list_update_nat:
  "i < length xs \<Longrightarrow> sum_list (map f (xs[i := x])) + f (xs ! i) = sum_list (map f xs) + (f x :: nat)"
  by (induction xs arbitrary: i) (auto split: nat.split)

lemma total_held_set:
  "i < length (threads s) \<Longrightarrow> total_held (set_thread i t s) + held (threads s ! i) = total_held s + held t"
  by (simp add: total_held_def set_thread_def sum_list_update_nat)

lemma set_thread_fields [simp]:
  "limit (set_thread i t s) = limit s" "pending (set_thread i t s) = pending s"
  "overflowed (set_thread i t s) = overflowed s"
  by (simp_all add: set_thread_def)

lemma total_held_fields [simp]:
  "total_held (s\<lparr>pending := p\<rparr>) = total_held s" "total_held (s\<lparr>overflowed := b\<rparr>) = total_held s"
  by (simp_all add: total_held_def)

lemma pending_unat:
  assumes "reserve_inv s"
  shows "unat (pending s) = total_held s"
proof -
  have "unat (limit s) < 2 ^ LENGTH(64)" by (rule unsigned_less)
  then have "total_held s < 2 ^ LENGTH(64)" using assms unfolding reserve_inv_def by linarith
  then show ?thesis using assms by (simp add: reserve_inv_def unat_of_nat)
qed

text \<open>Steps that leave the counter alone keep the invariant when the thread holds as much as
  before; the three that write it move the counter by what the thread gains or gives up.\<close>

lemma reserve_inv_move:
  assumes "reserve_inv s" and "i < length (threads s)" and "held t = held (threads s ! i)"
  shows "reserve_inv (set_thread i t s)"
  using assms total_held_set[OF assms(2), of t] by (simp add: reserve_inv_def)

lemma reserve_inv_give_up:
  assumes "reserve_inv s" and "i < length (threads s)" and "held (threads s ! i) = unat n" and "held t = 0"
  shows "reserve_inv (set_thread i t (s\<lparr>pending := pending s - n\<rparr>))"
proof -
  define s' where "s' = set_thread i t (s\<lparr>pending := pending s - n\<rparr>)"
  have t: "total_held s = total_held s' + unat n"
    using total_held_set[of i "s\<lparr>pending := pending s - n\<rparr>" t] assms(2-4) by (simp add: s'_def)
  have "pending s' = pending s - n" and "limit s' = limit s" by (simp_all add: s'_def)
  with t assms(1) have "reserve_inv s'" by (simp add: reserve_inv_def)
  then show ?thesis by (simp only: s'_def)
qed

lemma reserve_inv_exchange:
  assumes "reserve_inv s" and "i < length (threads s)" and "threads s ! i = Loaded n p"
    and "admissible n p s" and "pending s = p"
  shows "reserve_inv (set_thread i (Swapped n) (s\<lparr>pending := p + n\<rparr>))"
proof -
  have t: "total_held (set_thread i (Swapped n) (s\<lparr>pending := p + n\<rparr>)) = total_held s + unat n"
    using total_held_set[of i "s\<lparr>pending := p + n\<rparr>" "Swapped n"] assms(2,3) by simp
  have "total_held s + unat n \<le> unat (limit s)"
    using assms(4,5) pending_unat[OF assms(1)] unat_sub[of n "limit s"]
    unfolding admissible_def word_le_nat_alt by auto
  with t assms(1,5) show ?thesis by (simp add: reserve_inv_def)
qed

lemma reserve_inv_step: "reserve_step s s' \<Longrightarrow> reserve_inv s \<Longrightarrow> reserve_inv s'"
proof (induction rule: reserve_step.induct)
  case (refuse i s)
  then have "reserve_inv (set_thread i Finished s)" by (simp add: reserve_inv_move)
  then show ?case by (simp add: reserve_inv_def set_thread_def total_held_def)
qed (simp_all add: reserve_inv_move reserve_inv_give_up reserve_inv_exchange)

lemma held_start: "sum_list (map (held \<circ> Entering) ns) = 0"
  by (induction ns) simp_all

lemma reserve_inv_start: "reserve_inv (reserve_start m ns)"
  by (simp add: reserve_inv_def reserve_start_def total_held_def held_start)

lemma reserve_reachable:
  assumes "reserve_step\<^sup>*\<^sup>* (reserve_start m ns) s"
  shows "reserve_inv s" and "limit s = m"
proof -
  have "reserve_inv s \<and> limit s = m"
    using assms
  proof (induction rule: rtranclp_induct)
    case base
    then show ?case using reserve_inv_start[of m ns] by (simp add: reserve_start_def)
  next
    case (step s s')
    from step(2) have "limit s' = limit s" by (cases rule: reserve_step.cases) simp_all
    with step show ?case by (simp add: reserve_inv_step)
  qed
  then show "reserve_inv s" and "limit s = m" by simp_all
qed

text \<open>C13. Under every interleaving of senders the counter is exactly the bytes the threads
  hold, and the reservations together never exceed the limit; when every thread is through,
  the counter is back at zero.\<close>

theorem reservations_bounded:
  assumes "reserve_step\<^sup>*\<^sup>* (reserve_start m ns) s"
  shows "unat (pending s) = total_held s \<and> total_held s \<le> unat m \<and>
    (list_all (\<lambda>t. t = Finished) (threads s) \<longrightarrow> pending s = 0)"
proof -
  note r = reserve_reachable[OF assms]
  have "list_all (\<lambda>t. t = Finished) ts \<Longrightarrow> sum_list (map held ts) = 0" for ts
    by (induction ts) auto
  then have "list_all (\<lambda>t. t = Finished) (threads s) \<Longrightarrow> total_held s = 0"
    by (simp only: total_held_def)
  with r pending_unat[OF r(1)] show ?thesis by (auto simp: reserve_inv_def)
qed

theorem reservations_bounded_witness:
  "unat (pending \<lparr>limit = 5, pending = 3, overflowed = False, threads = [Swapped 3, Loaded 4 0]\<rparr>) = 3 \<and>
   total_held \<lparr>limit = 5, pending = 3, overflowed = False, threads = [Swapped 3, Loaded 4 0]\<rparr> \<le> 5"
proof -
  let ?s0 = "reserve_start 5 [3, 4]"
  let ?s1 = "set_thread 1 (Checked 4) ?s0"
  let ?s2 = "set_thread 1 (Loaded 4 0) ?s1"
  let ?s3 = "set_thread 0 (Checked 3) ?s2"
  let ?s4 = "set_thread 0 (Loaded 3 0) ?s3"
  let ?s5 = "set_thread 0 (Swapped 3) (?s4\<lparr>pending := 0 + 3\<rparr>)"
  have "reserve_step ?s0 ?s1" by (rule enter) (simp_all add: reserve_start_def)
  moreover have "reserve_step ?s1 ?s2"
    using load[of 1 ?s1 4] by (simp add: reserve_start_def set_thread_def)
  moreover have "reserve_step ?s2 ?s3"
    by (rule enter) (simp_all add: reserve_start_def set_thread_def)
  moreover have "reserve_step ?s3 ?s4"
    using load[of 0 ?s3 3] by (simp add: reserve_start_def set_thread_def)
  moreover have "reserve_step ?s4 ?s5"
    by (rule exchange) (simp_all add: reserve_start_def set_thread_def admissible_def word_le_nat_alt)
  ultimately have "reserve_step\<^sup>*\<^sup>* ?s0 ?s5"
    by (meson converse_rtranclp_into_rtranclp rtranclp.rtrancl_refl)
  from reservations_bounded[OF this] show ?thesis by (simp add: reserve_start_def set_thread_def total_held_def)
qed

end
