(* ===== verification/Zmq_Channels.thy ===== *)
theory Zmq_Channels
  imports Rsp_Prelude
begin

text \<open>
  The ZeroMQ channels of \<open>routed_channel.cpp\<close> and \<open>event_channel.cpp\<close>: dealer, router,
  event publisher, event subscriber and event broker. Each owns a thread with the same
  life cycle and a queue that other threads fill under a mutex. ZeroMQ itself is outside:
  an event of a run says what the socket operation the thread has reached came to. What is
  kept of a socket is the sequence of calls made on it.
\<close>

subsection \<open>The thread of a channel\<close>

text \<open>
  \<open>Exited\<close> is a thread whose \<open>run\<close> has returned and that nobody has joined; \<open>SettingUp\<close>
  is one whose \<open>start\<close> still waits for its promise. \<open>terminated\<close> is \<open>std::terminate\<close>,
  which assigning to a joinable \<open>std::thread\<close> calls. \<open>start_results\<close> records how the calls
  of \<open>start\<close> that launched a thread ended: \<open>False\<close> when they rethrew.
\<close>

datatype thread_state = NoThread | SettingUp | Looping | Exited

record worker =
  running :: bool
  thread :: thread_state
  terminated :: bool
  start_results :: "bool list"

text \<open>The assignment to \<open>thread_\<close> in \<open>start\<close>, after \<open>running_.exchange(true)\<close>.\<close>

definition worker_spawn :: "'a worker_scheme \<Rightarrow> 'a worker_scheme" where
  "worker_spawn w =
     (if thread w \<noteq> NoThread then w\<lparr>running := True, terminated := True\<rparr>
      else w\<lparr>running := True, thread := SettingUp\<rparr>)"

text \<open>\<open>ready.set_value()\<close>; the \<open>catch\<close> of \<open>run\<close> before it, which makes \<open>start\<close> join and
  rethrow; and the same \<open>catch\<close> once the promise is satisfied.\<close>

definition worker_ready :: "'a worker_scheme \<Rightarrow> 'a worker_scheme" where
  "worker_ready w = w\<lparr>thread := Looping, start_results := start_results w @ [True]\<rparr>"

definition worker_setup_failed :: "'a worker_scheme \<Rightarrow> 'a worker_scheme" where
  "worker_setup_failed w =
     w\<lparr>running := False, thread := NoThread, start_results := start_results w @ [False]\<rparr>"

definition worker_failed :: "'a worker_scheme \<Rightarrow> 'a worker_scheme" where
  "worker_failed w = w\<lparr>running := False, thread := Exited\<rparr>"

text \<open>\<open>stop\<close> clears \<open>running_\<close> and then waits until it can join.\<close>

definition worker_stop :: "'a worker_scheme \<Rightarrow> 'a worker_scheme" where
  "worker_stop w = w\<lparr>running := False\<rparr>"

definition worker_join :: "'a worker_scheme \<Rightarrow> 'a worker_scheme" where
  "worker_join w = (if thread w = Exited then w\<lparr>thread := NoThread\<rparr> else w)"

lemmas worker_defs = worker_spawn_def worker_ready_def worker_setup_failed_def worker_failed_def
  worker_stop_def worker_join_def

subsection \<open>Channels that send\<close>

text \<open>
  Where the loop of \<open>run\<close> stands: at its condition, in the loop of \<open>send_pending\<close> with the
  messages it has still to send, or at the poll. \<open>accepted\<close> lists every message given to
  the channel, \<open>resolved\<close> every message \<open>send_pending\<close> is done with and whether the socket
  took it; \<open>delivered\<close> the arguments the handler was called with.
\<close>

datatype 'm loop_pc = Top | Sending "'m list" | Polling

record ('m, 'r) channel = worker +
  handler :: bool
  outgoing :: "'m list"
  pc :: "'m loop_pc"
  accepted :: "'m list"
  resolved :: "('m \<times> bool) list"
  delivered :: "'r list"

definition channel_create :: "('m, 'r) channel" where
  "channel_create =
     \<lparr>running = False, thread = NoThread, terminated = False, start_results = [], handler = False,
      outgoing = [], pc = Top, accepted = [], resolved = [], delivered = []\<rparr>"

text \<open>
  The outcome of the socket operation a thread is at: it threw, it went through (a poll:
  nothing to read), or it received frames.
\<close>

datatype 'f io_result = Io_fail | Io_ok | Io_frames 'f

datatype ('m, 'f) channel_event = Start bool | Stop | Join | Send 'm | Run "'f io_result"

definition to_buffer :: "raw_buffer \<Rightarrow> raw_buffer" where
  "to_buffer message = message"

definition to_string :: "raw_buffer \<Rightarrow> string" where
  "to_string frame = map (\<lambda>b. char_of (unat b)) frame"

definition push_outgoing :: "'m \<Rightarrow> ('m, 'r) channel \<Rightarrow> ('m, 'r) channel" where
  "push_outgoing m c = c\<lparr>outgoing := outgoing c @ [m], accepted := accepted c @ [m]\<rparr>"

definition swap_outgoing :: "('m, 'r) channel \<Rightarrow> ('m, 'r) channel" where
  "swap_outgoing c = c\<lparr>pc := Sending (outgoing c), outgoing := []\<rparr>"

text \<open>The loop's condition, with the swap that opens \<open>send_pending\<close>.\<close>

definition loop_top :: "('m, 'r) channel \<Rightarrow> ('m, 'r) channel" where
  "loop_top c = (if running c then swap_outgoing c else c\<lparr>thread := Exited\<rparr>)"

definition resolve :: "bool \<Rightarrow> 'm list \<Rightarrow> ('m, 'r) channel \<Rightarrow> ('m, 'r) channel" where
  "resolve ok ms c = c\<lparr>resolved := resolved c @ map (\<lambda>m. (m, ok)) ms\<rparr>"

subsubsection \<open>Dealer\<close>

definition dealer_start :: "bool \<Rightarrow> (raw_buffer, raw_buffer) channel \<Rightarrow> (raw_buffer, raw_buffer) channel" where
  "dealer_start h c = (if running c then c else worker_spawn (c\<lparr>handler := h\<rparr>))"

definition dealer_stop :: "(raw_buffer, raw_buffer) channel \<Rightarrow> (raw_buffer, raw_buffer) channel" where
  "dealer_stop c = worker_stop c"

definition dealer_send :: "raw_buffer \<Rightarrow> (raw_buffer, raw_buffer) channel \<Rightarrow> (raw_buffer, raw_buffer) channel" where
  "dealer_send m c = push_outgoing m c"

text \<open>One turn of the loop of \<open>send_pending\<close>: an exception leaves \<open>run\<close> with what is left.\<close>

fun dealer_send_pending ::
  "raw_buffer io_result \<Rightarrow> raw_buffer list \<Rightarrow> (raw_buffer, raw_buffer) channel \<Rightarrow> (raw_buffer, raw_buffer) channel" where
  "dealer_send_pending r [] c = c\<lparr>pc := Polling\<rparr>"
| "dealer_send_pending Io_fail (m # ms) c = worker_failed (resolve False (m # ms) (c\<lparr>pc := Top\<rparr>))"
| "dealer_send_pending _ (m # ms) c = resolve True [m] (c\<lparr>pc := Sending ms\<rparr>)"

definition dealer_run :: "raw_buffer io_result \<Rightarrow> (raw_buffer, raw_buffer) channel \<Rightarrow> (raw_buffer, raw_buffer) channel" where
  "dealer_run r c =
     (case thread c of
        SettingUp \<Rightarrow> (case r of Io_fail \<Rightarrow> worker_setup_failed c | _ \<Rightarrow> worker_ready c)
      | Looping \<Rightarrow>
          (case pc c of
             Top \<Rightarrow> loop_top c
           | Sending ms \<Rightarrow> dealer_send_pending r ms c
           | Polling \<Rightarrow>
               (case r of
                  Io_fail \<Rightarrow> worker_failed (c\<lparr>pc := Top\<rparr>)
                | Io_ok \<Rightarrow> c\<lparr>pc := Top\<rparr>
                | Io_frames message \<Rightarrow>
                    (let c = c\<lparr>pc := Top\<rparr>
                     in if handler c then c\<lparr>delivered := delivered c @ [to_buffer message]\<rparr> else c)))
      | _ \<Rightarrow> c)"

fun dealer_step ::
  "(raw_buffer, raw_buffer) channel \<Rightarrow> (raw_buffer, raw_buffer) channel_event \<Rightarrow> (raw_buffer, raw_buffer) channel" where
  "dealer_step c e =
     (if terminated c then c
      else case e of Start h \<Rightarrow> dealer_start h c | Stop \<Rightarrow> dealer_stop c | Join \<Rightarrow> worker_join c
        | Send m \<Rightarrow> dealer_send m c | Run r \<Rightarrow> dealer_run r c)"

subsubsection \<open>Router\<close>

type_synonym routed = "RoutingId \<times> raw_buffer"

definition router_start :: "bool \<Rightarrow> (routed, routed) channel \<Rightarrow> (routed, routed) channel" where
  "router_start h c = (if running c then c else worker_spawn (c\<lparr>handler := h\<rparr>))"

definition router_stop :: "(routed, routed) channel \<Rightarrow> (routed, routed) channel" where
  "router_stop c = worker_stop c"

definition router_wait :: "(routed, routed) channel \<Rightarrow> (routed, routed) channel" where
  "router_wait c = worker_join c"

definition router_send :: "RoutingId \<Rightarrow> raw_buffer \<Rightarrow> (routed, routed) channel \<Rightarrow> (routed, routed) channel" where
  "router_send destination m c = push_outgoing (destination, m) c"

text \<open>A message that cannot be routed is logged and skipped.\<close>

fun router_send_pending ::
  "raw_buffer list io_result \<Rightarrow> routed list \<Rightarrow> (routed, routed) channel \<Rightarrow> (routed, routed) channel" where
  "router_send_pending r [] c = c\<lparr>pc := Polling\<rparr>"
| "router_send_pending r (m # ms) c = resolve (r \<noteq> Io_fail) [m] (c\<lparr>pc := Sending ms\<rparr>)"

text \<open>Only a message of two frames, sender and payload, reaches the handler.\<close>

fun router_receive :: "raw_buffer list \<Rightarrow> (routed, routed) channel \<Rightarrow> (routed, routed) channel" where
  "router_receive [sender, payload] c =
     (if handler c then c\<lparr>delivered := delivered c @ [(to_string sender, to_buffer payload)]\<rparr> else c)"
| "router_receive _ c = c"

definition router_run :: "raw_buffer list io_result \<Rightarrow> (routed, routed) channel \<Rightarrow> (routed, routed) channel" where
  "router_run r c =
     (case thread c of
        SettingUp \<Rightarrow> (case r of Io_fail \<Rightarrow> worker_setup_failed c | _ \<Rightarrow> worker_ready c)
      | Looping \<Rightarrow>
          (case pc c of
             Top \<Rightarrow> loop_top c
           | Sending ms \<Rightarrow> router_send_pending r ms c
           | Polling \<Rightarrow>
               (case r of
                  Io_fail \<Rightarrow> worker_failed (c\<lparr>pc := Top\<rparr>)
                | Io_ok \<Rightarrow> c\<lparr>pc := Top\<rparr>
                | Io_frames frames \<Rightarrow> router_receive frames (c\<lparr>pc := Top\<rparr>)))
      | _ \<Rightarrow> c)"

fun router_step ::
  "(routed, routed) channel \<Rightarrow> (routed, raw_buffer list) channel_event \<Rightarrow> (routed, routed) channel" where
  "router_step c e =
     (if terminated c then c
      else case e of Start h \<Rightarrow> router_start h c | Stop \<Rightarrow> router_stop c | Join \<Rightarrow> router_wait c
        | Send m \<Rightarrow> router_send (fst m) (snd m) c | Run r \<Rightarrow> router_run r c)"

subsubsection \<open>Publisher\<close>

type_synonym event_topic = string
type_synonym outgoing_event = "event_topic \<times> raw_buffer"

definition publisher_start :: "(outgoing_event, unit) channel \<Rightarrow> (outgoing_event, unit) channel" where
  "publisher_start c = (if running c then c else worker_spawn c)"

definition publisher_stop :: "(outgoing_event, unit) channel \<Rightarrow> (outgoing_event, unit) channel" where
  "publisher_stop c = worker_stop c"

definition publish :: "event_topic \<Rightarrow> raw_buffer \<Rightarrow> (outgoing_event, unit) channel \<Rightarrow> (outgoing_event, unit) channel" where
  "publish topic payload c = push_outgoing (topic, payload) c"

fun publish_pending ::
  "unit io_result \<Rightarrow> outgoing_event list \<Rightarrow> (outgoing_event, unit) channel \<Rightarrow> (outgoing_event, unit) channel" where
  "publish_pending r [] c = c\<lparr>pc := Polling\<rparr>"
| "publish_pending Io_fail (m # ms) c = worker_failed (resolve False (m # ms) (c\<lparr>pc := Top\<rparr>))"
| "publish_pending _ (m # ms) c = resolve True [m] (c\<lparr>pc := Sending ms\<rparr>)"

text \<open>A publisher sleeps where the others poll.\<close>

definition publisher_run :: "unit io_result \<Rightarrow> (outgoing_event, unit) channel \<Rightarrow> (outgoing_event, unit) channel" where
  "publisher_run r c =
     (case thread c of
        SettingUp \<Rightarrow> (case r of Io_fail \<Rightarrow> worker_setup_failed c | _ \<Rightarrow> worker_ready c)
      | Looping \<Rightarrow>
          (case pc c of
             Top \<Rightarrow> loop_top c
           | Sending ms \<Rightarrow> publish_pending r ms c
           | Polling \<Rightarrow> c\<lparr>pc := Top\<rparr>)
      | _ \<Rightarrow> c)"

fun publisher_step ::
  "(outgoing_event, unit) channel \<Rightarrow> (outgoing_event, unit) channel_event \<Rightarrow> (outgoing_event, unit) channel" where
  "publisher_step c e =
     (if terminated c then c
      else case e of Start h \<Rightarrow> publisher_start c | Stop \<Rightarrow> publisher_stop c | Join \<Rightarrow> worker_join c
        | Send m \<Rightarrow> publish (fst m) (snd m) c | Run r \<Rightarrow> publisher_run r c)"

subsection \<open>The contract of a sending channel\<close>

fun in_flight :: "'m loop_pc \<Rightarrow> 'm list" where
  "in_flight (Sending ms) = ms"
| "in_flight _ = []"

definition channel_inv :: "('m, 'r) channel \<Rightarrow> bool" where
  "channel_inv c \<longleftrightarrow>
     map fst (resolved c) @ in_flight (pc c) @ outgoing c = accepted c \<and>
     (thread c \<noteq> Looping \<longrightarrow> pc c = Top)"

fun sent_by :: "('m, 'f) channel_event \<Rightarrow> 'm list" where
  "sent_by (Send m) = [m]"
| "sent_by _ = []"

definition all_taken :: "('m, 'r) channel \<Rightarrow> bool" where
  "all_taken c \<longleftrightarrow> list_all snd (resolved c)"

locale sending_channel =
  fixes step :: "('m, 'r) channel \<Rightarrow> ('m, 'f) channel_event \<Rightarrow> ('m, 'r) channel"
  assumes step_inv: "channel_inv c \<Longrightarrow> channel_inv (step c e)"
    and step_terminated: "terminated c \<Longrightarrow> terminated (step c e)"
    and step_accepts: "\<not> terminated c \<Longrightarrow> accepted (step c e) = accepted c @ sent_by e"
    and step_takes: "e \<noteq> Run Io_fail \<Longrightarrow> all_taken c \<Longrightarrow> all_taken (step c e)"

sublocale sending_channel \<subseteq> event_machine channel_create step channel_inv
  by unfold_locales (simp add: channel_inv_def channel_create_def, rule step_inv)

context sending_channel
begin

lemma accepted_run:
  "\<not> terminated (run_events step c es) \<Longrightarrow> accepted (run_events step c es) = accepted c @ concat (map sent_by es)"
proof (induction es rule: rev_induct)
  case (snoc e es)
  then have "\<not> terminated (run_events step c es)" using step_terminated by auto
  with snoc show ?case by (simp add: step_accepts)
qed simp

lemma taken_run:
  "Run Io_fail \<notin> set es \<Longrightarrow> all_taken c \<Longrightarrow> all_taken (run_events step c es)"
  by (induction es arbitrary: c) (auto simp: step_takes)

lemma fifo:
  assumes "\<not> terminated (run_events step channel_create es)"
  shows "map fst (resolved (run_events step channel_create es)) @
      in_flight (pc (run_events step channel_create es)) @ outgoing (run_events step channel_create es) =
    concat (map sent_by es)"
  using ok_run[of es] accepted_run[OF assms] by (simp add: channel_inv_def channel_create_def)

lemma taken: "Run Io_fail \<notin> set es \<Longrightarrow> all_taken (run_events step channel_create es)"
  by (rule taken_run) (simp_all add: all_taken_def channel_create_def)

end

lemmas channel_defs = worker_defs push_outgoing_def swap_outgoing_def loop_top_def resolve_def
lemmas channel_splits = thread_state.splits loop_pc.splits io_result.splits channel_event.splits if_splits list.splits

lemma dealer_send_pending_cases:
  "dealer_send_pending r ms c =
     (case ms of [] \<Rightarrow> c\<lparr>pc := Polling\<rparr>
      | m # ms \<Rightarrow> if r = Io_fail then worker_failed (resolve False (m # ms) (c\<lparr>pc := Top\<rparr>))
          else resolve True [m] (c\<lparr>pc := Sending ms\<rparr>))"
  by (cases "(r, ms, c)" rule: dealer_send_pending.cases) simp_all

lemma publish_pending_cases:
  "publish_pending r ms c =
     (case ms of [] \<Rightarrow> c\<lparr>pc := Polling\<rparr>
      | m # ms \<Rightarrow> if r = Io_fail then worker_failed (resolve False (m # ms) (c\<lparr>pc := Top\<rparr>))
          else resolve True [m] (c\<lparr>pc := Sending ms\<rparr>))"
  by (cases "(r, ms, c)" rule: publish_pending.cases) simp_all

lemma router_send_pending_cases:
  "router_send_pending r ms c =
     (case ms of [] \<Rightarrow> c\<lparr>pc := Polling\<rparr> | m # ms \<Rightarrow> resolve (r \<noteq> Io_fail) [m] (c\<lparr>pc := Sending ms\<rparr>))"
  by (cases ms) simp_all

lemma router_receive_delivers:
  "router_receive frames c = c\<lparr>delivered := delivered (router_receive frames c)\<rparr>"
  by (cases "(frames, c)" rule: router_receive.cases) simp_all

lemma router_receive_fields [simp]:
  "terminated (router_receive frames c) = terminated c" "thread (router_receive frames c) = thread c"
  "running (router_receive frames c) = running c" "outgoing (router_receive frames c) = outgoing c"
  "pc (router_receive frames c) = pc c" "accepted (router_receive frames c) = accepted c"
  "resolved (router_receive frames c) = resolved c"
  by (subst router_receive_delivers, simp)+

lemmas dealer_defs = dealer_start_def dealer_stop_def dealer_send_def dealer_run_def dealer_send_pending_cases
lemmas router_defs = router_start_def router_stop_def router_wait_def router_send_def router_run_def
  router_send_pending_cases
lemmas publisher_defs = publisher_start_def publisher_stop_def publish_def publisher_run_def publish_pending_cases

interpretation dealer: sending_channel dealer_step
  by unfold_locales
    (auto simp: dealer_defs channel_defs channel_inv_def all_taken_def Let_def comp_def split: channel_splits)

interpretation router: sending_channel router_step
  by unfold_locales
    (auto simp: router_defs channel_defs channel_inv_def all_taken_def Let_def comp_def split: channel_splits)

interpretation publisher: sending_channel publisher_step
  by unfold_locales
    (auto simp: publisher_defs channel_defs channel_inv_def all_taken_def Let_def comp_def split: channel_splits)

definition fifo_ok :: "('m, 'f) channel_event list \<Rightarrow> ('m, 'r) channel \<Rightarrow> bool" where
  "fifo_ok es c \<longleftrightarrow>
     terminated c \<or>
     (map fst (resolved c) @ in_flight (pc c) @ outgoing c = concat (map sent_by es) \<and>
      (Run Io_fail \<in> set es \<or> list_all snd (resolved c)))"

text \<open>C22. Whatever the threads and the socket do, dealers, routers and publishers send in order:
  what a channel is done with, what it is sending and what it has queued are together the
  messages it was given, in the order given, and it drops none unless a socket operation
  failed.\<close>

theorem channels_fifo:
  "fifo_ok ds (run_events dealer_step channel_create ds) \<and>
   fifo_ok rs (run_events router_step channel_create rs) \<and>
   fifo_ok ps (run_events publisher_step channel_create ps)"
  using dealer.fifo[of ds] dealer.taken[of ds] router.fifo[of rs] router.taken[of rs]
    publisher.fifo[of ps] publisher.taken[of ps]
  unfolding fifo_ok_def all_taken_def by blast

subsubsection \<open>A turn of the loop\<close>

lemma router_sending_run:
  "\<lbrakk>\<not> terminated c; thread c = Looping; pc c = Sending ms; length os = length ms\<rbrakk>
   \<Longrightarrow> run_events router_step c (map Run os) =
     c\<lparr>pc := Sending [], resolved := resolved c @ zip ms (map (\<lambda>r. r \<noteq> Io_fail) os)\<rparr>"
proof (induction ms arbitrary: c os)
  case (Cons m ms)
  from Cons.prems(4) obtain r os' where os: "os = r # os'" "length os' = length ms" by (cases os) auto
  let ?c = "resolve (r \<noteq> Io_fail) [m] (c\<lparr>pc := Sending ms\<rparr>)"
  have "router_step c (Run r) = ?c" using Cons.prems by (simp add: router_run_def)
  moreover have "run_events router_step ?c (map Run os') =
      ?c\<lparr>pc := Sending [], resolved := resolved ?c @ zip ms (map (\<lambda>r. r \<noteq> Io_fail) os')\<rparr>"
    by (rule Cons.IH) (use Cons.prems os in \<open>simp_all add: resolve_def\<close>)
  ultimately show ?case using os by (simp add: resolve_def del: router_step.simps)
qed simp

text \<open>C23. An unroutable message costs only itself: in one turn of its loop a running router
  offers every queued message to the socket, in order, drops exactly those the socket refuses
  and goes on to poll.\<close>

theorem router_isolates_failures:
  assumes "\<not> terminated c" and "thread c = Looping" and "running c" and "pc c = Top"
    and "length os = length (outgoing c)"
  shows "run_events router_step c (Run r # map Run os @ [Run r']) =
    c\<lparr>pc := Polling, outgoing := [],
      resolved := resolved c @ zip (outgoing c) (map (\<lambda>r. r \<noteq> Io_fail) os)\<rparr>"
proof -
  have "router_step c (Run r) = swap_outgoing c"
    using assms by (simp add: router_run_def loop_top_def)
  moreover have "run_events router_step (swap_outgoing c) (map Run os) =
      (swap_outgoing c)\<lparr>pc := Sending [],
        resolved := resolved (swap_outgoing c) @ zip (outgoing c) (map (\<lambda>r. r \<noteq> Io_fail) os)\<rparr>"
    by (rule router_sending_run) (use assms in \<open>simp_all add: swap_outgoing_def\<close>)
  ultimately show ?thesis using assms
    by (simp add: router_run_def swap_outgoing_def)
qed

theorem router_isolates_failures_witness:
  "run_events router_step
     (run_events router_step channel_create
        [Start True, Run Io_ok, Send (''a'', [1]), Send (''gone'', [2]), Send (''b'', [3])])
     (Run Io_ok # map Run [Io_ok, Io_fail, Io_ok] @ [Run Io_ok]) =
   \<lparr>running = True, thread = Looping, terminated = False, start_results = [True], handler = True,
    outgoing = [], pc = Polling,
    accepted = [(''a'', [1]), (''gone'', [2]), (''b'', [3])],
    resolved = [((''a'', [1]), True), ((''gone'', [2]), False), ((''b'', [3]), True)],
    delivered = []\<rparr>"
proof -
  let ?c = "run_events router_step channel_create
        [Start True, Run Io_ok, Send (''a'', [1]), Send (''gone'', [2]), Send (''b'', [3])]"
  have c: "?c = \<lparr>running = True, thread = Looping, terminated = False, start_results = [True],
      handler = True, outgoing = [(''a'', [1]), (''gone'', [2]), (''b'', [3])], pc = Top,
      accepted = [(''a'', [1]), (''gone'', [2]), (''b'', [3])], resolved = [], delivered = []\<rparr>"
    by (simp add: channel_create_def router_defs channel_defs)
  show ?thesis
    unfolding c by (subst router_isolates_failures) simp_all
qed

text \<open>A channel whose thread died of an exception is not running, so \<open>start\<close> launches a new
  thread; the old one was never joined, and assigning over it ends the process.\<close>

lemma restart_after_failure_terminates:
  "terminated (run_events dealer_step channel_create
     [Start True, Run Io_ok, Run Io_ok, Run Io_ok, Run Io_fail, Start True])"
  by (simp add: channel_create_def dealer_defs channel_defs)

lemma restart_after_stop:
  "let c = run_events dealer_step channel_create
     [Start True, Run Io_ok, Run Io_ok, Run Io_ok, Run Io_fail, Stop, Join, Start True, Run Io_ok]
   in \<not> terminated c \<and> thread c = Looping"
  by (simp add: channel_create_def dealer_defs channel_defs)

subsection \<open>Subscriber\<close>

text \<open>
  \<open>socket_ops\<close> are the subscription options set on the current socket, \<open>handed\<close> those set
  on any socket or lost when one of them threw, \<open>issued\<close> every change ever queued.
\<close>

datatype subscription_operation = kSubscribe | kUnsubscribe

type_synonym subscription_change = "subscription_operation \<times> event_topic"

datatype sub_pc = Sub_setup | Sub_top | Applying bool "subscription_change list" | Sub_polling

record subscriber = worker +
  s_handler :: bool
  subscriptions :: "event_topic set"
  subscription_changes :: "subscription_change list"
  s_pc :: sub_pc
  socket_ops :: "subscription_change list"
  handed :: "subscription_change list"
  issued :: "subscription_change list"
  events :: "(event_topic \<times> raw_buffer) list"

definition subscriber_create :: subscriber where
  "subscriber_create =
     \<lparr>running = False, thread = NoThread, terminated = False, start_results = [], s_handler = False,
      subscriptions = {}, subscription_changes = [], s_pc = Sub_setup, socket_ops = [], handed = [],
      issued = [], events = []\<rparr>"

definition queue_change :: "subscription_change \<Rightarrow> subscriber \<Rightarrow> subscriber" where
  "queue_change ch c =
     c\<lparr>subscription_changes := subscription_changes c @ [ch], issued := issued c @ [ch]\<rparr>"

definition subscribe :: "event_topic \<Rightarrow> subscriber \<Rightarrow> subscriber" where
  "subscribe prefix c =
     (if prefix \<in> subscriptions c then c
      else queue_change (kSubscribe, prefix) (c\<lparr>subscriptions := insert prefix (subscriptions c)\<rparr>))"

definition unsubscribe :: "event_topic \<Rightarrow> subscriber \<Rightarrow> subscriber" where
  "unsubscribe prefix c =
     (if prefix \<notin> subscriptions c then c
      else queue_change (kUnsubscribe, prefix) (c\<lparr>subscriptions := subscriptions c - {prefix}\<rparr>))"

definition subscriber_start :: "bool \<Rightarrow> subscriber \<Rightarrow> subscriber" where
  "subscriber_start h c = (if running c then c else worker_spawn (c\<lparr>s_handler := h\<rparr>))"

definition subscriber_stop :: "subscriber \<Rightarrow> subscriber" where
  "subscriber_stop c = worker_stop c"

text \<open>\<open>apply_subscription_changes\<close>: the swap, and one turn of its loop. The flag tells the call
  before \<open>ready.set_value()\<close> from the one in the loop.\<close>

definition swap_changes :: "bool \<Rightarrow> subscriber \<Rightarrow> subscriber" where
  "swap_changes setup c = c\<lparr>s_pc := Applying setup (subscription_changes c), subscription_changes := []\<rparr>"

definition subscriber_abort :: "bool \<Rightarrow> subscriber \<Rightarrow> subscriber" where
  "subscriber_abort setup c =
     (let c = c\<lparr>s_pc := Sub_setup\<rparr> in if setup then worker_setup_failed c else worker_failed c)"

fun apply_subscription_changes ::
  "'f io_result \<Rightarrow> bool \<Rightarrow> subscription_change list \<Rightarrow> subscriber \<Rightarrow> subscriber" where
  "apply_subscription_changes r setup [] c =
     (if setup then worker_ready (c\<lparr>s_pc := Sub_top\<rparr>) else c\<lparr>s_pc := Sub_polling\<rparr>)"
| "apply_subscription_changes r setup (ch # chs) c =
     (if r = Io_fail then subscriber_abort setup (c\<lparr>handed := handed c @ ch # chs\<rparr>)
      else c\<lparr>s_pc := Applying setup chs, socket_ops := socket_ops c @ [ch], handed := handed c @ [ch]\<rparr>)"

fun subscriber_receive :: "raw_buffer list \<Rightarrow> subscriber \<Rightarrow> subscriber" where
  "subscriber_receive [topic, payload] c =
     (if s_handler c then c\<lparr>events := events c @ [(to_string topic, to_buffer payload)]\<rparr> else c)"
| "subscriber_receive _ c = c"

definition subscriber_run :: "raw_buffer list io_result \<Rightarrow> subscriber \<Rightarrow> subscriber" where
  "subscriber_run r c =
     (if thread c = NoThread \<or> thread c = Exited then c
      else case s_pc c of
        Sub_setup \<Rightarrow>
          if r = Io_fail then subscriber_abort True c else swap_changes True (c\<lparr>socket_ops := []\<rparr>)
      | Sub_top \<Rightarrow>
          if running c then swap_changes False c else c\<lparr>thread := Exited, s_pc := Sub_setup\<rparr>
      | Applying setup chs \<Rightarrow> apply_subscription_changes r setup chs c
      | Sub_polling \<Rightarrow>
          (case r of
             Io_fail \<Rightarrow> subscriber_abort False c
           | Io_ok \<Rightarrow> c\<lparr>s_pc := Sub_top\<rparr>
           | Io_frames frames \<Rightarrow> subscriber_receive frames (c\<lparr>s_pc := Sub_top\<rparr>)))"

datatype subscriber_event =
    Sub_start bool | Sub_stop | Sub_join | Subscribe event_topic | Unsubscribe event_topic
  | Sub_run "raw_buffer list io_result"

fun subscriber_step :: "subscriber \<Rightarrow> subscriber_event \<Rightarrow> subscriber" where
  "subscriber_step c e =
     (if terminated c then c
      else case e of Sub_start h \<Rightarrow> subscriber_start h c | Sub_stop \<Rightarrow> subscriber_stop c
        | Sub_join \<Rightarrow> worker_join c | Subscribe p \<Rightarrow> subscribe p c | Unsubscribe p \<Rightarrow> unsubscribe p c
        | Sub_run r \<Rightarrow> subscriber_run r c)"

subsubsection \<open>The filter follows the subscriptions\<close>

text \<open>
  What a sequence of options leaves subscribed. \<open>exact_ops\<close> says that it never subscribes to
  a prefix twice or drops one that is not there, so that it makes no difference whether the
  socket counts its subscriptions.
\<close>

fun replay :: "subscription_change list \<Rightarrow> event_topic set \<Rightarrow> event_topic set" where
  "replay [] F = F"
| "replay ((kSubscribe, p) # ops) F = replay ops (insert p F)"
| "replay ((kUnsubscribe, p) # ops) F = replay ops (F - {p})"

fun exact_ops :: "subscription_change list \<Rightarrow> event_topic set \<Rightarrow> bool" where
  "exact_ops [] F = True"
| "exact_ops ((kSubscribe, p) # ops) F = (p \<notin> F \<and> exact_ops ops (insert p F))"
| "exact_ops ((kUnsubscribe, p) # ops) F = (p \<in> F \<and> exact_ops ops (F - {p}))"

lemma replay_append [simp]: "replay (xs @ ys) F = replay ys (replay xs F)"
  by (induction xs F rule: replay.induct) simp_all

lemma exact_ops_append [simp]: "exact_ops (xs @ ys) F \<longleftrightarrow> exact_ops xs F \<and> exact_ops ys (replay xs F)"
  by (induction xs F rule: exact_ops.induct) simp_all

fun applying :: "sub_pc \<Rightarrow> subscription_change list" where
  "applying (Applying _ chs) = chs"
| "applying _ = []"

text \<open>\<open>fresh\<close>: no thread has set an option on an earlier socket, and none failed.\<close>

definition subscriber_inv :: "subscriber \<Rightarrow> bool" where
  "subscriber_inv c \<longleftrightarrow>
     handed c @ applying (s_pc c) @ subscription_changes c = issued c \<and>
     exact_ops (issued c) {} \<and> replay (issued c) {} = subscriptions c \<and>
     (thread c = Looping \<longrightarrow> s_pc c \<noteq> Sub_setup \<and> (\<forall>chs. s_pc c \<noteq> Applying True chs)) \<and>
     (thread c = SettingUp \<longrightarrow> s_pc c = Sub_setup \<or> (\<exists>chs. s_pc c = Applying True chs)) \<and>
     (thread c = NoThread \<longrightarrow> s_pc c = Sub_setup) \<and> (thread c = Exited \<longrightarrow> s_pc c = Sub_setup)"

lemma subscriber_receive_events:
  "subscriber_receive frames c = c\<lparr>events := events (subscriber_receive frames c)\<rparr>"
  by (cases "(frames, c)" rule: subscriber_receive.cases) simp_all

lemma subscriber_receive_fields [simp]:
  "terminated (subscriber_receive frames c) = terminated c" "thread (subscriber_receive frames c) = thread c"
  "running (subscriber_receive frames c) = running c" "s_pc (subscriber_receive frames c) = s_pc c"
  "subscriptions (subscriber_receive frames c) = subscriptions c"
  "subscription_changes (subscriber_receive frames c) = subscription_changes c"
  "socket_ops (subscriber_receive frames c) = socket_ops c" "handed (subscriber_receive frames c) = handed c"
  "issued (subscriber_receive frames c) = issued c"
  by (subst subscriber_receive_events, simp)+

lemma apply_subscription_changes_cases:
  "apply_subscription_changes r setup chs c =
     (case chs of [] \<Rightarrow> if setup then worker_ready (c\<lparr>s_pc := Sub_top\<rparr>) else c\<lparr>s_pc := Sub_polling\<rparr>
      | ch # chs \<Rightarrow> if r = Io_fail then subscriber_abort setup (c\<lparr>handed := handed c @ ch # chs\<rparr>)
          else c\<lparr>s_pc := Applying setup chs, socket_ops := socket_ops c @ [ch], handed := handed c @ [ch]\<rparr>)"
  by (cases chs) simp_all

lemmas subscriber_defs = worker_defs queue_change_def subscribe_def unsubscribe_def subscriber_start_def
  subscriber_stop_def swap_changes_def subscriber_abort_def subscriber_run_def apply_subscription_changes_cases
lemmas subscriber_splits = thread_state.splits sub_pc.splits io_result.splits subscriber_event.splits
  if_splits list.splits

lemma subscriber_inv_run: "subscriber_inv c \<Longrightarrow> subscriber_inv (subscriber_run r c)"
  by (cases "thread c"; cases "s_pc c"; cases r)
    (auto simp: subscriber_inv_def worker_defs swap_changes_def subscriber_abort_def subscriber_run_def
      apply_subscription_changes_cases Let_def split: list.splits)

lemma subscriber_inv_change: "subscriber_inv c \<Longrightarrow> subscriber_inv (subscribe p c) \<and> subscriber_inv (unsubscribe p c)"
  by (auto simp: subscriber_inv_def subscribe_def unsubscribe_def queue_change_def)

lemma subscriber_inv_life:
  "subscriber_inv c \<Longrightarrow> subscriber_inv (subscriber_start h c) \<and> subscriber_inv (subscriber_stop c) \<and>
     subscriber_inv (worker_join c)"
  by (cases "thread c") (auto simp: subscriber_inv_def subscriber_start_def subscriber_stop_def worker_defs)

interpretation subscriber: event_machine subscriber_create subscriber_step subscriber_inv
proof
  show "subscriber_inv subscriber_create" by (simp add: subscriber_inv_def subscriber_create_def)
next
  fix c e
  assume "subscriber_inv c"
  then show "subscriber_inv (subscriber_step c e)"
    by (cases e) (simp_all add: subscriber_inv_run subscriber_inv_change subscriber_inv_life)
qed

fun is_start :: "subscriber_event \<Rightarrow> bool" where
  "is_start (Sub_start _) = True"
| "is_start _ = False"

text \<open>Before the first \<open>start\<close> no option is set; after it, unless a call threw, those set are
  those set on the one socket there is.\<close>

definition unstarted :: "subscriber \<Rightarrow> bool" where
  "unstarted c \<longleftrightarrow> thread c = NoThread \<and> s_pc c = Sub_setup \<and> handed c = [] \<and> socket_ops c = []"

definition one_socket :: "subscriber \<Rightarrow> bool" where
  "one_socket c \<longleftrightarrow>
     handed c = socket_ops c \<and> (thread c = SettingUp \<and> s_pc c = Sub_setup \<longrightarrow> handed c = [])"

lemma unstarted_step: "unstarted c \<Longrightarrow> \<not> is_start e \<Longrightarrow> unstarted (subscriber_step c e)"
  by (cases e) (auto simp: unstarted_def subscriber_defs)

lemma one_socket_start: "unstarted c \<Longrightarrow> is_start e \<Longrightarrow> one_socket (subscriber_step c e)"
  by (cases e) (auto simp: unstarted_def one_socket_def subscriber_defs)

lemma one_socket_run:
  "one_socket c \<Longrightarrow> subscriber_inv c \<Longrightarrow> r \<noteq> Io_fail \<Longrightarrow> one_socket (subscriber_run r c)"
  by (cases "thread c"; cases "s_pc c"; cases r)
    (auto simp: one_socket_def subscriber_inv_def worker_defs swap_changes_def subscriber_run_def
      apply_subscription_changes_cases Let_def split: list.splits)

lemma one_socket_step:
  "one_socket c \<Longrightarrow> subscriber_inv c \<Longrightarrow> \<not> is_start e \<Longrightarrow> e \<noteq> Sub_run Io_fail \<Longrightarrow> one_socket (subscriber_step c e)"
  by (cases e)
    (auto simp: one_socket_run, auto simp: one_socket_def worker_defs queue_change_def subscribe_def
      unsubscribe_def subscriber_stop_def)

lemma first_socket:
  assumes "Sub_run Io_fail \<notin> set es" and "length (filter is_start es) \<le> 1"
  shows "if filter is_start es = [] then unstarted (run_events subscriber_step subscriber_create es)
     else one_socket (run_events subscriber_step subscriber_create es)"
  using assms
proof (induction es rule: rev_induct)
  case (snoc e es)
  let ?c = "run_events subscriber_step subscriber_create es"
  have "subscriber_inv ?c" by (rule subscriber.ok_run)
  with snoc show ?case
    using unstarted_step[of ?c e] one_socket_start[of ?c e] one_socket_step[of ?c e]
    by (auto simp del: subscriber_step.simps split: if_splits)
qed (simp add: unstarted_def subscriber_create_def)

text \<open>C24. The first socket's filter follows the subscriptions: as long as no socket operation
  failed, the options set on it never repeat a subscription or drop one that is not there,
  and together with the changes still to be applied they leave exactly the prefixes that are
  subscribed.\<close>

theorem subscriber_tracks:
  assumes "Sub_run Io_fail \<notin> set es" and "length (filter is_start es) \<le> 1"
    and "c = run_events subscriber_step subscriber_create es"
  shows "exact_ops (socket_ops c) {} \<and>
    replay (socket_ops c @ applying (s_pc c) @ subscription_changes c) {} = subscriptions c"
proof -
  have "subscriber_inv c" unfolding assms(3) by (rule subscriber.ok_run)
  moreover have "handed c = socket_ops c"
    using first_socket[OF assms(1,2)] unfolding assms(3)
    by (auto simp: unstarted_def one_socket_def simp del: subscriber_step.simps split: if_splits)
  ultimately show ?thesis unfolding subscriber_inv_def by (metis exact_ops_append)
qed

theorem subscriber_tracks_witness:
  "let c = run_events subscriber_step subscriber_create
     [Subscribe ''room'', Sub_start True, Sub_run Io_ok, Sub_run Io_ok, Sub_run Io_ok, Subscribe ''room'',
      Subscribe ''user'', Unsubscribe ''room'', Sub_run Io_ok, Sub_run Io_ok]
   in socket_ops c = [(kSubscribe, ''room''), (kSubscribe, ''user'')] \<and>
      s_pc c = Applying False [(kUnsubscribe, ''room'')] \<and>
      replay (socket_ops c @ applying (s_pc c) @ subscription_changes c) {} = {''user''}"
proof -
  let ?es = "[Subscribe ''room'', Sub_start True, Sub_run Io_ok, Sub_run Io_ok, Sub_run Io_ok,
    Subscribe ''room'', Subscribe ''user'', Unsubscribe ''room'', Sub_run Io_ok, Sub_run Io_ok]"
  let ?c = "run_events subscriber_step subscriber_create ?es"
  have "socket_ops ?c = [(kSubscribe, ''room''), (kSubscribe, ''user'')]"
    and "s_pc ?c = Applying False [(kUnsubscribe, ''room'')]" and "subscriptions ?c = {''user''}"
    by (auto simp: subscriber_create_def subscriber_defs)
  moreover have "replay (socket_ops ?c @ applying (s_pc ?c) @ subscription_changes ?c) {} = subscriptions ?c"
    using subscriber_tracks[of ?es ?c] by (simp del: subscriber_step.simps run_events_simps)
  ultimately show ?thesis unfolding Let_def by (simp del: subscriber_step.simps run_events_simps)
qed

text \<open>A second \<open>start\<close> makes a new socket, on which the subscriptions are not set again.\<close>

lemma restart_loses_subscriptions:
  "let c = run_events subscriber_step subscriber_create
     [Subscribe ''room'', Sub_start True, Sub_run Io_ok, Sub_run Io_ok, Sub_run Io_ok, Sub_stop, Sub_run Io_ok,
      Sub_join, Sub_start True, Sub_run Io_ok, Sub_run Io_ok, Subscribe ''room'', Sub_run Io_ok, Sub_run Io_ok]
   in thread c = Looping \<and> subscriptions c = {''room''} \<and> subscription_changes c = [] \<and>
      s_pc c = Sub_polling \<and> socket_ops c = []"
  by (auto simp: subscriber_create_def subscriber_defs)

subsection \<open>Broker\<close>

text \<open>
  A frame is its bytes and whether more follow. The queues hold what has arrived on each
  side, in order; \<open>ok\<close> tells for each send whether it went through.
\<close>

type_synonym frame = "raw_buffer \<times> bool"

record broker = worker +
  xsub_in :: "frame list"
  xpub_in :: "frame list"
  xpub_out :: "frame list"
  xsub_out :: "frame list"

definition broker_create :: broker where
  "broker_create =
     \<lparr>running = False, thread = NoThread, terminated = False, start_results = [],
      xsub_in = [], xpub_in = [], xpub_out = [], xsub_out = []\<rparr>"

text \<open>\<open>forward source\<close>: the frames sent, what is left of the source, and whether it returned.\<close>

fun forward :: "(nat \<Rightarrow> bool) \<Rightarrow> frame list \<Rightarrow> frame list \<times> frame list \<times> bool" where
  "forward ok [] = ([], [], True)"
| "forward ok ((frame, has_more) # source) =
     (if \<not> ok 0 then ([], source, False)
      else if \<not> has_more then ([(frame, has_more)], source, True)
      else (case forward (ok \<circ> Suc) source of (sent, rest, b) \<Rightarrow> ((frame, has_more) # sent, rest, b)))"

definition broker_start :: "broker \<Rightarrow> broker" where
  "broker_start b = (if running b then b else worker_spawn b)"

definition broker_stop :: "broker \<Rightarrow> broker" where
  "broker_stop b = worker_stop b"

text \<open>A turn of the loop polls both sockets once and forwards a message from each that has one.\<close>

definition broker_run :: "bool \<Rightarrow> (nat \<Rightarrow> bool) \<Rightarrow> (nat \<Rightarrow> bool) \<Rightarrow> broker \<Rightarrow> broker" where
  "broker_run ok ok1 ok2 b =
     (case thread b of
        SettingUp \<Rightarrow>
          if ok then worker_ready (b\<lparr>xsub_in := [], xpub_in := [], xpub_out := [], xsub_out := []\<rparr>)
          else worker_setup_failed b
      | Looping \<Rightarrow>
          if \<not> running b then b\<lparr>thread := Exited\<rparr>
          else if \<not> ok then worker_failed b
          else
            (let (sent1, rest1, done1) = (if xsub_in b \<noteq> [] then forward ok1 (xsub_in b) else ([], [], True));
                 b1 = b\<lparr>xsub_in := rest1, xpub_out := xpub_out b @ sent1\<rparr>
             in if \<not> done1 then worker_failed b1
                else
                  (let (sent2, rest2, done2) = (if xpub_in b1 \<noteq> [] then forward ok2 (xpub_in b1) else ([], [], True));
                       b2 = b1\<lparr>xpub_in := rest2, xsub_out := xsub_out b1 @ sent2\<rparr>
                   in if \<not> done2 then worker_failed b2 else b2))
      | _ \<Rightarrow> b)"

text \<open>A message of one or more parts as ZeroMQ frames it.\<close>

fun multipart :: "raw_buffer list \<Rightarrow> frame list" where
  "multipart [] = []"
| "multipart [p] = [(p, False)]"
| "multipart (p # ps) = (p, True) # multipart ps"

lemma forward_multipart:
  "ps \<noteq> [] \<Longrightarrow> (\<And>i. ok i) \<Longrightarrow> forward ok (multipart ps @ rest) = (multipart ps, rest, True)"
  by (induction ps arbitrary: ok rule: multipart.induct) (simp_all add: comp_def)

lemma forward_split: "forward ok source = (sent, rest, True) \<Longrightarrow> sent @ rest = source"
  by (induction ok source arbitrary: sent rest rule: forward.induct) (auto split: if_splits prod.splits)

text \<open>The broker relays whole messages: a turn of its loop moves the first message of each
  side, all its parts and nothing else, to the other side, and keeps the rest for later.\<close>

theorem broker_relays:
  assumes "thread b = Looping" and "running b"
    and "xsub_in b = multipart ps @ more_events" and "xpub_in b = multipart qs @ more_subscriptions"
    and "ps \<noteq> []" and "qs \<noteq> []"
  shows "broker_run True (\<lambda>_. True) (\<lambda>_. True) b =
    b\<lparr>xsub_in := more_events, xpub_out := xpub_out b @ multipart ps,
      xpub_in := more_subscriptions, xsub_out := xsub_out b @ multipart qs\<rparr>"
proof -
  have "multipart ps @ more_events \<noteq> []" and "multipart qs @ more_subscriptions \<noteq> []"
    using assms(5,6) by (cases ps rule: multipart.cases; simp) (use assms(6) in \<open>cases qs rule: multipart.cases; simp\<close>)
  with assms show ?thesis by (simp add: broker_run_def forward_multipart)
qed

theorem broker_relays_witness:
  "let b = broker_create\<lparr>running := True, thread := Looping,
       xsub_in := [([1], True), ([2], False), ([3], False)], xpub_in := [([9], False)]\<rparr>;
       b' = broker_run True (\<lambda>_. True) (\<lambda>_. True) b
   in xpub_out b' = [([1], True), ([2], False)] \<and> xsub_in b' = [([3], False)] \<and> xsub_out b' = [([9], False)]"
  using broker_relays[of "broker_create\<lparr>running := True, thread := Looping,
       xsub_in := [([1], True), ([2], False), ([3], False)], xpub_in := [([9], False)]\<rparr>"
      "[[1], [2]]" "[([3], False)]" "[[9]]" "[]"]
  by (simp add: broker_create_def)

end
