(* ===== verification/Ordered_Map.thy ===== *)
theory Ordered_Map
  imports Rsp_Prelude "HOL-Library.Multiset"
begin

text \<open>
  \<open>std::map\<close> as the components use it: a list of key/value pairs in ascending key order,
  so that iteration visits the keys in the order the code sees. The interface locale
  \<open>std_map\<close> states what the components rely on; the list implementation is its
  interpretation.
\<close>

type_synonym ('k, 'v) omap = "('k \<times> 'v) list"

definition om_find :: "('k, 'v) omap \<Rightarrow> 'k \<Rightarrow> 'v option" where
  "om_find m k = map_of m k"

text \<open>\<open>m[k] = v\<close>: insert or overwrite.\<close>

fun om_set :: "'k::linorder \<Rightarrow> 'v \<Rightarrow> ('k, 'v) omap \<Rightarrow> ('k, 'v) omap" where
  "om_set k v [] = [(k, v)]"
| "om_set k v ((k', v') # m) =
     (if k < k' then (k, v) # (k', v') # m
      else if k = k' then (k, v) # m
      else (k', v') # om_set k v m)"

text \<open>\<open>m.emplace(k, v)\<close>: insert unless the key is present.\<close>

definition om_emplace :: "'k::linorder \<Rightarrow> 'v \<Rightarrow> ('k, 'v) omap \<Rightarrow> ('k, 'v) omap" where
  "om_emplace k v m = (case om_find m k of None \<Rightarrow> om_set k v m | Some _ \<Rightarrow> m)"

definition om_erase :: "'k \<Rightarrow> ('k, 'v) omap \<Rightarrow> ('k, 'v) omap" where
  "om_erase k m = filter (\<lambda>(k', _). k' \<noteq> k) m"

text \<open>The loop \<open>for (it = begin; it != end;) if (drop) it = erase(it); else ++it;\<close>.\<close>

fun om_erase_if :: "('k \<Rightarrow> 'v \<Rightarrow> bool) \<Rightarrow> ('k, 'v) omap \<Rightarrow> ('k, 'v) omap" where
  "om_erase_if P [] = []"
| "om_erase_if P ((k, v) # m) = (if P k v then om_erase_if P m else (k, v) # om_erase_if P m)"

definition om_wf :: "('k::linorder, 'v) omap \<Rightarrow> bool" where
  "om_wf m \<longleftrightarrow> sorted_wrt (<) (map fst m)"

lemma om_wf_Nil [simp]: "om_wf []"
  by (simp add: om_wf_def)

lemma om_wf_Cons [simp]: "om_wf ((k, v) # m) \<longleftrightarrow> (\<forall>k' \<in> fst ` set m. k < k') \<and> om_wf m"
  by (simp add: om_wf_def)

lemma om_find_Nil [map_simps]: "om_find [] k = None"
  by (simp add: om_find_def)

lemma om_find_Cons [map_simps]: "om_find ((k', v) # m) k = (if k = k' then Some v else om_find m k)"
  by (simp add: om_find_def)

lemma om_find_None_iff: "om_find m k = None \<longleftrightarrow> k \<notin> fst ` set m"
  by (simp add: om_find_def map_of_eq_None_iff)

lemma dom_om_find: "dom (om_find m) = fst ` set m"
  unfolding om_find_def[abs_def] by (rule dom_map_of_conv_image_fst)

lemma om_find_set [map_simps]: "om_find (om_set k v m) = (om_find m)(k \<mapsto> v)"
  by (induction k v m rule: om_set.induct) (auto simp: om_find_def)

lemma keys_om_set: "fst ` set (om_set k v m) = insert k (fst ` set m)"
  by (induction k v m rule: om_set.induct) auto

lemma om_wf_set [simp, intro]: "om_wf m \<Longrightarrow> om_wf (om_set k v m)"
  by (induction k v m rule: om_set.induct) (auto simp: keys_om_set)

lemma length_om_set:
  "om_wf m \<Longrightarrow> length (om_set k v m) = (if om_find m k = None then Suc (length m) else length m)"
  by (induction k v m rule: om_set.induct) (auto simp: om_find_None_iff om_find_Cons)

lemma om_find_emplace [map_simps]:
  "om_find (om_emplace k v m) = (if om_find m k = None then (om_find m)(k \<mapsto> v) else om_find m)"
  by (auto simp: om_emplace_def om_find_set split: option.splits)

lemma om_wf_emplace [simp, intro]: "om_wf m \<Longrightarrow> om_wf (om_emplace k v m)"
  by (auto simp: om_emplace_def split: option.splits)

lemma length_om_emplace:
  "om_wf m \<Longrightarrow> length (om_emplace k v m) = (if om_find m k = None then Suc (length m) else length m)"
  by (auto simp: om_emplace_def length_om_set split: option.splits)

lemma om_find_erase [map_simps]: "om_find (om_erase k m) = (om_find m)(k := None)"
  by (induction m) (auto simp: om_find_def om_erase_def)

lemma om_wf_filter: "om_wf m \<Longrightarrow> om_wf (filter P m)"
  by (induction m) auto

lemma om_wf_erase [simp, intro]: "om_wf m \<Longrightarrow> om_wf (om_erase k m)"
  unfolding om_erase_def by (rule om_wf_filter)

lemma set_om_erase_subset: "kv \<in> set (om_erase k m) \<Longrightarrow> kv \<in> set m"
  by (simp add: om_erase_def)

lemma length_om_erase_le: "length (om_erase k m) \<le> length m"
  by (simp add: om_erase_def)

lemma length_om_erase:
  "om_wf m \<Longrightarrow> length (om_erase k m) = (if om_find m k = None then length m else length m - 1)"
proof (induction m)
  case (Cons a m)
  obtain k' v where a: "a = (k', v)" by (cases a)
  show ?case
  proof (cases "k' = k")
    case True
    with Cons.prems a have "om_find m k = None"
      by (auto simp: om_find_None_iff)
    with True a show ?thesis
      by (force simp: om_erase_def om_find_Cons om_find_None_iff intro!: arg_cong[where f = length] filter_True)
  next
    case False
    have "om_find m k \<noteq> None \<Longrightarrow> 0 < length m" by (cases m) (auto simp: om_find_Nil)
    with False a Cons show ?thesis by (auto simp: om_erase_def om_find_Cons)
  qed
qed (simp add: om_erase_def)

lemma om_erase_if_filter: "om_erase_if P m = filter (\<lambda>(k, v). \<not> P k v) m"
  by (induction P m rule: om_erase_if.induct) auto

lemma om_wf_erase_if [simp, intro]: "om_wf m \<Longrightarrow> om_wf (om_erase_if P m)"
  by (simp add: om_erase_if_filter om_wf_filter)

lemma length_om_erase_if_le: "length (om_erase_if P m) \<le> length m"
  by (simp add: om_erase_if_filter)

lemma om_find_erase_if:
  "om_wf m \<Longrightarrow> om_find (om_erase_if P m) k =
     (case om_find m k of None \<Rightarrow> None | Some v \<Rightarrow> if P k v then None else Some v)"
proof (induction m)
  case (Cons a m)
  obtain k' v where a: "a = (k', v)" by (cases a)
  show ?case
  proof (cases "k' = k")
    case True
    with Cons.prems a have "om_find m k = None"
      by (auto simp: om_find_None_iff)
    with True a Cons show ?thesis by (simp add: om_find_Cons)
  next
    case False
    with a Cons show ?thesis by (simp add: om_find_Cons)
  qed
qed (simp add: om_find_Nil)

lemma om_find_in_set: "om_find m k = Some v \<Longrightarrow> (k, v) \<in> set m"
  by (simp add: om_find_def map_of_SomeD)

lemma om_find_iff: "om_wf m \<Longrightarrow> om_find m k = Some v \<longleftrightarrow> (k, v) \<in> set m"
proof (induction m)
  case (Cons a m)
  obtain k' v' where a: "a = (k', v')" by (cases a)
  with Cons show ?case by (force simp: om_find_Cons)
qed (simp add: om_find_Nil)

lemma distinct_keys_om: "om_wf m \<Longrightarrow> distinct (map fst m)"
  unfolding om_wf_def by (metis strict_sorted_iff)

lemma mset_om_set: "om_find m k = None \<Longrightarrow> mset (om_set k v m) = add_mset (k, v) (mset m)"
  by (induction k v m rule: om_set.induct) (auto simp: om_find_Cons split: if_splits)

lemma set_om_set: "om_find m k = None \<Longrightarrow> set (om_set k v m) = insert (k, v) (set m)"
  using mset_eq_setD[of "om_set k v m" "(k, v) # m"] by (simp add: mset_om_set)

lemma set_om_set_subset: "kv \<in> set (om_set k v m) \<Longrightarrow> kv = (k, v) \<or> kv \<in> set m"
  by (induction k v m rule: om_set.induct) (auto split: if_splits)

lemma set_om_emplace:
  "set (om_emplace k v m) = (if om_find m k = None then insert (k, v) (set m) else set m)"
  by (auto simp: om_emplace_def set_om_set split: option.splits)

lemma mset_om_erase:
  assumes "om_wf m" and "om_find m k = Some v"
  shows "mset m = add_mset (k, v) (mset (om_erase k m))"
  using assms
proof (induction m)
  case (Cons a m)
  obtain k' v' where a: "a = (k', v')" by (cases a)
  show ?case
  proof (cases "k' = k")
    case True
    with Cons.prems a have "om_erase k m = m"
      by (force simp: om_erase_def intro!: filter_True)
    with True Cons.prems a show ?thesis by (simp add: om_erase_def om_find_Cons)
  next
    case False
    with Cons a show ?thesis by (simp add: om_erase_def om_find_Cons)
  qed
qed (simp add: om_find_Nil)

subsection \<open>The interface\<close>

text \<open>
  What the components rely on of \<open>std::map\<close>: the abstraction to a finite map, the effect
  of every operation on it, and the element count.
\<close>

locale std_map =
  fixes find :: "'m \<Rightarrow> 'k \<Rightarrow> 'v option"
    and assign :: "'k \<Rightarrow> 'v \<Rightarrow> 'm \<Rightarrow> 'm"
    and emplace :: "'k \<Rightarrow> 'v \<Rightarrow> 'm \<Rightarrow> 'm"
    and erase :: "'k \<Rightarrow> 'm \<Rightarrow> 'm"
    and erase_if :: "('k \<Rightarrow> 'v \<Rightarrow> bool) \<Rightarrow> 'm \<Rightarrow> 'm"
    and size :: "'m \<Rightarrow> nat"
    and wf :: "'m \<Rightarrow> bool"
  assumes find_assign: "wf m \<Longrightarrow> find (assign k v m) = (find m)(k \<mapsto> v)"
    and find_emplace: "wf m \<Longrightarrow>
      find (emplace k v m) = (if find m k = None then (find m)(k \<mapsto> v) else find m)"
    and find_erase: "wf m \<Longrightarrow> find (erase k m) = (find m)(k := None)"
    and find_erase_if: "wf m \<Longrightarrow> find (erase_if P m) k =
      (case find m k of None \<Rightarrow> None | Some v \<Rightarrow> if P k v then None else Some v)"
    and size_assign: "wf m \<Longrightarrow> size (assign k v m) =
      (if find m k = None then Suc (size m) else size m)"
    and size_erase: "wf m \<Longrightarrow> size (erase k m) = (if find m k = None then size m else size m - 1)"
    and size_erase_if: "wf m \<Longrightarrow> size (erase_if P m) \<le> size m"
    and wf_assign: "wf m \<Longrightarrow> wf (assign k v m)"
    and wf_emplace: "wf m \<Longrightarrow> wf (emplace k v m)"
    and wf_erase: "wf m \<Longrightarrow> wf (erase k m)"
    and wf_erase_if: "wf m \<Longrightarrow> wf (erase_if P m)"
begin

lemma dom_assign: "wf m \<Longrightarrow> dom (find (assign k v m)) = insert k (dom (find m))"
  by (simp add: find_assign)

lemma dom_erase: "wf m \<Longrightarrow> dom (find (erase k m)) = dom (find m) - {k}"
  by (simp add: find_erase)

lemma dom_erase_if: "wf m \<Longrightarrow> dom (find (erase_if P m)) \<subseteq> dom (find m)"
  by (auto simp: find_erase_if dom_def split: option.splits if_splits)

lemma emplace_present: "wf m \<Longrightarrow> find m k = Some v' \<Longrightarrow> find (emplace k v m) = find m"
  by (simp add: find_emplace)

lemma erase_if_keeps:
  "wf m \<Longrightarrow> find (erase_if P m) k = Some v \<longleftrightarrow> find m k = Some v \<and> \<not> P k v"
  by (auto simp: find_erase_if split: option.splits)

text \<open>Replacing one entry by another cannot make the map grow.\<close>

lemma size_replace:
  assumes "wf m" and "find m j = Some w"
  shows "size (assign k v (erase j m)) \<le> max 1 (size m)"
  using assms by (auto simp: size_assign size_erase wf_erase)

end

interpretation om: std_map om_find om_set om_emplace om_erase om_erase_if length om_wf
  by unfold_locales
    (auto simp: map_simps om_find_erase_if length_om_set length_om_erase length_om_erase_if_le)

end
