(* ===== verification/Messages.thy ===== *)
theory Messages
  imports Serializer
begin

text \<open>
  The messages of \<open>proto/\<close> as values (their protobuf encoding is a parameter of the
  definitions that need it) and the message traits of the room server.
  Fields are in the order of the \<open>.proto\<close> files; a field the code never sets has its
  default.
\<close>

datatype LeaveRoomReason = kInternal | kUserRequested | kKickedOut

datatype SenderType = kContent | kUser

datatype KickoutReason = kAdmin | kRoomOwner | kRoomVoting | kOther

text \<open>\<open>static_cast<int>(reason)\<close>.\<close>

fun kickout_code :: "KickoutReason \<Rightarrow> 32 word" where
  "kickout_code kAdmin = 0"
| "kickout_code kRoomOwner = 1"
| "kickout_code kRoomVoting = 2"
| "kickout_code kOther = 3"

datatype message =
    Ping
  | Pong
  | ReqLogin (request_id: "64 word") (uid: Uid)
  | ResLogin (request_id: "64 word") (uid: Uid) (success: bool) (is_attached: bool) (room_id: RoomId)
  | ReqLogout (request_id: "64 word")
  | ResLogout (request_id: "64 word") (uid: Uid)
  | ReqCreateRoom (request_id: "64 word")
  | ResCreateRoom (request_id: "64 word") (success: bool) (room_id: RoomId)
  | ReqJoinRoom (request_id: "64 word") (room_id: RoomId)
  | ResJoinRoom (request_id: "64 word") (success: bool) (room_id: RoomId)
  | FwdRoom (text_of: string)
  | FwdClient (sender_type: SenderType) (sender_uid: Uid) (uid: Uid) (text_of: string)
  | NtfLeaveRoom (uid: Uid) (reason: LeaveRoomReason) (kickout_reason: "32 word option")
  | ReqLeaveRoom (request_id: "64 word")
  | ResLeaveRoom (request_id: "64 word") (success: bool)
  | User2RoomReqCreateRoom (request_id: "64 word") (uid: Uid)
  | User2RoomResCreateRoom (request_id: "64 word") (uid: Uid) (success: bool) (room_id: RoomId)
  | User2RoomReqJoinRoom (request_id: "64 word") (uid: Uid) (room_id: RoomId)
  | User2RoomResJoinRoom (request_id: "64 word") (uid: Uid) (room_id: RoomId) (success: bool)
  | User2RoomFwdRoom (room_id: RoomId) (uid: Uid) (text_of: string)
  | User2RoomFwdClient (sender_type: SenderType) (sender_uid: Uid) (uid: Uid) (text_of: string)
  | User2RoomNtfLeaveRoom (uid: Uid) (reason: LeaveRoomReason) (kickout_reason: "32 word option")
  | User2RoomReqLeaveRoom (request_id: "64 word") (room_id: RoomId) (uid: Uid)
  | User2RoomResLeaveRoom (request_id: "64 word") (uid: Uid) (success: bool)
  | User2RoomCancelRequest (request_id: "64 word")

text \<open>The message type a message value is sent with.\<close>

fun kind_of :: "message \<Rightarrow> message_kind" where
  "kind_of Ping = kPing"
| "kind_of Pong = kPong"
| "kind_of (ReqLogin _ _) = kReqLogin"
| "kind_of (ResLogin _ _ _ _ _) = kResLogin"
| "kind_of (ReqLogout _) = kReqLogout"
| "kind_of (ResLogout _ _) = kResLogout"
| "kind_of (ReqCreateRoom _) = kReqCreateRoom"
| "kind_of (ResCreateRoom _ _ _) = kResCreateRoom"
| "kind_of (ReqJoinRoom _ _) = kReqJoinRoom"
| "kind_of (ResJoinRoom _ _ _) = kResJoinRoom"
| "kind_of (FwdRoom _) = kFwdRoom"
| "kind_of (FwdClient _ _ _ _) = kFwdClient"
| "kind_of (NtfLeaveRoom _ _ _) = kNtfLeaveRoom"
| "kind_of (ReqLeaveRoom _) = kReqLeaveRoom"
| "kind_of (ResLeaveRoom _ _) = kResLeaveRoom"
| "kind_of (User2RoomReqCreateRoom _ _) = kUser2RoomReqCreateRoom"
| "kind_of (User2RoomResCreateRoom _ _ _ _) = kUser2RoomResCreateRoom"
| "kind_of (User2RoomReqJoinRoom _ _ _) = kUser2RoomReqJoinRoom"
| "kind_of (User2RoomResJoinRoom _ _ _ _) = kUser2RoomResJoinRoom"
| "kind_of (User2RoomFwdRoom _ _ _) = kUser2RoomFwdRoom"
| "kind_of (User2RoomFwdClient _ _ _ _) = kUser2RoomFwdClient"
| "kind_of (User2RoomNtfLeaveRoom _ _ _) = kUser2RoomNtfLeaveRoom"
| "kind_of (User2RoomReqLeaveRoom _ _ _) = kUser2RoomReqLeaveRoom"
| "kind_of (User2RoomResLeaveRoom _ _ _) = kUser2RoomResLeaveRoom"
| "kind_of (User2RoomCancelRequest _) = kUser2RoomCancelRequest"

text \<open>\<open>message_trait<T>::res_type\<close>, for a request of the given type; the notifications
  have none.\<close>

fun res_type :: "message_kind \<Rightarrow> message_kind option" where
  "res_type kUser2RoomReqCreateRoom = Some kUser2RoomResCreateRoom"
| "res_type kUser2RoomReqJoinRoom = Some kUser2RoomResJoinRoom"
| "res_type kUser2RoomReqLeaveRoom = Some kUser2RoomResLeaveRoom"
| "res_type kUser2RoomFwdRoom = None"
| "res_type kUser2RoomFwdClient = None"
| "res_type kUser2RoomNtfLeaveRoom = None"
| "res_type _ = Some kPong"

end
