(* ===== verification/Message_Dispatcher.thy ===== *)
theory Message_Dispatcher
  imports Ordered_Map Messages
begin

text \<open>
  The process-wide message dispatcher (\<open>message/message_dispatcher.hpp\<close>) and the
  dispatchers registered with it: \<open>user/intranet\<close> and \<open>user/message\<close> in the user
  server, \<open>room/intranet\<close> in the room server. Handlers are values that name the
  member function bound to a type, so that a dispatch is the choice of a handler.
\<close>

record ('h, 'f) dispatcher =
  handlers :: "(MessageType, 'h) omap"
  fail_handler :: "'f option"

datatype ('h, 'f) dispatched = Handled 'h | Failed 'f | BadFunctionCall

definition dispatcher_init :: "('h, 'f) dispatcher" where
  "dispatcher_init = \<lparr>handlers = [], fail_handler = None\<rparr>"

definition register_handler :: "MessageType \<Rightarrow> 'h \<Rightarrow> ('h, 'f) dispatcher \<Rightarrow> ('h, 'f) dispatcher" where
  "register_handler type f d = d\<lparr>handlers := om_set type f (handlers d)\<rparr>"

definition register_unknown_message_handler :: "'f \<Rightarrow> ('h, 'f) dispatcher \<Rightarrow> ('h, 'f) dispatcher" where
  "register_unknown_message_handler f d = d\<lparr>fail_handler := Some f\<rparr>"

definition unregister_handler :: "MessageType \<Rightarrow> ('h, 'f) dispatcher \<Rightarrow> ('h, 'f) dispatcher" where
  "unregister_handler type d =
     (case om_find (handlers d) type of
        None \<Rightarrow> d
      | Some _ \<Rightarrow> d\<lparr>handlers := om_erase type (handlers d)\<rparr>)"

text \<open>Calling an empty \<open>std::function\<close> throws \<open>bad_function_call\<close>.\<close>

definition dispatch :: "('h, 'f) dispatcher \<Rightarrow> MessageType \<Rightarrow> ('h, 'f) dispatched" where
  "dispatch d type =
     (case om_find (handlers d) type of
        None \<Rightarrow> (case fail_handler d of None \<Rightarrow> BadFunctionCall | Some f \<Rightarrow> Failed f)
      | Some h \<Rightarrow> Handled h)"

lemma dispatch_register [simp]:
  "dispatch (register_handler t h d) t' = (if t' = t then Handled h else dispatch d t')"
  by (simp add: dispatch_def register_handler_def om_find_set split: option.split)

lemma dispatch_unregister [simp]:
  "dispatch (unregister_handler t d) t' =
     (if t' = t then (case fail_handler d of None \<Rightarrow> BadFunctionCall | Some f \<Rightarrow> Failed f) else dispatch d t')"
  by (auto simp: dispatch_def unregister_handler_def om_find_erase split: option.splits)

lemma dispatch_register_unknown:
  "dispatch (register_unknown_message_handler f d) t =
     (case om_find (handlers d) t of None \<Rightarrow> Failed f | Some h \<Rightarrow> Handled h)"
  by (simp add: dispatch_def register_unknown_message_handler_def split: option.split)

lemma fail_handler_fields [simp]:
  "fail_handler (register_handler t h d) = fail_handler d"
  "fail_handler (unregister_handler t d) = fail_handler d"
  "fail_handler (register_unknown_message_handler f d) = Some f"
  "handlers (register_unknown_message_handler f d) = handlers d"
  by (simp_all add: register_handler_def unregister_handler_def register_unknown_message_handler_def split: option.split)

subsection \<open>The dispatchers of the two servers\<close>

text \<open>The member function templates \<open>handle_buffer<T>\<close> and \<open>handle_unknown\<close> of each class.\<close>

datatype user_handler = RoomChannelHandle message_kind | SessionHandle message_kind
datatype user_unknown = RoomChannelUnknown | SessionUnknown
datatype room_handler = UserChannelHandle message_kind
datatype room_unknown = UserChannelUnknown

fun register_all ::
  "(message_kind \<Rightarrow> 'h) \<Rightarrow> message_kind list \<Rightarrow> ('h, 'f) dispatcher \<Rightarrow> ('h, 'f) dispatcher" where
  "register_all f [] d = d"
| "register_all f (k # ks) d = register_all f ks (register_handler (message_type k) (f k) d)"

text \<open>Constructor of \<open>user/intranet/message_dispatcher.hpp\<close>.\<close>

definition room_channel_dispatcher ::
  "(user_handler, user_unknown) dispatcher \<Rightarrow> (user_handler, user_unknown) dispatcher" where
  "room_channel_dispatcher d =
     register_unknown_message_handler RoomChannelUnknown
       (register_all RoomChannelHandle
          [kPing, kPong, kUser2RoomResCreateRoom, kUser2RoomResJoinRoom, kUser2RoomResLeaveRoom,
           kUser2RoomFwdClient, kUser2RoomNtfLeaveRoom] d)"

text \<open>Constructor of \<open>user/message/message_dispatcher.hpp\<close>.\<close>

definition session_dispatcher ::
  "(user_handler, user_unknown) dispatcher \<Rightarrow> (user_handler, user_unknown) dispatcher" where
  "session_dispatcher d =
     register_unknown_message_handler SessionUnknown
       (register_all SessionHandle
          [kPing, kPong, kReqLogin, kReqLogout, kReqCreateRoom, kReqJoinRoom, kFwdRoom, kReqLeaveRoom] d)"

text \<open>\<open>main\<close> of the user server: the intranet singleton first, then the session dispatcher,
  both on the one library singleton.\<close>

definition user_dispatcher :: "(user_handler, user_unknown) dispatcher" where
  "user_dispatcher = session_dispatcher (room_channel_dispatcher dispatcher_init)"

text \<open>Constructor of \<open>room/intranet/message_dispatcher.hpp\<close>, the only one of its process.\<close>

definition room_dispatcher :: "(room_handler, room_unknown) dispatcher" where
  "room_dispatcher =
     register_unknown_message_handler UserChannelUnknown
       (register_all UserChannelHandle
          [kPing, kUser2RoomReqCreateRoom, kUser2RoomReqJoinRoom, kUser2RoomFwdRoom,
           kUser2RoomReqLeaveRoom, kUser2RoomCancelRequest] dispatcher_init)"

subsection \<open>What a dispatched message does in the user server\<close>

text \<open>
  \<open>parse k buffer\<close> is \<open>ParseFromIstream\<close> on a fresh message of type \<open>k\<close>. The link
  is the session attached to the connection, or null for what the room channel delivers.
\<close>

datatype user_effect =
    RoomChannelRecv message
  | SessionRecv nat message
  | SessionRecvUnknown nat
  | LoggedUnknown
  | ParseFailed
  | NullDereference
  | NoHandler

fun on_session :: "(nat \<Rightarrow> user_effect) \<Rightarrow> nat option \<Rightarrow> user_effect" where
  "on_session f None = NullDereference"
| "on_session f (Some s) = f s"

fun user_handle ::
  "(message_kind \<Rightarrow> raw_buffer \<Rightarrow> bool \<times> message) \<Rightarrow> (user_handler, user_unknown) dispatched
     \<Rightarrow> raw_buffer \<Rightarrow> nat option \<Rightarrow> user_effect" where
  "user_handle parse (Handled (RoomChannelHandle k)) buffer l =
     RoomChannelRecv (snd (deserialize (parse k) buffer))"
| "user_handle parse (Handled (SessionHandle k)) buffer l =
     (case deserialize (parse k) buffer of
        (False, _) \<Rightarrow> ParseFailed
      | (True, t) \<Rightarrow> on_session (\<lambda>s. SessionRecv s t) l)"
| "user_handle parse (Failed RoomChannelUnknown) buffer l = LoggedUnknown"
| "user_handle parse (Failed SessionUnknown) buffer l = on_session SessionRecvUnknown l"
| "user_handle parse BadFunctionCall buffer l = NoHandler"

definition user_receive ::
  "(message_kind \<Rightarrow> raw_buffer \<Rightarrow> bool \<times> message) \<Rightarrow> MessageType \<Rightarrow> raw_buffer \<Rightarrow> nat option \<Rightarrow> user_effect" where
  "user_receive parse type buffer l = user_handle parse (dispatch user_dispatcher type) buffer l"

datatype room_effect = UserChannelRecv message | RoomLoggedUnknown | RoomNoHandler

fun room_handle ::
  "(message_kind \<Rightarrow> raw_buffer \<Rightarrow> bool \<times> message) \<Rightarrow> (room_handler, room_unknown) dispatched
     \<Rightarrow> raw_buffer \<Rightarrow> room_effect" where
  "room_handle parse (Handled (UserChannelHandle k)) buffer =
     UserChannelRecv (snd (deserialize (parse k) buffer))"
| "room_handle parse (Failed UserChannelUnknown) buffer = RoomLoggedUnknown"
| "room_handle parse BadFunctionCall buffer = RoomNoHandler"

definition room_receive ::
  "(message_kind \<Rightarrow> raw_buffer \<Rightarrow> bool \<times> message) \<Rightarrow> MessageType \<Rightarrow> raw_buffer \<Rightarrow> room_effect" where
  "room_receive parse type buffer = room_handle parse (dispatch room_dispatcher type) buffer"

text \<open>The routing tables the registrations amount to.\<close>

definition session_kinds :: "message_kind list" where
  "session_kinds = [kPing, kPong, kReqLogin, kReqLogout, kReqCreateRoom, kReqJoinRoom, kFwdRoom, kReqLeaveRoom]"

definition room_channel_kinds :: "message_kind list" where
  "room_channel_kinds = [kUser2RoomResCreateRoom, kUser2RoomResJoinRoom, kUser2RoomResLeaveRoom,
     kUser2RoomFwdClient, kUser2RoomNtfLeaveRoom]"

definition user_channel_kinds :: "message_kind list" where
  "user_channel_kinds = [kPing, kUser2RoomReqCreateRoom, kUser2RoomReqJoinRoom, kUser2RoomFwdRoom,
     kUser2RoomReqLeaveRoom, kUser2RoomCancelRequest]"

lemma dispatch_register_all:
  "dispatch (register_all f ks d) t =
     (case filter (\<lambda>k. message_type k = t) ks of
        [] \<Rightarrow> dispatch d t
      | k # _ \<Rightarrow> Handled (f k))"
  by (induction f ks d rule: register_all.induct) (auto split: list.splits dest!: filter_eq_ConsD)

lemma handlers_register_all:
  "om_find (handlers (register_all f ks d)) t =
     (case filter (\<lambda>k. message_type k = t) ks of
        [] \<Rightarrow> om_find (handlers d) t
      | k # _ \<Rightarrow> Some (f k))"
  by (induction f ks d rule: register_all.induct)
    (auto simp: register_handler_def om_find_set split: list.splits dest!: filter_eq_ConsD)

subsection \<open>Properties\<close>

text \<open>Routing of the user server, for every value of the wire type: the eight client
  messages (pings included) go to the session handlers, the room server's responses and
  notifications to the room channel, and everything else is an unknown message of the
  session dispatcher, which replaced the room channel's registration.\<close>

theorem user_routing:
  "dispatch user_dispatcher t =
     (case find (\<lambda>k. message_type k = t) session_kinds of
        Some k \<Rightarrow> Handled (SessionHandle k)
      | None \<Rightarrow> (case find (\<lambda>k. message_type k = t) room_channel_kinds of
          Some k \<Rightarrow> Handled (RoomChannelHandle k)
        | None \<Rightarrow> Failed SessionUnknown))"
  by (simp add: user_dispatcher_def session_dispatcher_def room_channel_dispatcher_def
      dispatch_register_unknown dispatcher_init_def register_handler_def om_find_set om_find_Nil om_find_Cons
      session_kinds_def room_channel_kinds_def)

text \<open>Routing of the room server, for every value of the wire type: the six request types
  reach the user channel, every other one is logged; nothing is left without a handler.\<close>

theorem room_routing:
  "room_receive parse t buffer =
     (case find (\<lambda>k. message_type k = t) user_channel_kinds of
        Some k \<Rightarrow> UserChannelRecv (snd (parse k buffer))
      | None \<Rightarrow> RoomLoggedUnknown)"
  by (simp add: room_receive_def room_dispatcher_def dispatch_register_unknown dispatcher_init_def
      register_handler_def om_find_set om_find_Nil om_find_Cons user_channel_kinds_def deserialize_def)

text \<open>The room channel delivers with a null link but shares the dispatcher with the
  sessions, so a message of a type that neither side registers, delivered by the room
  channel, dereferences the null session.\<close>

theorem room_channel_unknown_crashes:
  assumes "t \<notin> message_type ` set (session_kinds @ room_channel_kinds)"
  shows "user_receive parse t buffer None = NullDereference"
  using assms
  by (auto simp: user_receive_def user_dispatcher_def session_dispatcher_def room_channel_dispatcher_def
      dispatch_register_unknown dispatcher_init_def register_handler_def om_find_set om_find_Nil om_find_Cons
      session_kinds_def room_channel_kinds_def)

theorem room_channel_unknown_crashes_witness:
  "user_receive (\<lambda>_ _. (True, Ping)) 99 [] None = NullDereference"
  by (rule room_channel_unknown_crashes) (simp add: session_kinds_def room_channel_kinds_def)

text \<open>The shared dispatcher also lets a client reach the room channel: a connection that
  sends a room server notification has it handled as one, for whatever user it names.\<close>

theorem client_reaches_room_channel:
  "user_receive parse (message_type kUser2RoomNtfLeaveRoom) buffer (Some s) =
     RoomChannelRecv (snd (parse kUser2RoomNtfLeaveRoom buffer))"
  by (simp add: user_receive_def user_dispatcher_def session_dispatcher_def room_channel_dispatcher_def
      dispatch_register_unknown dispatcher_init_def register_handler_def om_find_set om_find_Nil om_find_Cons deserialize_def)

end
