(* ===== verification/Pending_Requests.thy ===== *)
theory Pending_Requests
  imports Ordered_Map
begin

text \<open>
  The registry of outstanding requests of a channel (\<open>message/pending_requests.hpp\<close>):
  a map from request id to deadline and handlers, with one periodic timer. Handlers are
  values of arbitrary types; an operation returns the handler calls it makes, in order,
  after it has left the registry's critical section.
\<close>

record ('h, 't) request =
  deadline :: time_point
  on_response :: 'h
  on_timeout :: 't

record ('h, 't) pending_requests =
  requests :: "(64 word, ('h, 't) request) omap"
  timer_running :: bool

datatype ('h, 't, 'r) handler_call = Response 'h 'r | Timeout 't

definition pending_init :: "('h, 't) pending_requests" where
  "pending_init = \<lparr>requests = [], timer_running = False\<rparr>"

definition pending_add ::
  "64 word \<Rightarrow> 'h \<Rightarrow> 't \<Rightarrow> time_point \<Rightarrow> ('h, 't) pending_requests \<Rightarrow> ('h, 't) pending_requests" where
  "pending_add i response timeout dl p =
     p\<lparr>requests := om_emplace i \<lparr>deadline = dl, on_response = response, on_timeout = timeout\<rparr> (requests p)\<rparr>"

definition pending_take ::
  "64 word \<Rightarrow> ('h, 't) pending_requests \<Rightarrow> ('h, 't) request option \<times> ('h, 't) pending_requests" where
  "pending_take i p =
     (case om_find (requests p) i of
        None \<Rightarrow> (None, p)
      | Some removed \<Rightarrow> (Some removed, p\<lparr>requests := om_erase i (requests p)\<rparr>))"

definition pending_cancel ::
  "64 word \<Rightarrow> ('h, 't) pending_requests \<Rightarrow> bool \<times> ('h, 't) pending_requests" where
  "pending_cancel i p = (let (taken, p') = pending_take i p in (taken \<noteq> None, p'))"

definition pending_complete ::
  "64 word \<Rightarrow> 'r \<Rightarrow> time_point \<Rightarrow> ('h, 't) pending_requests
     \<Rightarrow> ('h, 't) pending_requests \<times> ('h, 't, 'r) handler_call list" where
  "pending_complete i response now p =
     (let (pending, p') = pending_take i p in
      case pending of
        None \<Rightarrow> (p', [])
      | Some req \<Rightarrow>
          if now \<ge> deadline req then (p', [Timeout (on_timeout req)])
          else (p', [Response (on_response req) response]))"

text \<open>The loop of \<open>expire\<close> over the map: the requests kept and those moved to \<open>expired\<close>.\<close>

fun expire_loop ::
  "time_point \<Rightarrow> ('k, ('h, 't) request) omap \<Rightarrow> ('k, ('h, 't) request) omap \<times> ('h, 't) request list" where
  "expire_loop now [] = ([], [])"
| "expire_loop now ((k, r) # m) =
     (let (kept, expired) = expire_loop now m in
      if now < deadline r then ((k, r) # kept, expired) else (kept, r # expired))"

definition pending_expire ::
  "time_point \<Rightarrow> ('h, 't) pending_requests
     \<Rightarrow> ('h, 't) pending_requests \<times> ('h, 't, 'r) handler_call list" where
  "pending_expire now p =
     (let (kept, expired) = expire_loop now (requests p) in
      (p\<lparr>requests := kept\<rparr>, map (\<lambda>r. Timeout (on_timeout r)) expired))"

definition pending_clear :: "('h, 't) pending_requests \<Rightarrow> ('h, 't) pending_requests" where
  "pending_clear p = p\<lparr>requests := []\<rparr>"

definition pending_start :: "('h, 't) pending_requests \<Rightarrow> ('h, 't) pending_requests" where
  "pending_start p = (if timer_running p then p else p\<lparr>timer_running := True\<rparr>)"

definition pending_stop :: "('h, 't) pending_requests \<Rightarrow> ('h, 't) pending_requests" where
  "pending_stop p = pending_clear (p\<lparr>timer_running := False\<rparr>)"

text \<open>One period of the timer thread: its wait ends early only when the timer is stopped.\<close>

definition timer_tick ::
  "time_point \<Rightarrow> ('h, 't) pending_requests
     \<Rightarrow> ('h, 't) pending_requests \<times> ('h, 't, 'r) handler_call list" where
  "timer_tick now p = (if timer_running p then pending_expire now p else (p, []))"

lemma expire_loop_filter:
  "expire_loop now m =
     (filter (\<lambda>(k, r). now < deadline r) m,
      map snd (filter (\<lambda>(k, r). deadline r \<le> now) m))"
  by (induction now m rule: expire_loop.induct) auto

subsection \<open>Traces\<close>

text \<open>
  The operations of a live registry. Every \<open>add\<close> carries a tag, stored as both handlers,
  so that a handler call names the request it belongs to. \<open>accepted\<close> are the tags
  of the requests that entered the map, \<open>called\<close> the tags whose handler was invoked,
  with the time and the kind of the call, \<open>dropped\<close> the tags removed with no call.
\<close>

datatype 'r pending_event =
    Add "64 word" nat time_point
  | CancelReq "64 word"
  | CompleteReq "64 word" 'r time_point
  | Tick time_point
  | Start | Stop | Clear

record 'r pending_trace =
  reg :: "(nat, nat) pending_requests"
  accepted :: "(nat \<times> time_point) list"
  called :: "(time_point \<times> (nat, nat, 'r) handler_call) list"
  dropped :: "nat list"

definition pending_tags :: "(nat, nat) pending_requests \<Rightarrow> nat list" where
  "pending_tags p = map (\<lambda>(k, r). on_response r) (requests p)"

fun call_tag :: "(nat, nat, 'r) handler_call \<Rightarrow> nat" where
  "call_tag (Response h r) = h"
| "call_tag (Timeout h) = h"

fun pending_step :: "'r pending_trace \<Rightarrow> 'r pending_event \<Rightarrow> 'r pending_trace" where
  "pending_step x (Add i tag dl) =
     x\<lparr>reg := pending_add i tag tag dl (reg x),
       accepted := accepted x @ (if om_find (requests (reg x)) i = None then [(tag, dl)] else [])\<rparr>"
| "pending_step x (CancelReq i) =
     x\<lparr>reg := snd (pending_cancel i (reg x)),
       dropped := dropped x @ (case om_find (requests (reg x)) i of None \<Rightarrow> [] | Some r \<Rightarrow> [on_response r])\<rparr>"
| "pending_step x (CompleteReq i r now) =
     (let (p, cs) = pending_complete i r now (reg x) in
      x\<lparr>reg := p, called := called x @ map (Pair now) cs\<rparr>)"
| "pending_step x (Tick now) =
     (let (p, cs) = timer_tick now (reg x) in
      x\<lparr>reg := p, called := called x @ map (Pair now) cs\<rparr>)"
| "pending_step x Start = x\<lparr>reg := pending_start (reg x)\<rparr>"
| "pending_step x Stop =
     x\<lparr>reg := pending_stop (reg x), dropped := dropped x @ pending_tags (reg x)\<rparr>"
| "pending_step x Clear =
     x\<lparr>reg := pending_clear (reg x), dropped := dropped x @ pending_tags (reg x)\<rparr>"

definition pending_trace_start :: "'r pending_trace" where
  "pending_trace_start = \<lparr>reg = pending_init, accepted = [], called = [], dropped = []\<rparr>"

text \<open>A call is timely: a response handler runs before the deadline of its request, a
  timeout handler at or after it.\<close>

fun timely :: "(nat \<times> time_point) list \<Rightarrow> time_point \<times> (nat, nat, 'r) handler_call \<Rightarrow> bool" where
  "timely acc (now, Response h r) = (\<exists>dl. (h, dl) \<in> set acc \<and> now < dl)"
| "timely acc (now, Timeout h) = (\<exists>dl. (h, dl) \<in> set acc \<and> dl \<le> now)"

definition pending_inv :: "'r pending_trace \<Rightarrow> bool" where
  "pending_inv x \<longleftrightarrow>
     om_wf (requests (reg x)) \<and>
     (\<forall>(k, r) \<in> set (requests (reg x)). on_timeout r = on_response r \<and>
        (on_response r, deadline r) \<in> set (accepted x)) \<and>
     mset (map fst (accepted x)) =
       mset (pending_tags (reg x)) + mset (map (call_tag \<circ> snd) (called x)) + mset (dropped x) \<and>
     (\<forall>c \<in> set (called x). timely (accepted x) c)"

lemma pending_tags_add:
  "mset (pending_tags (pending_add i tag tag dl p)) =
     (if om_find (requests p) i = None then {#tag#} else {#}) + mset (pending_tags p)"
  by (auto simp: pending_tags_def pending_add_def om_emplace_def mset_om_set split: option.splits)

lemma pending_tags_erase:
  assumes "om_wf (requests p)" and "om_find (requests p) i = Some r"
  shows "mset (pending_tags p) = add_mset (on_response r) (mset (pending_tags (p\<lparr>requests := om_erase i (requests p)\<rparr>)))"
  using mset_om_erase[OF assms] by (simp add: pending_tags_def)

lemma timely_mono: "timely acc c \<Longrightarrow> set acc \<subseteq> set acc' \<Longrightarrow> timely acc' c"
  by (cases "(acc, c)" rule: timely.cases) auto

lemma pending_inv_start: "pending_inv pending_trace_start"
  by (simp add: pending_inv_def pending_trace_start_def pending_init_def pending_tags_def)

lemma pending_inv_add: "pending_inv x \<Longrightarrow> pending_inv (pending_step x (Add i tag dl))"
proof (cases "om_find (requests (reg x)) i")
  case None
  assume inv: "pending_inv x"
  moreover have "timely (accepted x @ [(tag, dl)]) c" if "c \<in> set (called x)" for c
    using inv that by (auto simp: pending_inv_def intro: timely_mono)
  ultimately show ?thesis using None pending_tags_add[of i tag dl "reg x"]
    by (auto simp: pending_inv_def pending_add_def set_om_emplace)
next
  case (Some r)
  assume "pending_inv x"
  with Some show ?thesis
    by (simp add: pending_inv_def pending_add_def om_emplace_def pending_tags_def)
qed

lemma pending_inv_cancel: "pending_inv x \<Longrightarrow> pending_inv (pending_step x (CancelReq i))"
proof (cases "om_find (requests (reg x)) i")
  case None
  assume "pending_inv x"
  with None show ?thesis by (simp add: pending_inv_def pending_cancel_def pending_take_def)
next
  case (Some r)
  assume inv: "pending_inv x"
  then have "om_wf (requests (reg x))" by (simp add: pending_inv_def)
  from pending_tags_erase[OF this Some] inv Some show ?thesis
    by (auto simp: pending_inv_def pending_cancel_def pending_take_def om_erase_def[of _ "requests _"] om_wf_filter)
qed

lemma pending_inv_complete: "pending_inv x \<Longrightarrow> pending_inv (pending_step x (CompleteReq i r now))"
proof (cases "om_find (requests (reg x)) i")
  case None
  assume "pending_inv x"
  with None show ?thesis by (simp add: pending_inv_def pending_complete_def pending_take_def)
next
  case (Some q)
  assume inv: "pending_inv x"
  then have wf: "om_wf (requests (reg x))" by (simp add: pending_inv_def)
  have q: "(on_response q, deadline q) \<in> set (accepted x)" "on_timeout q = on_response q"
    using inv om_find_in_set[OF Some] by (auto simp: pending_inv_def)
  show ?thesis
  proof (cases "now < deadline q")
    case True
    with pending_tags_erase[OF wf Some] inv Some q show ?thesis
      by (auto simp: pending_inv_def pending_complete_def pending_take_def om_erase_def[of _ "requests _"] om_wf_filter)
  next
    case False
    with pending_tags_erase[OF wf Some] inv Some q show ?thesis
      by (auto simp: pending_inv_def pending_complete_def pending_take_def om_erase_def[of _ "requests _"] om_wf_filter not_less)
  qed
qed

lemma pending_inv_tick: "pending_inv x \<Longrightarrow> pending_inv (pending_step x (Tick now))"
proof (cases "timer_running (reg x)")
  case False
  assume "pending_inv x"
  with False show ?thesis by (simp add: timer_tick_def)
next
  case True
  assume inv: "pending_inv x"
  let ?m = "requests (reg x)"
  have tags: "map (\<lambda>r. on_timeout (snd r)) (filter (\<lambda>(k, r). deadline r \<le> now) ?m) =
      map (\<lambda>(k, r). on_response r) (filter (\<lambda>(k, r). deadline r \<le> now) ?m)"
    using inv by (auto simp: pending_inv_def)
  have "filter (\<lambda>p. \<not> (case p of (k, r) \<Rightarrow> now < deadline r)) ?m = filter (\<lambda>(k, r). deadline r \<le> now) ?m"
    by (intro filter_cong) auto
  then have "mset ?m = mset (filter (\<lambda>(k, r). now < deadline r) ?m) + mset (filter (\<lambda>(k, r). deadline r \<le> now) ?m)"
    by (metis mset_filter multiset_partition)
  then have split: "mset (pending_tags (reg x)) =
      mset (map (\<lambda>(k, r). on_response r) (filter (\<lambda>(k, r). now < deadline r) ?m)) +
      mset (map (\<lambda>r. on_timeout (snd r)) (filter (\<lambda>(k, r). deadline r \<le> now) ?m))"
    unfolding tags pending_tags_def by (simp only: mset_map image_mset_union)
  have late: "\<exists>dl. (on_timeout r, dl) \<in> set (accepted x) \<and> dl \<le> now"
    if "(k, r) \<in> set ?m" and "deadline r \<le> now" for k r
    using inv that by (fastforce simp: pending_inv_def)
  from split inv True show ?thesis
    by (auto simp: pending_inv_def timer_tick_def pending_expire_def expire_loop_filter
      pending_tags_def comp_def om_wf_filter intro: late simp del: mset_map)
qed

lemma pending_inv_stop:
  "pending_inv x \<Longrightarrow> pending_inv (pending_step x Stop)" "pending_inv x \<Longrightarrow> pending_inv (pending_step x Clear)"
  "pending_inv x \<Longrightarrow> pending_inv (pending_step x Start)"
  by (simp_all add: pending_inv_def pending_stop_def pending_clear_def pending_start_def pending_tags_def)

interpretation pend: event_machine pending_trace_start pending_step pending_inv
proof unfold_locales
  show "pending_inv pending_trace_start" by (rule pending_inv_start)
  show "pending_inv x \<Longrightarrow> pending_inv (pending_step x e)" for x :: "'a pending_trace" and e
    by (cases e) (simp_all only: pending_inv_add pending_inv_cancel pending_inv_complete
      pending_inv_tick pending_inv_stop)
qed

subsection \<open>Properties\<close>

text \<open>C9. Every request is settled at most once, in every sequence of operations: the
  requests that ever entered the registry are exactly (with multiplicity) those still
  pending, those whose handler was called, and those removed by \<open>cancel\<close>, \<open>clear\<close> or
  \<open>stop\<close>; so no handler runs twice or after a cancellation, and no request disappears
  without one of these. Every response handler runs before the request's deadline and
  every timeout handler at or after it.\<close>

theorem request_settled_once:
  "let x = run_events pending_step pending_trace_start es in
     mset (map fst (accepted x)) =
       mset (pending_tags (reg x)) + mset (map (call_tag \<circ> snd) (called x)) + mset (dropped x) \<and>
     list_all (timely (accepted x)) (called x)"
proof -
  have "pending_inv (run_events pending_step pending_trace_start es)" by (rule pend.ok_run)
  then show ?thesis by (simp add: pending_inv_def list_all_iff Let_def)
qed

text \<open>A timer tick settles everything overdue and nothing else: a request whose deadline
  has been reached leaves the registry and its timeout handler is called, every other
  request stays as it was.\<close>

theorem tick_settles_overdue:
  assumes "timer_running p" and "om_wf (requests p)" and "om_find (requests p) i = Some r"
  shows "let (p', cs) = timer_tick now p in
    (if deadline r \<le> now
     then om_find (requests p') i = None \<and> Timeout (on_timeout r) \<in> set cs
     else om_find (requests p') i = Some r)"
proof -
  have i: "(i, r) \<in> set (requests p)" using assms(2,3) by (simp add: om_find_iff)
  have "om_find (filter (\<lambda>(k, r). now < deadline r) (requests p)) i = (if now < deadline r then Some r else None)"
    using assms(2,3) om_find_erase_if[OF assms(2), of "\<lambda>k r. \<not> now < deadline r" i]
    by (simp add: om_erase_if_filter)
  with i assms(1) show ?thesis
    by (force simp: timer_tick_def pending_expire_def expire_loop_filter)
qed

theorem tick_settles_overdue_witness:
  "let p = pending_add 7 ''resp'' ''late'' 100 (pending_start pending_init);
       (p', cs) = timer_tick 100 p
   in om_find (requests p') 7 = None \<and> Timeout ''late'' \<in> set (cs :: (string, string, nat) handler_call list)"
  using tick_settles_overdue[where p = "pending_add 7 ''resp'' ''late'' 100 (pending_start pending_init)"
      and i = 7 and now = 100 and r = "\<lparr>deadline = 100, on_response = ''resp'', on_timeout = ''late''\<rparr>"]
  by (simp add: pending_add_def pending_start_def pending_init_def om_find_emplace om_find_Nil Let_def)

end
