(* ===== verification/Job_Scheduler.thy ===== *)
theory Job_Scheduler
  imports Rsp_Prelude
begin

text \<open>
  The serial job queue of a session (\<open>job/job_scheduler.hpp\<close>). A job is started by
  \<open>run\<close> with a completion callback; the callback of one run acts once. Jobs are values
  of an arbitrary type, callbacks are numbered by the run that created them, and every
  operation returns the calls it makes on jobs, in order. A job that completes inside its
  own \<open>run\<close> is the same event sequence as one whose callback is invoked later.
\<close>

record 'j scheduler =
  jobs :: "'j list"
  running :: bool
  stopped :: bool
  completed :: "bool list"

datatype 'j job_call = Run 'j nat | CancelShutdown 'j

definition job_scheduler_init :: "'j scheduler" where
  "job_scheduler_init = \<lparr>jobs = [], running = False, stopped = False, completed = []\<rparr>"

definition scheduler_clear :: "'j scheduler \<Rightarrow> 'j scheduler" where
  "scheduler_clear s = s\<lparr>jobs := []\<rparr>"

text \<open>\<open>run\<close>: a fresh \<open>completed\<close> flag, captured by the callback handed to the job.\<close>

definition scheduler_run :: "'j scheduler \<Rightarrow> 'j \<Rightarrow> 'j scheduler \<times> 'j job_call list" where
  "scheduler_run s current =
     (s\<lparr>completed := completed s @ [False]\<rparr>, [Run current (length (completed s))])"

definition push_and_run :: "'j scheduler \<Rightarrow> 'j \<Rightarrow> 'j scheduler \<times> 'j job_call list" where
  "push_and_run s j =
     (if stopped s then (s, [CancelShutdown j])
      else
        (let s' = s\<lparr>jobs := jobs s @ [j]\<rparr> in
         if \<not> running s' then scheduler_run (s'\<lparr>running := True\<rparr>) (hd (jobs s'))
         else (s', [])))"

definition scheduler_shutdown :: "'j scheduler \<Rightarrow> 'j scheduler \<times> 'j job_call list" where
  "scheduler_shutdown s =
     (if stopped s then (s, [])
      else (s\<lparr>stopped := True, running := False, jobs := []\<rparr>, map CancelShutdown (jobs s)))"

definition complete_current :: "'j scheduler \<Rightarrow> 'j scheduler \<times> 'j job_call list" where
  "complete_current s =
     (case jobs s of
        [] \<Rightarrow> (s, [])
      | _ # [] \<Rightarrow> (s\<lparr>jobs := [], running := False\<rparr>, [])
      | _ # next # rest \<Rightarrow> scheduler_run (s\<lparr>jobs := next # rest\<rparr>) next)"

text \<open>The completion callback of run number \<open>t\<close>.\<close>

definition done_callback :: "'j scheduler \<Rightarrow> nat \<Rightarrow> 'j scheduler \<times> 'j job_call list" where
  "done_callback s t =
     (if t < length (completed s) \<and> \<not> completed s ! t
      then complete_current (s\<lparr>completed := (completed s)[t := True]\<rparr>)
      else (s, []))"

subsection \<open>Runs\<close>

text \<open>
  Everything that happens to a live scheduler, and the calls it has made so far.
  \<open>clear\<close> is called by the destructor only and is not an event of a live scheduler.
\<close>

datatype 'j sched_event = Push 'j | Done nat | Shutdown

fun sched_apply :: "'j scheduler \<Rightarrow> 'j sched_event \<Rightarrow> 'j scheduler \<times> 'j job_call list" where
  "sched_apply s (Push j) = push_and_run s j"
| "sched_apply s (Done t) = done_callback s t"
| "sched_apply s Shutdown = scheduler_shutdown s"

record 'j sched_trace =
  sched :: "'j scheduler"
  pushed :: "'j list"
  calls :: "'j job_call list"

definition sched_step :: "'j sched_trace \<Rightarrow> 'j sched_event \<Rightarrow> 'j sched_trace" where
  "sched_step x e =
     (let (s', cs) = sched_apply (sched x) e in
      \<lparr>sched = s',
       pushed = pushed x @ (case e of Push j \<Rightarrow> [j] | _ \<Rightarrow> []),
       calls = calls x @ cs\<rparr>)"

definition sched_start :: "'j sched_trace" where
  "sched_start = \<lparr>sched = job_scheduler_init, pushed = [], calls = []\<rparr>"

text \<open>The jobs started and the jobs cancelled, in order.\<close>

fun started_jobs :: "'j job_call list \<Rightarrow> 'j list" where
  "started_jobs [] = []"
| "started_jobs (Run j t # cs) = j # started_jobs cs"
| "started_jobs (CancelShutdown j # cs) = started_jobs cs"

fun cancelled_jobs :: "'j job_call list \<Rightarrow> 'j list" where
  "cancelled_jobs [] = []"
| "cancelled_jobs (Run j t # cs) = cancelled_jobs cs"
| "cancelled_jobs (CancelShutdown j # cs) = j # cancelled_jobs cs"

lemma started_jobs_append [simp]: "started_jobs (xs @ ys) = started_jobs xs @ started_jobs ys"
  by (induction xs rule: started_jobs.induct) simp_all

lemma cancelled_jobs_append [simp]: "cancelled_jobs (xs @ ys) = cancelled_jobs xs @ cancelled_jobs ys"
  by (induction xs rule: cancelled_jobs.induct) simp_all

lemma job_calls_cancel [simp]:
  "started_jobs (map CancelShutdown js) = []" "cancelled_jobs (map CancelShutdown js) = js"
  by (induction js) simp_all

text \<open>The runs whose callback has not been used.\<close>

definition open_runs :: "bool list \<Rightarrow> nat set" where
  "open_runs flags = {t. t < length flags \<and> \<not> flags ! t}"

text \<open>
  The invariant. While the scheduler is live it runs exactly the front of its queue, and
  what was pushed is what was started followed by what waits. After a shutdown the queue
  is empty, the jobs that waited have been cancelled, and so has the job in flight.
\<close>

definition live_inv :: "'j sched_trace \<Rightarrow> bool" where
  "live_inv x \<longleftrightarrow> (let s = sched x in
     (running s \<longleftrightarrow> jobs s \<noteq> []) \<and>
     open_runs (completed s) = (if running s then {length (completed s) - 1} else {}) \<and>
     (running s \<longrightarrow> completed s \<noteq> [] \<and>
        (\<exists>js. started_jobs (calls x) = js @ [hd (jobs s)])) \<and>
     pushed x = started_jobs (calls x) @ tl (jobs s) \<and>
     cancelled_jobs (calls x) = [])"

definition stopped_inv :: "'j sched_trace \<Rightarrow> bool" where
  "stopped_inv x \<longleftrightarrow> (let s = sched x in
     jobs s = [] \<and> \<not> running s \<and> open_runs (completed s) \<subseteq> {length (completed s) - 1} \<and>
     (\<exists>inflight waiting. cancelled_jobs (calls x) = inflight @ waiting \<and>
        pushed x = started_jobs (calls x) @ waiting \<and>
        (inflight = [] \<or> (\<exists>js j. inflight = [j] \<and> started_jobs (calls x) = js @ [j]))))"

definition sched_inv :: "'j sched_trace \<Rightarrow> bool" where
  "sched_inv x \<longleftrightarrow> length (started_jobs (calls x)) = length (completed (sched x)) \<and>
     (if stopped (sched x) then stopped_inv x else live_inv x)"

lemmas sched_ops = push_and_run_def scheduler_run_def scheduler_shutdown_def complete_current_def
  done_callback_def Let_def

lemma open_runs_Nil [simp]: "open_runs [] = {}"
  by (simp add: open_runs_def)

lemma open_runs_append [simp]: "open_runs (fs @ [False]) = insert (length fs) (open_runs fs)"
  by (auto simp: open_runs_def nth_append)

lemma open_runs_done [simp]: "open_runs (fs[t := True]) = open_runs fs - {t}"
  by (cases "t < length fs") (auto simp: open_runs_def nth_list_update list_update_beyond)

lemma sched_inv_start: "sched_inv sched_start"
  by (simp add: sched_inv_def live_inv_def sched_start_def job_scheduler_init_def)

lemma sched_inv_push: "sched_inv x \<Longrightarrow> sched_inv (sched_step x (Push j))"
proof (cases "stopped (sched x)")
  case True
  assume inv: "sched_inv x"
  then obtain inflight waiting where "cancelled_jobs (calls x) = inflight @ waiting"
    "pushed x = started_jobs (calls x) @ waiting"
    "inflight = [] \<or> (\<exists>js j. inflight = [j] \<and> started_jobs (calls x) = js @ [j])"
    using True by (auto simp: sched_inv_def stopped_inv_def Let_def)
  then show ?thesis using inv True
    by (auto simp: sched_inv_def stopped_inv_def sched_step_def sched_ops intro!: exI[of _ inflight])
next
  case False
  assume inv: "sched_inv x"
  show ?thesis
  proof (cases "running (sched x)")
    case True
    with inv False show ?thesis
      by (auto simp: sched_inv_def live_inv_def sched_step_def sched_ops)
  next
    case idle: False
    with inv False show ?thesis
      by (auto simp: sched_inv_def live_inv_def sched_step_def sched_ops)
  qed
qed

lemma sched_inv_shutdown: "sched_inv x \<Longrightarrow> sched_inv (sched_step x Shutdown)"
proof (cases "stopped (sched x)")
  case True
  assume "sched_inv x"
  with True show ?thesis
    by (simp add: sched_inv_def stopped_inv_def sched_step_def sched_ops)
next
  case False
  assume inv: "sched_inv x"
  show ?thesis
  proof (cases "jobs (sched x)")
    case Nil
    with inv False show ?thesis
      by (auto simp: sched_inv_def live_inv_def stopped_inv_def sched_step_def sched_ops)
  next
    case (Cons j js)
    with inv False show ?thesis
      by (auto simp: sched_inv_def live_inv_def stopped_inv_def sched_step_def sched_ops
        intro!: exI[of _ "[j]"])
  qed
qed

lemma sched_inv_done: "sched_inv x \<Longrightarrow> sched_inv (sched_step x (Done t))"
proof (cases "t \<in> open_runs (completed (sched x))")
  case False
  assume "sched_inv x"
  moreover from False have "done_callback (sched x) t = (sched x, [])"
    by (auto simp: done_callback_def open_runs_def)
  then have "sched_step x (Done t) = x" by (simp add: sched_step_def)
  ultimately show ?thesis by simp
next
  case True
  assume inv: "sched_inv x"
  let ?s = "sched x"
  have cb: "done_callback ?s t = complete_current (?s\<lparr>completed := (completed ?s)[t := True]\<rparr>)"
    using True by (simp add: done_callback_def open_runs_def)
  show ?thesis
  proof (cases "stopped ?s")
    case True
    with inv cb show ?thesis
      by (auto simp: sched_inv_def stopped_inv_def sched_step_def complete_current_def Let_def)
  next
    case live: False
    with inv True have run: "running ?s" and t: "t = length (completed ?s) - 1"
      and ne: "jobs ?s \<noteq> []" "completed ?s \<noteq> []"
      and opn: "open_runs (completed ?s) = {length (completed ?s) - 1}"
      by (auto simp: sched_inv_def live_inv_def Let_def split: if_splits)
    let ?c = "?s\<lparr>completed := (completed ?s)[t := True]\<rparr>"
    have closed: "open_runs (completed ?c) = {}" using opn t by simp
    show ?thesis
    proof (cases "tl (jobs ?s)")
      case Nil
      with ne obtain j where j: "jobs ?s = [j]" by (cases "jobs ?s") auto
      with inv live cb closed show ?thesis
        by (auto simp: sched_inv_def live_inv_def sched_step_def complete_current_def Let_def)
    next
      case (Cons nxt rest)
      with ne obtain j where j: "jobs ?s = j # nxt # rest" by (cases "jobs ?s") auto
      with inv live run cb closed show ?thesis
        by (auto simp: sched_inv_def live_inv_def sched_step_def complete_current_def scheduler_run_def Let_def)
    qed
  qed
qed

interpretation sched: event_machine sched_start sched_step sched_inv
proof unfold_locales
  show "sched_inv sched_start" by (rule sched_inv_start)
  show "sched_inv x \<Longrightarrow> sched_inv (sched_step x e)" for x :: "'a sched_trace" and e
    by (cases e) (simp_all add: sched_inv_push sched_inv_shutdown sched_inv_done)
qed

subsection \<open>Properties\<close>

text \<open>C8. Serial FIFO execution, for every sequence of pushes, callbacks (used once or
  several times, in any order) and shutdowns: at most one started job has not completed;
  jobs start in the order they were pushed; until a shutdown every pushed job has either
  started or waits in the queue, in order, and none is cancelled; after it every pushed
  job has been started or cancelled, and a job that was started has been cancelled only
  when it was the one in flight at the shutdown.\<close>

theorem scheduler_serial_fifo:
  "let x = run_events sched_step sched_start es in
    open_runs (completed (sched x)) \<subseteq> {length (completed (sched x)) - 1} \<and>
    (if stopped (sched x)
     then \<exists>inflight waiting. cancelled_jobs (calls x) = inflight @ waiting \<and>
       pushed x = started_jobs (calls x) @ waiting \<and>
       (inflight = [] \<or> (\<exists>js j. inflight = [j] \<and> started_jobs (calls x) = js @ [j]))
     else pushed x = started_jobs (calls x) @ tl (jobs (sched x)) \<and> cancelled_jobs (calls x) = [])"
proof -
  have "sched_inv (run_events sched_step sched_start es)" by (rule sched.ok_run)
  then show ?thesis
    by (auto simp: sched_inv_def live_inv_def stopped_inv_def Let_def split: if_splits)
qed

text \<open>The job in flight completes: its callback is invoked for the first time.\<close>

definition finish_current :: "'j sched_trace \<Rightarrow> 'j sched_trace" where
  "finish_current x = sched_step x (Done (length (completed (sched x)) - 1))"

lemma finish_current_live:
  assumes "sched_inv x" and "\<not> stopped (sched x)" and "jobs (sched x) = j # js"
  shows "\<not> stopped (sched (finish_current x))" and "jobs (sched (finish_current x)) = js"
    and "pushed (finish_current x) = pushed x"
proof -
  have "length (completed (sched x)) - 1 \<in> open_runs (completed (sched x))"
    using assms by (auto simp: sched_inv_def live_inv_def Let_def split: if_splits)
  with assms(2,3) show "\<not> stopped (sched (finish_current x))" "jobs (sched (finish_current x)) = js"
      "pushed (finish_current x) = pushed x"
    by (auto simp: finish_current_def sched_step_def done_callback_def complete_current_def
      scheduler_run_def open_runs_def split: list.splits)
qed

lemma finish_all:
  assumes "sched_inv x" and "\<not> stopped (sched x)"
  shows "let y = (finish_current ^^ length (jobs (sched x))) x in
    started_jobs (calls y) = pushed x \<and> jobs (sched y) = [] \<and> \<not> running (sched y)"
  using assms
proof (induction "length (jobs (sched x))" arbitrary: x)
  case 0
  then show ?case by (simp add: sched_inv_def live_inv_def Let_def)
next
  case (Suc n)
  then obtain j js where js: "jobs (sched x) = j # js" by (cases "jobs (sched x)") auto
  note step = finish_current_live[OF Suc.prems js]
  have "sched_inv (finish_current x)"
    using Suc.prems(1) by (simp add: finish_current_def sched.ok_step)
  from Suc.hyps(1)[OF _ this step(1)] Suc.hyps(2) step(2,3) js show ?case
    by (simp add: funpow_swap1)
qed

text \<open>C40. No job is stuck: from every state a live scheduler can reach, once the jobs in its
  queue have completed one after the other, every job that was ever pushed has been
  started, in push order, and the scheduler is idle.\<close>

theorem scheduler_drains:
  assumes "\<not> stopped (sched (run_events sched_step sched_start es))"
  shows "let x = run_events sched_step sched_start es;
             y = (finish_current ^^ length (jobs (sched x))) x
    in started_jobs (calls y) = pushed x \<and> jobs (sched y) = [] \<and> \<not> running (sched y)"
  using finish_all[OF sched.ok_run assms(1)] by (simp add: Let_def)

theorem scheduler_drains_witness:
  "started_jobs (calls ((finish_current ^^ 2)
     (run_events sched_step sched_start [Push ''a'', Push ''b'', Done 0, Push ''c'']))) =
   [''a'', ''b'', ''c'']"
proof -
  let ?es = "[Push ''a'', Push ''b'', Done 0, Push ''c'']"
  note eval = sched_step_def sched_start_def job_scheduler_init_def sched_ops
  have "\<not> stopped (sched (run_events sched_step sched_start ?es))"
    and "length (jobs (sched (run_events sched_step sched_start ?es))) = 2"
    and "pushed (run_events sched_step sched_start ?es) = [''a'', ''b'', ''c'']"
    by (simp_all add: eval)
  with scheduler_drains[of ?es] show ?thesis by (simp add: Let_def)
qed

text \<open>\<open>clear\<close> empties the queue but leaves \<open>running_\<close> set: while a job is in flight,
  a job pushed after a \<open>clear\<close> is not started, and the completion of the old job pops the
  new one from the queue without running or cancelling it.\<close>

theorem clear_in_flight_loses_job:
  "let s1 = fst (push_and_run job_scheduler_init a);
       s2 = fst (push_and_run (scheduler_clear s1) b);
       (s3, cs) = done_callback s2 0
   in snd (push_and_run (scheduler_clear s1) b) = [] \<and> cs = [] \<and> jobs s3 = []"
  by (simp add: job_scheduler_init_def scheduler_clear_def sched_ops)

end
