(* ===== verification/User_Server.thy ===== *)
theory User_Server
  imports Message_Dispatcher Pending_Requests Job_Scheduler
begin

text \<open>
  The user server: sessions (\<open>session.hpp\<close>, \<open>session.cpp\<close>), their jobs (\<open>user/job/\<close>), the
  session manager, the acceptor that feeds it, and the room channel with its registry of
  outstanding requests. A \<open>shared_ptr\<close> to a session or a job is an index into the list of
  all that were ever made; a connection is a number. Work posted on the strand of a session
  is a value that names the closure, run in posting order. What a session hands to its
  connection is recorded in \<open>s_out\<close>, what the room channel hands to its dealer in \<open>to_room\<close>.
  An exception that leaves a strand task, or a null pointer that is dereferenced, ends the
  process: \<open>crashed\<close>. \<open>sz\<close> is \<open>ByteSizeLong\<close> of the protobuf encoding, \<open>parse\<close> its inverse.
\<close>

datatype UserState = kLogouted | kLoggedIn | kDetached | kInRoom

text \<open>A message sent for a job carries that job's index.\<close>

datatype out_call = LinkSend "nat option" message | LinkStop bool

datatype job_class =
    Job_login message
  | Job_logout message
  | Job_create_room message
  | Job_join_room message
  | Job_leave_room message
  | Job_forward_message message
  | Job_cli_forward_message message
  | Job_ntf_leave_room_message message
  | Job_stop bool

datatype cancel_reason = kTimeout | kShutdown

record user_job =
  j_class :: job_class
  j_session :: nat
  j_done :: "nat option"
  j_room_request_id :: "64 word"
  j_finished :: bool

datatype session_task = PushJob nat | ShutdownScheduler | HandleRes nat message | TimeoutCancel nat

record session =
  s_conn :: nat
  s_strand :: "session_task list"
  s_scheduler :: "nat scheduler"
  s_state :: UserState
  s_uid :: Uid
  s_stop :: bool
  s_room_id :: RoomId
  s_out :: "out_call list"

text \<open>
  A response handler of the registry captures its job; a timeout handler the request id and
  the job. \<open>requests_made\<close> counts the requests ever sent.
\<close>

record user_server =
  sessions :: "session list"
  job_heap :: "user_job list"
  by_conn :: "(nat, nat) omap"
  by_uid :: "(Uid, nat) omap"
  waiting :: "(nat, 64 word \<times> nat) pending_requests"
  next_request_id :: "64 word"
  requests_made :: nat
  to_room :: "message list"
  crashed :: bool

definition user_server_init :: user_server where
  "user_server_init =
     \<lparr>sessions = [], job_heap = [], by_conn = [], by_uid = [], waiting = pending_start pending_init,
      next_request_id = 1, requests_made = 0, to_room = [], crashed = False\<rparr>"

definition upd_session :: "nat \<Rightarrow> (session \<Rightarrow> session) \<Rightarrow> user_server \<Rightarrow> user_server" where
  "upd_session i f u = u\<lparr>sessions := (sessions u)[i := f (sessions u ! i)]\<rparr>"

definition upd_job :: "nat \<Rightarrow> (user_job \<Rightarrow> user_job) \<Rightarrow> user_server \<Rightarrow> user_server" where
  "upd_job j f u = u\<lparr>job_heap := (job_heap u)[j := f (job_heap u ! j)]\<rparr>"

text \<open>What follows a call that may have thrown.\<close>

definition and_then :: "user_server \<Rightarrow> (user_server \<Rightarrow> user_server) \<Rightarrow> user_server" where
  "and_then u f = (if crashed u then u else f u)"

subsection \<open>Sessions\<close>

definition session_new :: "nat \<Rightarrow> session" where
  "session_new conn =
     \<lparr>s_conn = conn, s_strand = [], s_scheduler = job_scheduler_init, s_state = kLogouted, s_uid = [],
      s_stop = False, s_room_id = 0, s_out = []\<rparr>"

text \<open>\<open>link::send\<close> of a serialized message; \<open>serialize\<close> throws on an overlong payload.\<close>

definition session_send :: "(message \<Rightarrow> nat) \<Rightarrow> nat \<Rightarrow> nat option \<Rightarrow> message \<Rightarrow> user_server \<Rightarrow> user_server" where
  "session_send sz i job m u =
     (if sz m > kMaxPayloadSize then u\<lparr>crashed := True\<rparr>
      else upd_session i (\<lambda>s. s\<lparr>s_out := s_out s @ [LinkSend job m]\<rparr>) u)"

definition session_stop :: "nat \<Rightarrow> bool \<Rightarrow> user_server \<Rightarrow> user_server" where
  "session_stop i force_close u =
     upd_session i (\<lambda>s. s\<lparr>s_stop := True, s_out := s_out s @ [LinkStop force_close]\<rparr>) u"

definition post_to_serial_context :: "nat \<Rightarrow> session_task \<Rightarrow> user_server \<Rightarrow> user_server" where
  "post_to_serial_context i t u = upd_session i (\<lambda>s. s\<lparr>s_strand := s_strand s @ [t]\<rparr>) u"

definition on_disconnected :: "nat \<Rightarrow> user_server \<Rightarrow> user_server" where
  "on_disconnected i u = post_to_serial_context i ShutdownScheduler u"

definition set_user :: "nat \<Rightarrow> Uid \<Rightarrow> user_server \<Rightarrow> user_server" where
  "set_user i u' u = upd_session i (\<lambda>s. s\<lparr>s_uid := u'\<rparr>) u"

definition set_enter_room :: "nat \<Rightarrow> RoomId \<Rightarrow> user_server \<Rightarrow> user_server" where
  "set_enter_room i r u = upd_session i (\<lambda>s. s\<lparr>s_room_id := r\<rparr>) u"

definition set_leave_room :: "nat \<Rightarrow> user_server \<Rightarrow> user_server" where
  "set_leave_room i u = upd_session i (\<lambda>s. s\<lparr>s_room_id := 0\<rparr>) u"

definition job_new :: "nat \<Rightarrow> job_class \<Rightarrow> user_job" where
  "job_new i c = \<lparr>j_class = c, j_session = i, j_done = None, j_room_request_id = 0, j_finished = False\<rparr>"

text \<open>\<open>make_shared\<close> of the job and \<open>enqueue_job\<close>.\<close>

definition enqueue_job :: "nat \<Rightarrow> job_class \<Rightarrow> user_server \<Rightarrow> user_server" where
  "enqueue_job i c u =
     post_to_serial_context i (PushJob (length (job_heap u))) (u\<lparr>job_heap := job_heap u @ [job_new i c]\<rparr>)"

definition enqueue_stop :: "nat \<Rightarrow> bool \<Rightarrow> user_server \<Rightarrow> user_server" where
  "enqueue_stop i force u = enqueue_job i (Job_stop force) u"

definition on_recv_unknown :: "nat \<Rightarrow> user_server \<Rightarrow> user_server" where
  "on_recv_unknown i u = enqueue_stop i False u"

text \<open>The specialisations of \<open>on_recv\<close>; every other message only refreshes a time stamp that
  nothing reads.\<close>

fun session_on_recv :: "(message \<Rightarrow> nat) \<Rightarrow> nat \<Rightarrow> message \<Rightarrow> user_server \<Rightarrow> user_server" where
  "session_on_recv sz i Ping u = session_send sz i None Pong u"
| "session_on_recv sz i (ReqLogin q n) u = enqueue_job i (Job_login (ReqLogin q n)) u"
| "session_on_recv sz i (ReqLogout q) u = enqueue_job i (Job_logout (ReqLogout q)) u"
| "session_on_recv sz i (ReqCreateRoom q) u = enqueue_job i (Job_create_room (ReqCreateRoom q)) u"
| "session_on_recv sz i (ReqJoinRoom q r) u = enqueue_job i (Job_join_room (ReqJoinRoom q r)) u"
| "session_on_recv sz i (ReqLeaveRoom q) u = enqueue_job i (Job_leave_room (ReqLeaveRoom q)) u"
| "session_on_recv sz i (FwdRoom t) u = enqueue_job i (Job_forward_message (FwdRoom t)) u"
| "session_on_recv sz i (User2RoomFwdClient ty su n t) u =
     enqueue_job i (Job_cli_forward_message (User2RoomFwdClient ty su n t)) u"
| "session_on_recv sz i (User2RoomNtfLeaveRoom n r k) u =
     enqueue_job i (Job_ntf_leave_room_message (User2RoomNtfLeaveRoom n r k)) u"
| "session_on_recv sz i _ u = u"

subsection \<open>Session manager and acceptor\<close>

definition add_session :: "nat \<Rightarrow> user_server \<Rightarrow> user_server" where
  "add_session i u =
     (let u = u\<lparr>by_conn := om_set (s_conn (sessions u ! i)) i (by_conn u)\<rparr>;
          name = s_uid (sessions u ! i)
      in if name \<noteq> [] then u\<lparr>by_uid := om_set name i (by_uid u)\<rparr> else u)"

definition add_session_conn :: "nat \<Rightarrow> user_server \<Rightarrow> user_server" where
  "add_session_conn conn u =
     (case om_find (by_conn u) conn of
        Some _ \<Rightarrow> u
      | None \<Rightarrow>
          u\<lparr>sessions := sessions u @ [session_new conn],
            by_conn := om_set conn (length (sessions u)) (by_conn u)\<rparr>)"

definition remove_session :: "nat \<Rightarrow> user_server \<Rightarrow> nat option \<times> user_server" where
  "remove_session conn u =
     (case om_find (by_conn u) conn of
        None \<Rightarrow> (None, u)
      | Some removed \<Rightarrow>
          (let name = s_uid (sessions u ! removed);
               u = (if name \<noteq> [] \<and> om_find (by_uid u) name = Some removed
                    then u\<lparr>by_uid := om_erase name (by_uid u)\<rparr> else u)
           in (Some removed, u\<lparr>by_conn := om_erase conn (by_conn u)\<rparr>)))"

definition find_session :: "Uid \<Rightarrow> user_server \<Rightarrow> nat option" where
  "find_session name u = om_find (by_uid u) name"

definition on_conn_created :: "nat \<Rightarrow> user_server \<Rightarrow> user_server" where
  "on_conn_created conn u = add_session_conn conn u"

definition on_conn_closed :: "nat \<Rightarrow> user_server \<Rightarrow> user_server" where
  "on_conn_closed conn u =
     (case remove_session conn u of (None, u) \<Rightarrow> u | (Some removed, u) \<Rightarrow> on_disconnected removed u)"

subsection \<open>Room channel\<close>

definition request_timeout :: time_point where "request_timeout = 5000000000"

text \<open>The result tells whether \<open>serialize\<close> returned.\<close>

definition send_notification :: "(message \<Rightarrow> nat) \<Rightarrow> message \<Rightarrow> user_server \<Rightarrow> bool \<times> user_server" where
  "send_notification sz m u =
     (if sz m > kMaxPayloadSize then (False, u) else (True, u\<lparr>to_room := to_room u @ [m]\<rparr>))"

definition send_cancel :: "(message \<Rightarrow> nat) \<Rightarrow> 64 word \<Rightarrow> user_server \<Rightarrow> user_server" where
  "send_cancel sz q u = snd (send_notification sz (User2RoomCancelRequest q) u)"

text \<open>\<open>send_request\<close>, given the request as a function of the id it is assigned.\<close>

definition send_request ::
  "(message \<Rightarrow> nat) \<Rightarrow> time_point \<Rightarrow> (64 word \<Rightarrow> message) \<Rightarrow> nat \<Rightarrow> user_server \<Rightarrow> 64 word \<times> user_server" where
  "send_request sz now request j u =
     (let q = next_request_id u;
          u = u\<lparr>next_request_id := q + 1, requests_made := Suc (requests_made u),
                waiting := pending_add q j (q, j) (now + request_timeout) (waiting u)\<rparr>
      in case send_notification sz (request q) u of
           (True, u) \<Rightarrow> (q, u)
         | (False, u) \<Rightarrow> (q, u\<lparr>crashed := True\<rparr>))"

definition cancel_request :: "(message \<Rightarrow> nat) \<Rightarrow> 64 word \<Rightarrow> user_server \<Rightarrow> user_server" where
  "cancel_request sz q u =
     (case pending_cancel q (waiting u) of
        (removed, w) \<Rightarrow> if removed then send_cancel sz q (u\<lparr>waiting := w\<rparr>) else u\<lparr>waiting := w\<rparr>)"

text \<open>The handlers a room job registers: both post to its session's strand, and the timeout
  cancels the request at the room server first.\<close>

fun run_handler :: "(message \<Rightarrow> nat) \<Rightarrow> (nat, 64 word \<times> nat, message) handler_call \<Rightarrow> user_server \<Rightarrow> user_server" where
  "run_handler sz (Response j m) u = post_to_serial_context (j_session (job_heap u ! j)) (HandleRes j m) u"
| "run_handler sz (Timeout (q, j)) u =
     post_to_serial_context (j_session (job_heap u ! j)) (TimeoutCancel j) (send_cancel sz q u)"

definition send_to_waiter :: "(message \<Rightarrow> nat) \<Rightarrow> time_point \<Rightarrow> message \<Rightarrow> user_server \<Rightarrow> user_server" where
  "send_to_waiter sz now m u =
     (case pending_complete (request_id m) m now (waiting u) of
        (w, cs) \<Rightarrow> fold (run_handler sz) cs (u\<lparr>waiting := w\<rparr>))"

definition pass_to_session :: "(message \<Rightarrow> nat) \<Rightarrow> message \<Rightarrow> user_server \<Rightarrow> user_server" where
  "pass_to_session sz m u =
     (case find_session (uid m) u of None \<Rightarrow> u | Some i \<Rightarrow> session_on_recv sz i m u)"

fun room_channel_on_recv :: "(message \<Rightarrow> nat) \<Rightarrow> time_point \<Rightarrow> message \<Rightarrow> user_server \<Rightarrow> user_server" where
  "room_channel_on_recv sz now (User2RoomFwdClient ty su n t) u = pass_to_session sz (User2RoomFwdClient ty su n t) u"
| "room_channel_on_recv sz now (User2RoomNtfLeaveRoom n r k) u = pass_to_session sz (User2RoomNtfLeaveRoom n r k) u"
| "room_channel_on_recv sz now (User2RoomResCreateRoom q n b r) u = send_to_waiter sz now (User2RoomResCreateRoom q n b r) u"
| "room_channel_on_recv sz now (User2RoomResJoinRoom q n r b) u = send_to_waiter sz now (User2RoomResJoinRoom q n r b) u"
| "room_channel_on_recv sz now (User2RoomResLeaveRoom q n b) u = send_to_waiter sz now (User2RoomResLeaveRoom q n b) u"
| "room_channel_on_recv sz now _ u = u"

text \<open>One period of the timer of the registry.\<close>

definition room_channel_timer :: "(message \<Rightarrow> nat) \<Rightarrow> time_point \<Rightarrow> user_server \<Rightarrow> user_server" where
  "room_channel_timer sz now u =
     (case timer_tick now (waiting u) of (w, cs) \<Rightarrow> fold (run_handler sz) cs (u\<lparr>waiting := w\<rparr>))"

text \<open>\<open>stop\<close>, at the end of the process; the dealer is modelled with the channels.\<close>

definition room_channel_stop :: "user_server \<Rightarrow> user_server" where
  "room_channel_stop u = u\<lparr>waiting := pending_clear (pending_stop (waiting u))\<rparr>"

subsection \<open>Jobs that complete at once\<close>

definition send_res_login :: "(message \<Rightarrow> nat) \<Rightarrow> nat \<Rightarrow> Uid \<Rightarrow> nat \<Rightarrow> user_server \<Rightarrow> user_server" where
  "send_res_login sz j name i u =
     (let r = s_room_id (sessions u ! i) in session_send sz i (Some j) (ResLogin 0 name True (r \<noteq> 0) r) u)"

definition job_login_run :: "(message \<Rightarrow> nat) \<Rightarrow> nat \<Rightarrow> nat \<Rightarrow> message \<Rightarrow> user_server \<Rightarrow> user_server" where
  "job_login_run sz j i request u =
     and_then (send_res_login sz j (uid request) i u) (\<lambda>u. add_session i (set_user i (uid request) u))"

definition send_res_logout :: "(message \<Rightarrow> nat) \<Rightarrow> nat \<Rightarrow> nat \<Rightarrow> user_server \<Rightarrow> user_server" where
  "send_res_logout sz j i u = session_send sz i (Some j) (ResLogout 0 (s_uid (sessions u ! i))) u"

definition job_logout_run :: "(message \<Rightarrow> nat) \<Rightarrow> nat \<Rightarrow> nat \<Rightarrow> user_server \<Rightarrow> user_server" where
  "job_logout_run sz j i u = and_then (send_res_logout sz j i u) (enqueue_stop i False)"

definition job_stop_run :: "nat \<Rightarrow> bool \<Rightarrow> user_server \<Rightarrow> user_server" where
  "job_stop_run i force_close u = session_stop i force_close u"

definition job_forward_message_run :: "(message \<Rightarrow> nat) \<Rightarrow> nat \<Rightarrow> message \<Rightarrow> user_server \<Rightarrow> user_server" where
  "job_forward_message_run sz i m u =
     (case send_notification sz (User2RoomFwdRoom 0 (s_uid (sessions u ! i)) (text_of m)) u of
        (True, u) \<Rightarrow> u
      | (False, u) \<Rightarrow> u\<lparr>crashed := True\<rparr>)"

definition job_cli_forward_message_run :: "(message \<Rightarrow> nat) \<Rightarrow> nat \<Rightarrow> nat \<Rightarrow> message \<Rightarrow> user_server \<Rightarrow> user_server" where
  "job_cli_forward_message_run sz j i m u =
     session_send sz i (Some j) (FwdClient (sender_type m) (sender_uid m) (uid m) (text_of m)) u"

definition job_ntf_leave_room_message_run :: "(message \<Rightarrow> nat) \<Rightarrow> nat \<Rightarrow> nat \<Rightarrow> message \<Rightarrow> user_server \<Rightarrow> user_server" where
  "job_ntf_leave_room_message_run sz j i m u =
     and_then (session_send sz i (Some j) (NtfLeaveRoom [] (reason m) None) u) (set_leave_room i)"

subsection \<open>Jobs that wait for the room server\<close>

text \<open>
  The members common to the three: \<open>run\<close> around its request, \<open>cancel\<close> around its timeout
  response, and \<open>finish\<close>. A function that ends by calling \<open>done\<close> returns the run it
  completes.
\<close>

definition room_job_run ::
  "(message \<Rightarrow> nat) \<Rightarrow> time_point \<Rightarrow> (64 word \<Rightarrow> message) \<Rightarrow> nat \<Rightarrow> nat \<Rightarrow> user_server \<Rightarrow> user_server" where
  "room_job_run sz now request j t u =
     (case send_request sz now request j (upd_job j (\<lambda>x. x\<lparr>j_done := Some t\<rparr>) u) of
        (q, u) \<Rightarrow> and_then u (upd_job j (\<lambda>x. x\<lparr>j_room_request_id := q\<rparr>)))"

definition job_finish :: "nat \<Rightarrow> user_server \<Rightarrow> user_server \<times> nat option" where
  "job_finish j u =
     (let x = job_heap u ! j in
      if j_finished x then (u, None)
      else (upd_job j (\<lambda>x. x\<lparr>j_finished := True, j_done := None\<rparr>) u, j_done x))"

text \<open>Replies and then finishes, unless the reply threw.\<close>

definition reply_and_finish ::
  "(message \<Rightarrow> nat) \<Rightarrow> nat \<Rightarrow> message \<Rightarrow> user_server \<Rightarrow> user_server \<times> nat option" where
  "reply_and_finish sz j m u =
     (let u = session_send sz (j_session (job_heap u ! j)) (Some j) m u
      in if crashed u then (u, None) else job_finish j u)"

definition room_job_cancel ::
  "(message \<Rightarrow> nat) \<Rightarrow> cancel_reason \<Rightarrow> message \<Rightarrow> nat \<Rightarrow> user_server \<Rightarrow> user_server \<times> nat option" where
  "room_job_cancel sz why timeout_response j u =
     (let x = job_heap u ! j in
      if j_finished x then (u, None)
      else
        (let u = cancel_request sz (j_room_request_id x) u
         in if why = kTimeout then reply_and_finish sz j timeout_response u else job_finish j u))"

subsubsection \<open>Create\<close>

definition job_create_room_run ::
  "(message \<Rightarrow> nat) \<Rightarrow> time_point \<Rightarrow> nat \<Rightarrow> nat \<Rightarrow> nat \<Rightarrow> user_server \<Rightarrow> user_server" where
  "job_create_room_run sz now j i t u =
     room_job_run sz now (\<lambda>q. User2RoomReqCreateRoom q (s_uid (sessions u ! i))) j t u"

definition create_room_timeout_response :: "message \<Rightarrow> message" where
  "create_room_timeout_response request = ResCreateRoom (request_id request) False 0"

definition job_create_room_cancel ::
  "(message \<Rightarrow> nat) \<Rightarrow> cancel_reason \<Rightarrow> message \<Rightarrow> nat \<Rightarrow> user_server \<Rightarrow> user_server \<times> nat option" where
  "job_create_room_cancel sz why request j u = room_job_cancel sz why (create_room_timeout_response request) j u"

definition handle_res_create_room ::
  "(message \<Rightarrow> nat) \<Rightarrow> message \<Rightarrow> message \<Rightarrow> nat \<Rightarrow> user_server \<Rightarrow> user_server \<times> nat option" where
  "handle_res_create_room sz request msg j u =
     (if j_finished (job_heap u ! j) then (u, None)
      else case msg of
        User2RoomResCreateRoom q n ok r \<Rightarrow>
          reply_and_finish sz j (ResCreateRoom (request_id request) ok r)
            (set_enter_room (j_session (job_heap u ! j)) r u)
      | _ \<Rightarrow> (u\<lparr>crashed := True\<rparr>, None))"

subsubsection \<open>Join\<close>

definition job_join_room_run ::
  "(message \<Rightarrow> nat) \<Rightarrow> time_point \<Rightarrow> message \<Rightarrow> nat \<Rightarrow> nat \<Rightarrow> nat \<Rightarrow> user_server \<Rightarrow> user_server" where
  "job_join_room_run sz now request j i t u =
     room_job_run sz now (\<lambda>q. User2RoomReqJoinRoom q (s_uid (sessions u ! i)) (room_id request)) j t u"

definition join_room_timeout_response :: "message \<Rightarrow> message" where
  "join_room_timeout_response request = ResJoinRoom (request_id request) False (room_id request)"

definition job_join_room_cancel ::
  "(message \<Rightarrow> nat) \<Rightarrow> cancel_reason \<Rightarrow> message \<Rightarrow> nat \<Rightarrow> user_server \<Rightarrow> user_server \<times> nat option" where
  "job_join_room_cancel sz why request j u = room_job_cancel sz why (join_room_timeout_response request) j u"

definition handle_res_join_room ::
  "(message \<Rightarrow> nat) \<Rightarrow> message \<Rightarrow> message \<Rightarrow> nat \<Rightarrow> user_server \<Rightarrow> user_server \<times> nat option" where
  "handle_res_join_room sz request msg j u =
     (if j_finished (job_heap u ! j) then (u, None)
      else case msg of
        User2RoomResJoinRoom q n r ok \<Rightarrow>
          reply_and_finish sz j (ResJoinRoom (request_id request) ok r)
            (if ok then set_enter_room (j_session (job_heap u ! j)) r u else u)
      | _ \<Rightarrow> (u\<lparr>crashed := True\<rparr>, None))"

subsubsection \<open>Leave\<close>

definition job_leave_room_run ::
  "(message \<Rightarrow> nat) \<Rightarrow> time_point \<Rightarrow> nat \<Rightarrow> nat \<Rightarrow> nat \<Rightarrow> user_server \<Rightarrow> user_server" where
  "job_leave_room_run sz now j i t u =
     room_job_run sz now (\<lambda>q. User2RoomReqLeaveRoom q 0 (s_uid (sessions u ! i))) j t u"

definition leave_room_timeout_response :: "message \<Rightarrow> message" where
  "leave_room_timeout_response request = ResLeaveRoom (request_id request) False"

definition job_leave_room_cancel ::
  "(message \<Rightarrow> nat) \<Rightarrow> cancel_reason \<Rightarrow> message \<Rightarrow> nat \<Rightarrow> user_server \<Rightarrow> user_server \<times> nat option" where
  "job_leave_room_cancel sz why request j u = room_job_cancel sz why (leave_room_timeout_response request) j u"

definition handle_res_leave_room ::
  "(message \<Rightarrow> nat) \<Rightarrow> message \<Rightarrow> message \<Rightarrow> nat \<Rightarrow> user_server \<Rightarrow> user_server \<times> nat option" where
  "handle_res_leave_room sz request msg j u =
     (if j_finished (job_heap u ! j) then (u, None)
      else case msg of
        User2RoomResLeaveRoom q n ok \<Rightarrow>
          reply_and_finish sz j (ResLeaveRoom (request_id request) ok)
            (set_leave_room (j_session (job_heap u ! j)) u)
      | _ \<Rightarrow> (u\<lparr>crashed := True\<rparr>, None))"

subsection \<open>Running jobs\<close>

text \<open>The virtual calls of \<open>job\<close>. \<open>run\<close> of a job that completes at once ends in \<open>done()\<close>.\<close>

definition completes :: "nat \<Rightarrow> user_server \<Rightarrow> user_server \<times> nat option" where
  "completes t u = (u, if crashed u then None else Some t)"

fun job_run ::
  "(message \<Rightarrow> nat) \<Rightarrow> time_point \<Rightarrow> job_class \<Rightarrow> nat \<Rightarrow> nat \<Rightarrow> nat \<Rightarrow> user_server \<Rightarrow> user_server \<times> nat option" where
  "job_run sz now (Job_login m) j i t u = completes t (job_login_run sz j i m u)"
| "job_run sz now (Job_logout m) j i t u = completes t (job_logout_run sz j i u)"
| "job_run sz now (Job_stop force) j i t u = completes t (job_stop_run i force u)"
| "job_run sz now (Job_forward_message m) j i t u = completes t (job_forward_message_run sz i m u)"
| "job_run sz now (Job_cli_forward_message m) j i t u = completes t (job_cli_forward_message_run sz j i m u)"
| "job_run sz now (Job_ntf_leave_room_message m) j i t u = completes t (job_ntf_leave_room_message_run sz j i m u)"
| "job_run sz now (Job_create_room m) j i t u = (job_create_room_run sz now j i t u, None)"
| "job_run sz now (Job_join_room m) j i t u = (job_join_room_run sz now m j i t u, None)"
| "job_run sz now (Job_leave_room m) j i t u = (job_leave_room_run sz now j i t u, None)"

fun job_cancel ::
  "(message \<Rightarrow> nat) \<Rightarrow> cancel_reason \<Rightarrow> job_class \<Rightarrow> nat \<Rightarrow> user_server \<Rightarrow> user_server \<times> nat option" where
  "job_cancel sz why (Job_create_room m) j u = job_create_room_cancel sz why m j u"
| "job_cancel sz why (Job_join_room m) j u = job_join_room_cancel sz why m j u"
| "job_cancel sz why (Job_leave_room m) j u = job_leave_room_cancel sz why m j u"
| "job_cancel sz why _ j u = (u, None)"

fun job_handle_res ::
  "(message \<Rightarrow> nat) \<Rightarrow> job_class \<Rightarrow> message \<Rightarrow> nat \<Rightarrow> user_server \<Rightarrow> user_server \<times> nat option" where
  "job_handle_res sz (Job_create_room m) msg j u = handle_res_create_room sz m msg j u"
| "job_handle_res sz (Job_join_room m) msg j u = handle_res_join_room sz m msg j u"
| "job_handle_res sz (Job_leave_room m) msg j u = handle_res_leave_room sz m msg j u"
| "job_handle_res sz _ msg j u = (u, None)"

text \<open>A call the scheduler of session \<open>i\<close> makes on a job.\<close>

fun exec_call ::
  "(message \<Rightarrow> nat) \<Rightarrow> time_point \<Rightarrow> nat \<Rightarrow> nat job_call \<Rightarrow> user_server \<Rightarrow> user_server \<times> nat option" where
  "exec_call sz now i (Run j t) u = job_run sz now (j_class (job_heap u ! j)) j i t u"
| "exec_call sz now i (CancelShutdown j) u = job_cancel sz kShutdown (j_class (job_heap u ! j)) j u"

definition set_scheduler :: "nat \<Rightarrow> nat scheduler \<Rightarrow> user_server \<Rightarrow> user_server" where
  "set_scheduler i x u = upd_session i (\<lambda>s. s\<lparr>s_scheduler := x\<rparr>) u"

subsubsection \<open>Jobs leave the schedulers alone\<close>

lemma upd_session_fields [simp]:
  "job_heap (upd_session i f u) = job_heap u" "by_conn (upd_session i f u) = by_conn u"
  "by_uid (upd_session i f u) = by_uid u" "waiting (upd_session i f u) = waiting u"
  "next_request_id (upd_session i f u) = next_request_id u" "requests_made (upd_session i f u) = requests_made u"
  "to_room (upd_session i f u) = to_room u" "crashed (upd_session i f u) = crashed u"
  "length (sessions (upd_session i f u)) = length (sessions u)"
  by (simp_all add: upd_session_def)

lemma upd_job_fields [simp]:
  "sessions (upd_job j f u) = sessions u" "by_conn (upd_job j f u) = by_conn u"
  "by_uid (upd_job j f u) = by_uid u" "waiting (upd_job j f u) = waiting u"
  "next_request_id (upd_job j f u) = next_request_id u" "requests_made (upd_job j f u) = requests_made u"
  "to_room (upd_job j f u) = to_room u" "crashed (upd_job j f u) = crashed u"
  "length (job_heap (upd_job j f u)) = length (job_heap u)"
  by (simp_all add: upd_job_def)

text \<open>The schedulers of all sessions, the one thing the recursion below depends on.\<close>

definition schedulers :: "user_server \<Rightarrow> nat scheduler list" where
  "schedulers u = map s_scheduler (sessions u)"

lemma schedulers_upd_session:
  "(\<And>s. s_scheduler (f s) = s_scheduler s) \<Longrightarrow> schedulers (upd_session i f u) = schedulers u"
  by (cases "i < length (sessions u)")
    (auto simp: schedulers_def upd_session_def map_update list_update_beyond nth_list_update intro: nth_equalityI)

lemma schedulers_fields [simp]:
  "schedulers (u\<lparr>crashed := b\<rparr>) = schedulers u" "schedulers (u\<lparr>to_room := ms\<rparr>) = schedulers u"
  "schedulers (u\<lparr>waiting := w\<rparr>) = schedulers u" "schedulers (u\<lparr>job_heap := js\<rparr>) = schedulers u"
  "schedulers (u\<lparr>by_conn := m\<rparr>) = schedulers u" "schedulers (u\<lparr>by_uid := n\<rparr>) = schedulers u"
  "schedulers (u\<lparr>next_request_id := q\<rparr>) = schedulers u" "schedulers (u\<lparr>requests_made := k\<rparr>) = schedulers u"
  "schedulers (upd_job j f u) = schedulers u"
  by (simp_all add: schedulers_def)

lemma schedulers_session_ops [simp]:
  "schedulers (session_send sz i job m u) = schedulers u"
  "schedulers (session_stop i b u) = schedulers u"
  "schedulers (post_to_serial_context i task u) = schedulers u"
  "schedulers (set_user i name u) = schedulers u"
  "schedulers (set_enter_room i r u) = schedulers u"
  "schedulers (set_leave_room i u) = schedulers u"
  by (simp_all add: session_send_def session_stop_def post_to_serial_context_def set_user_def
      set_enter_room_def set_leave_room_def schedulers_upd_session)

lemma schedulers_channel_ops [simp]:
  "schedulers (snd (send_notification sz m u)) = schedulers u"
  "schedulers (send_cancel sz q u) = schedulers u"
  "schedulers (snd (send_request sz now request j u)) = schedulers u"
  "schedulers (cancel_request sz q u) = schedulers u"
  "schedulers (enqueue_job i c u) = schedulers u"
  "schedulers (add_session i u) = schedulers u"
  by (simp_all add: send_notification_def send_cancel_def send_request_def cancel_request_def
      enqueue_job_def add_session_def Let_def split: prod.splits)

lemma schedulers_and_then:
  "(\<And>u. schedulers (f u) = schedulers u) \<Longrightarrow> schedulers (and_then u f) = schedulers u"
  by (simp add: and_then_def)

lemma schedulers_exec_call [simp]: "schedulers (fst (exec_call sz now i c u)) = schedulers u"
proof -
  have fin: "schedulers (fst (job_finish j v)) = schedulers v" for j v
    by (simp add: job_finish_def Let_def)
  then have rep: "schedulers (fst (reply_and_finish sz j m v)) = schedulers v" for j m v
    by (simp add: reply_and_finish_def Let_def)
  have run: "schedulers (room_job_run sz now request j t v) = schedulers v" for request j t v
    using schedulers_channel_ops(3)[of sz now request j "upd_job j (\<lambda>x. x\<lparr>j_done := Some t\<rparr>) v"]
    by (cases "send_request sz now request j (upd_job j (\<lambda>x. x\<lparr>j_done := Some t\<rparr>) v)")
      (simp add: room_job_run_def schedulers_and_then)
  have can: "schedulers (fst (room_job_cancel sz why m j v)) = schedulers v" for why m j v
    by (simp add: room_job_cancel_def Let_def fin rep)
  have "schedulers (fst (job_run sz now cl j i t v)) = schedulers v" for cl j t v
    by (cases cl)
      (simp_all add: completes_def job_login_run_def send_res_login_def job_logout_run_def send_res_logout_def
        job_stop_run_def job_forward_message_run_def job_cli_forward_message_run_def
        job_ntf_leave_room_message_run_def job_create_room_run_def job_join_room_run_def
        job_leave_room_run_def run schedulers_and_then Let_def enqueue_stop_def send_notification_def split: prod.splits)
  moreover have "schedulers (fst (job_cancel sz why cl j v)) = schedulers v" for why cl j v
    by (cases cl)
      (simp_all add: can job_create_room_cancel_def job_join_room_cancel_def job_leave_room_cancel_def)
  ultimately show ?thesis by (cases c) simp_all
qed

lemma length_sessions: "length (sessions u) = length (schedulers u)"
  by (simp add: schedulers_def)

lemma nth_schedulers: "i < length (sessions u) \<Longrightarrow> s_scheduler (sessions u ! i) = schedulers u ! i"
  by (simp add: schedulers_def)

lemma schedulers_set_scheduler [simp]: "schedulers (set_scheduler i x u) = (schedulers u)[i := x]"
  by (simp add: schedulers_def set_scheduler_def upd_session_def map_update)

subsection \<open>The scheduler's calls\<close>

text \<open>
  Runs the calls a scheduler makes, in order. A job that ends in \<open>done()\<close> re-enters the
  scheduler, whose next call runs inside that of the finished job, before the remaining
  ones. Every round uses up a call, and a call is made only for a job taken off the queue.
\<close>

function run_calls :: "(message \<Rightarrow> nat) \<Rightarrow> time_point \<Rightarrow> nat \<Rightarrow> nat job_call list \<Rightarrow> user_server \<Rightarrow> user_server" where
  "run_calls sz now i [] u = u"
| "run_calls sz now i (c # cs) u =
     (if crashed u \<or> length (sessions u) \<le> i then u
      else case exec_call sz now i c u of
        (u1, None) \<Rightarrow> run_calls sz now i cs u1
      | (u1, Some t) \<Rightarrow>
          (case done_callback (s_scheduler (sessions u1 ! i)) t of
             (x, cs') \<Rightarrow> run_calls sz now i (cs' @ cs) (set_scheduler i x u1)))"
  by pat_completeness auto
termination
proof (relation "measure (\<lambda>(sz, now, i, cs, u). length cs + length (jobs (schedulers u ! i)))", goal_cases)
  case 1
  show ?case by simp
next
  case (2 sz now i c cs u u1 y)
  then have "schedulers u1 = schedulers u" using schedulers_exec_call[of sz now i c u] by (metis fst_conv)
  then show ?case by simp
next
  case (3 sz now i c cs u u1 y t' x' cs')
  then have s: "schedulers u1 = schedulers u" using schedulers_exec_call[of sz now i c u] by (metis fst_conv)
  then have "length (sessions u1) = length (sessions u)" by (simp add: length_sessions)
  with 3 s have d: "done_callback (schedulers u ! i) t' = (x', cs')" and i: "i < length (schedulers u)"
    by (auto simp: length_sessions nth_schedulers)
  from d have "length cs' + length (jobs x') \<le> length (jobs (schedulers u ! i))"
    by (auto simp: done_callback_def complete_current_def scheduler_run_def split: if_splits list.splits)
  with s i show ?case by simp
qed

text \<open>\<open>done()\<close> at the end of a strand task.\<close>

definition after_done ::
  "(message \<Rightarrow> nat) \<Rightarrow> time_point \<Rightarrow> nat \<Rightarrow> user_server \<times> nat option \<Rightarrow> user_server" where
  "after_done sz now i r =
     (case r of
        (u, None) \<Rightarrow> u
      | (u, Some t) \<Rightarrow>
          (case done_callback (s_scheduler (sessions u ! i)) t of
             (x, cs) \<Rightarrow> run_calls sz now i cs (set_scheduler i x u)))"

fun run_session_task ::
  "(message \<Rightarrow> nat) \<Rightarrow> time_point \<Rightarrow> nat \<Rightarrow> session_task \<Rightarrow> user_server \<Rightarrow> user_server" where
  "run_session_task sz now i (PushJob j) u =
     (case push_and_run (s_scheduler (sessions u ! i)) j of
        (x, cs) \<Rightarrow> run_calls sz now i cs (set_scheduler i x u))"
| "run_session_task sz now i ShutdownScheduler u =
     (case scheduler_shutdown (s_scheduler (sessions u ! i)) of
        (x, cs) \<Rightarrow> run_calls sz now i cs (set_scheduler i x (upd_session i (\<lambda>s. s\<lparr>s_stop := True\<rparr>) u)))"
| "run_session_task sz now i (HandleRes j m) u =
     after_done sz now i (job_handle_res sz (j_class (job_heap u ! j)) m j u)"
| "run_session_task sz now i (TimeoutCancel j) u =
     after_done sz now i (job_cancel sz kTimeout (j_class (job_heap u ! j)) j u)"

definition run_session :: "(message \<Rightarrow> nat) \<Rightarrow> time_point \<Rightarrow> nat \<Rightarrow> user_server \<Rightarrow> user_server" where
  "run_session sz now i u =
     (if length (sessions u) \<le> i then u
      else case s_strand (sessions u ! i) of
        [] \<Rightarrow> u
      | t # ts \<Rightarrow> run_session_task sz now i t (upd_session i (\<lambda>s. s\<lparr>s_strand := ts\<rparr>) u))"

subsection \<open>Runs\<close>

text \<open>
  What a dispatched message does: the dispatcher of the process is shared by the sessions
  and the room channel. The link is the session of the connection the message came from,
  or none for the dealer thread, which catches what its handler throws.
\<close>

fun user_effect_run ::
  "(message \<Rightarrow> nat) \<Rightarrow> time_point \<Rightarrow> nat option \<Rightarrow> user_effect \<Rightarrow> user_server \<Rightarrow> user_server" where
  "user_effect_run sz now l (RoomChannelRecv m) u = room_channel_on_recv sz now m u"
| "user_effect_run sz now l (SessionRecv i m) u = session_on_recv sz i m u"
| "user_effect_run sz now l (SessionRecvUnknown i) u = on_recv_unknown i u"
| "user_effect_run sz now l NullDereference u = u\<lparr>crashed := True\<rparr>"
| "user_effect_run sz now l NoHandler u = (if l = None then u else u\<lparr>crashed := True\<rparr>)"
| "user_effect_run sz now l LoggedUnknown u = u"
| "user_effect_run sz now l ParseFailed u = u"

datatype user_event =
    ConnCreated nat
  | ConnClosed nat
  | Receive MessageType raw_buffer "nat option" time_point
  | RunSession nat time_point
  | TimerTick time_point

fun user_step ::
  "(message_kind \<Rightarrow> raw_buffer \<Rightarrow> bool \<times> message) \<Rightarrow> (message \<Rightarrow> nat) \<Rightarrow> user_server \<Rightarrow> user_event \<Rightarrow> user_server" where
  "user_step parse sz u e =
     (if crashed u then u
      else case e of
        ConnCreated conn \<Rightarrow> on_conn_created conn u
      | ConnClosed conn \<Rightarrow> on_conn_closed conn u
      | Receive type buffer l now \<Rightarrow>
          (if case l of None \<Rightarrow> True | Some i \<Rightarrow> i < length (sessions u)
           then user_effect_run sz now l (user_receive parse type buffer l) u else u)
      | RunSession i now \<Rightarrow> run_session sz now i u
      | TimerTick now \<Rightarrow> room_channel_timer sz now u)"

end
