(* ===== verification/User_Invariants.thy ===== *)
theory User_Invariants
  imports User_Server
begin

text \<open>
  The invariant of the user server. Every room request a client made is in one of three
  places: it waits on its session's strand or scheduler, untouched; it is the job its
  scheduler runs, with exactly one thing under way that will end it (an entry of the
  registry or a task on the strand); or it is finished and was answered, once, unless the
  session was shut down first.
\<close>

subsection \<open>What the invariant looks at\<close>

definition strand_of :: "user_server \<Rightarrow> nat \<Rightarrow> session_task list" where
  "strand_of u i = s_strand (sessions u ! i)"

definition sched_of :: "user_server \<Rightarrow> nat \<Rightarrow> nat scheduler" where
  "sched_of u i = s_scheduler (sessions u ! i)"

fun answer_of :: "out_call \<Rightarrow> nat list" where
  "answer_of (LinkSend (Some j) _) = [j]"
| "answer_of _ = []"

definition answered_of :: "user_server \<Rightarrow> nat \<Rightarrow> nat list" where
  "answered_of u i = concat (map answer_of (s_out (sessions u ! i)))"

lemmas observers = strand_of_def sched_of_def answered_of_def

fun is_room_job :: "job_class \<Rightarrow> bool" where
  "is_room_job (Job_create_room _) = True"
| "is_room_job (Job_join_room _) = True"
| "is_room_job (Job_leave_room _) = True"
| "is_room_job _ = False"

fun pushed_of :: "session_task \<Rightarrow> nat list" where
  "pushed_of (PushJob j) = [j]"
| "pushed_of _ = []"

fun token_of :: "session_task \<Rightarrow> nat list" where
  "token_of (HandleRes j _) = [j]"
| "token_of (TimeoutCancel j) = [j]"
| "token_of _ = []"

definition pushed_jobs :: "session_task list \<Rightarrow> nat list" where
  "pushed_jobs ts = concat (map pushed_of ts)"

definition token_jobs :: "session_task list \<Rightarrow> nat list" where
  "token_jobs ts = concat (map token_of ts)"

lemma pushed_jobs_simps [simp]:
  "pushed_jobs [] = []" "pushed_jobs (t # ts) = pushed_of t @ pushed_jobs ts"
  "pushed_jobs (ts @ ts') = pushed_jobs ts @ pushed_jobs ts'"
  by (simp_all add: pushed_jobs_def)

lemma token_jobs_simps [simp]:
  "token_jobs [] = []" "token_jobs (t # ts) = token_of t @ token_jobs ts"
  "token_jobs (ts @ ts') = token_jobs ts @ token_jobs ts'"
  by (simp_all add: token_jobs_def)

definition waiting_jobs :: "user_server \<Rightarrow> nat list" where
  "waiting_jobs u = map (\<lambda>(_, r). on_response r) (requests (waiting u))"

subsection \<open>How the operations show\<close>

lemma observe_upd_session:
  "strand_of (upd_session k f u) i =
     (if i = k \<and> k < length (sessions u) then s_strand (f (sessions u ! k)) else strand_of u i)"
  "sched_of (upd_session k f u) i =
     (if i = k \<and> k < length (sessions u) then s_scheduler (f (sessions u ! k)) else sched_of u i)"
  "answered_of (upd_session k f u) i =
     (if i = k \<and> k < length (sessions u) then concat (map answer_of (s_out (f (sessions u ! k)))) else answered_of u i)"
  by (auto simp: observers upd_session_def nth_list_update list_update_beyond)

lemma observe_fields [simp]:
  "strand_of (u\<lparr>job_heap := js\<rparr>) = strand_of u" "sched_of (u\<lparr>job_heap := js\<rparr>) = sched_of u"
  "answered_of (u\<lparr>job_heap := js\<rparr>) = answered_of u"
  "strand_of (u\<lparr>waiting := w\<rparr>) = strand_of u" "sched_of (u\<lparr>waiting := w\<rparr>) = sched_of u"
  "answered_of (u\<lparr>waiting := w\<rparr>) = answered_of u"
  "strand_of (u\<lparr>to_room := ms\<rparr>) = strand_of u" "sched_of (u\<lparr>to_room := ms\<rparr>) = sched_of u"
  "answered_of (u\<lparr>to_room := ms\<rparr>) = answered_of u"
  "strand_of (u\<lparr>by_conn := m\<rparr>) = strand_of u" "sched_of (u\<lparr>by_conn := m\<rparr>) = sched_of u"
  "answered_of (u\<lparr>by_conn := m\<rparr>) = answered_of u"
  "strand_of (u\<lparr>by_uid := n\<rparr>) = strand_of u" "sched_of (u\<lparr>by_uid := n\<rparr>) = sched_of u"
  "answered_of (u\<lparr>by_uid := n\<rparr>) = answered_of u"
  "strand_of (u\<lparr>next_request_id := q\<rparr>) = strand_of u" "sched_of (u\<lparr>next_request_id := q\<rparr>) = sched_of u"
  "answered_of (u\<lparr>next_request_id := q\<rparr>) = answered_of u"
  "strand_of (u\<lparr>requests_made := k\<rparr>) = strand_of u" "sched_of (u\<lparr>requests_made := k\<rparr>) = sched_of u"
  "answered_of (u\<lparr>requests_made := k\<rparr>) = answered_of u"
  "strand_of (upd_job j f u) = strand_of u" "sched_of (upd_job j f u) = sched_of u"
  "answered_of (upd_job j f u) = answered_of u"
  by (simp_all add: observers fun_eq_iff)

lemma nth_upd_job:
  "job_heap (upd_job j f u) ! k = (if k = j \<and> j < length (job_heap u) then f (job_heap u ! j) else job_heap u ! k)"
  by (auto simp: upd_job_def nth_list_update list_update_beyond)

lemma waiting_jobs_fields [simp]:
  "waiting_jobs (upd_session i f u) = waiting_jobs u" "waiting_jobs (upd_job j g u) = waiting_jobs u"
  "waiting_jobs (u\<lparr>job_heap := js\<rparr>) = waiting_jobs u" "waiting_jobs (u\<lparr>to_room := ms\<rparr>) = waiting_jobs u"
  "waiting_jobs (u\<lparr>by_conn := m\<rparr>) = waiting_jobs u" "waiting_jobs (u\<lparr>by_uid := n\<rparr>) = waiting_jobs u"
  "waiting_jobs (u\<lparr>sessions := ss\<rparr>) = waiting_jobs u"
  by (simp_all add: waiting_jobs_def)

subsection \<open>The invariant\<close>

text \<open>The session manager's maps.\<close>

definition manager_ok :: "user_server \<Rightarrow> bool" where
  "manager_ok u \<longleftrightarrow>
     om_wf (by_conn u) \<and> om_wf (by_uid u) \<and>
     (\<forall>(conn, i) \<in> set (by_conn u). i < length (sessions u) \<and> s_conn (sessions u ! i) = conn) \<and>
     (\<forall>(name, i) \<in> set (by_uid u). i < length (sessions u) \<and> name \<noteq> [])"

text \<open>The registry, as long as request ids have not wrapped around.\<close>

definition entry_ok :: "user_server \<Rightarrow> 64 word \<times> (nat, 64 word \<times> nat) request \<Rightarrow> bool" where
  "entry_ok u e \<longleftrightarrow>
     (case e of (q, r) \<Rightarrow>
        q \<noteq> 0 \<and> unat q \<le> requests_made u \<and> on_timeout r = (q, on_response r) \<and>
        on_response r < length (job_heap u) \<and> is_room_job (j_class (job_heap u ! on_response r)) \<and>
        j_room_request_id (job_heap u ! on_response r) = q)"

definition id_ok :: "user_server \<Rightarrow> nat \<Rightarrow> bool" where
  "id_ok u j \<longleftrightarrow>
     unat (j_room_request_id (job_heap u ! j)) \<le> requests_made u \<and>
     (\<forall>r. om_find (requests (waiting u)) (j_room_request_id (job_heap u ! j)) = Some r \<longrightarrow> on_response r = j)"

definition registry_ok :: "user_server \<Rightarrow> bool" where
  "registry_ok u \<longleftrightarrow>
     om_wf (requests (waiting u)) \<and> timer_running (waiting u) \<and>
     next_request_id u = of_nat (Suc (requests_made u)) \<and>
     (\<forall>e \<in> set (requests (waiting u)). entry_ok u e) \<and>
     (\<forall>j < length (job_heap u). id_ok u j)"

lemmas registry_defs = registry_ok_def entry_ok_def id_ok_def

text \<open>
  A session. \<open>pend\<close> says that its scheduler is about to start the front of its queue.
\<close>

definition belongs :: "user_server \<Rightarrow> nat \<Rightarrow> nat \<Rightarrow> bool" where
  "belongs u i j \<longleftrightarrow> j < length (job_heap u) \<and> j_session (job_heap u ! j) = i"

definition room_job :: "user_server \<Rightarrow> nat \<Rightarrow> bool" where
  "room_job u j \<longleftrightarrow> is_room_job (j_class (job_heap u ! j))"

definition sched_ok :: "nat scheduler \<Rightarrow> bool" where
  "sched_ok x \<longleftrightarrow>
     (if stopped x then jobs x = [] \<and> \<not> running x
      else (running x \<longleftrightarrow> jobs x \<noteq> []) \<and> (jobs x \<noteq> [] \<longrightarrow> completed x \<noteq> []) \<and>
        open_runs (completed x) = (if jobs x = [] then {} else {length (completed x) - 1}))"

definition session_ok :: "bool \<Rightarrow> user_server \<Rightarrow> nat \<Rightarrow> bool" where
  "session_ok pend u i \<longleftrightarrow>
     sched_ok (sched_of u i) \<and>
     distinct (jobs (sched_of u i) @ pushed_jobs (strand_of u i)) \<and>
     list_all (belongs u i) (jobs (sched_of u i) @ pushed_jobs (strand_of u i) @ token_jobs (strand_of u i)) \<and>
     list_all (room_job u) (token_jobs (strand_of u i)) \<and> list_all (belongs u i) (answered_of u i) \<and>
     (jobs (sched_of u i) \<noteq> [] \<and> \<not> pend \<longrightarrow> room_job u (hd (jobs (sched_of u i))))"

text \<open>
  A room job. \<open>K\<close> are the jobs whose handlers the registry is about to call.
\<close>

definition fresh_jobs :: "bool \<Rightarrow> user_server \<Rightarrow> nat \<Rightarrow> nat list" where
  "fresh_jobs pend u i =
     (if pend then jobs (sched_of u i) else tl (jobs (sched_of u i))) @ pushed_jobs (strand_of u i)"

definition phase_ok :: "bool \<Rightarrow> bool \<Rightarrow> nat scheduler \<Rightarrow> user_job \<Rightarrow> nat \<Rightarrow> nat \<Rightarrow> bool \<Rightarrow> bool" where
  "phase_ok fresh queued x job answers toks registered \<longleftrightarrow>
     (if fresh
      then \<not> j_finished job \<and> j_done job = None \<and> j_room_request_id job = 0 \<and> answers = 0 \<and> toks = 0
      else if queued
      then \<not> j_finished job \<and> j_done job = Some (length (completed x) - 1) \<and> answers = 0 \<and> toks = 1
      else j_finished job \<and> answers \<le> 1 \<and> \<not> registered \<and> (stopped x \<or> answers = 1))"

definition job_ok_at :: "bool \<Rightarrow> nat list \<Rightarrow> user_server \<Rightarrow> nat \<Rightarrow> nat \<Rightarrow> bool" where
  "job_ok_at pend K u i j \<longleftrightarrow>
     phase_ok (j \<in> set (fresh_jobs pend u i)) (j \<in> set (jobs (sched_of u i))) (sched_of u i) (job_heap u ! j)
       (count_list (answered_of u i) j) (count_list (waiting_jobs u @ K @ token_jobs (strand_of u i)) j)
       (j \<in> set (waiting_jobs u))"

definition job_ok :: "nat set \<Rightarrow> nat list \<Rightarrow> user_server \<Rightarrow> nat \<Rightarrow> bool" where
  "job_ok P K u j \<longleftrightarrow> (let i = j_session (job_heap u ! j) in job_ok_at (i \<in> P) K u i j)"

text \<open>The whole server; the jobs of \<open>C\<close> are in the middle of an operation.\<close>

definition user_ok :: "nat set \<Rightarrow> nat set \<Rightarrow> nat list \<Rightarrow> user_server \<Rightarrow> bool" where
  "user_ok P C K u \<longleftrightarrow>
     manager_ok u \<and> registry_ok u \<and>
     (\<forall>i < length (sessions u). session_ok (i \<in> P) u i) \<and>
     (\<forall>j < length (job_heap u). j_session (job_heap u ! j) < length (sessions u) \<and>
        (room_job u j \<and> j \<notin> C \<longrightarrow> job_ok P K u j)) \<and>
     list_all (\<lambda>j. j < length (job_heap u) \<and> room_job u j) K"

subsection \<open>Operations that do not touch jobs\<close>

definition same_core :: "user_server \<Rightarrow> user_server \<Rightarrow> bool" where
  "same_core u u' \<longleftrightarrow>
     length (sessions u') = length (sessions u) \<and> job_heap u' = job_heap u \<and> waiting u' = waiting u \<and>
     next_request_id u' = next_request_id u \<and> requests_made u' = requests_made u \<and>
     strand_of u' = strand_of u \<and> sched_of u' = sched_of u \<and> answered_of u' = answered_of u"

lemma same_core_ok:
  assumes "same_core u u'" and "user_ok P C K u" and "manager_ok u'"
  shows "user_ok P C K u'"
proof -
  have w: "waiting_jobs u' = waiting_jobs u" using assms(1) by (simp add: same_core_def waiting_jobs_def)
  have b: "belongs u' = belongs u" "room_job u' = room_job u"
    using assms(1) by (simp_all add: same_core_def belongs_def[abs_def] room_job_def[abs_def])
  have "job_ok P K u' = job_ok P K u" "session_ok p u' i = session_ok p u i" for p i
    using assms(1) w b
    by (simp_all add: same_core_def job_ok_def[abs_def] job_ok_at_def fresh_jobs_def session_ok_def)
  moreover have "registry_ok u' = registry_ok u"
    using assms(1) by (simp add: same_core_def registry_defs)
  ultimately show ?thesis using assms b by (simp add: user_ok_def same_core_def)
qed

lemma same_core_refl [simp]: "same_core u u"
  by (simp add: same_core_def)

lemma same_core_trans: "same_core u v \<Longrightarrow> same_core v w \<Longrightarrow> same_core u w"
  by (simp add: same_core_def)

lemma same_core_upd_session:
  "\<lbrakk>\<And>s. s_strand (f s) = s_strand s; \<And>s. s_scheduler (f s) = s_scheduler s;
    \<And>s. concat (map answer_of (s_out (f s))) = concat (map answer_of (s_out s))\<rbrakk>
   \<Longrightarrow> same_core u (upd_session i f u)"
  by (auto simp: same_core_def fun_eq_iff observe_upd_session) (simp_all add: observers)

lemma manager_ok_upd_session:
  "(\<And>s. s_conn (f s) = s_conn s) \<Longrightarrow> manager_ok u \<Longrightarrow> manager_ok (upd_session i f u)"
proof -
  assume "\<And>s. s_conn (f s) = s_conn s"
  then have "s_conn (sessions (upd_session i f u) ! k) = s_conn (sessions u ! k)" for k
    by (cases "k = i \<and> i < length (sessions u)") (auto simp: upd_session_def nth_list_update list_update_beyond)
  moreover assume "manager_ok u"
  ultimately show ?thesis by (simp add: manager_ok_def)
qed

lemma manager_ok_fields [simp]:
  "manager_ok (u\<lparr>to_room := ms\<rparr>) = manager_ok u" "manager_ok (u\<lparr>waiting := w\<rparr>) = manager_ok u"
  "manager_ok (u\<lparr>job_heap := js\<rparr>) = manager_ok u" "manager_ok (u\<lparr>next_request_id := q\<rparr>) = manager_ok u"
  "manager_ok (u\<lparr>requests_made := k\<rparr>) = manager_ok u" "manager_ok (upd_job j f u) = manager_ok u"
  by (simp_all add: manager_ok_def)

text \<open>Both at once, for the updates of a session that the invariant does not see.\<close>

lemma user_ok_upd_session:
  "\<lbrakk>user_ok P C K u; \<And>s. s_strand (f s) = s_strand s; \<And>s. s_scheduler (f s) = s_scheduler s;
    \<And>s. s_conn (f s) = s_conn s; \<And>s. concat (map answer_of (s_out (f s))) = concat (map answer_of (s_out s))\<rbrakk>
   \<Longrightarrow> user_ok P C K (upd_session i f u)"
  by (rule same_core_ok[OF same_core_upd_session]) (auto simp: user_ok_def intro: manager_ok_upd_session)

lemma user_ok_to_room [simp]: "user_ok P C K (u\<lparr>to_room := ms\<rparr>) = user_ok P C K u"
proof -
  have "same_core u (u\<lparr>to_room := ms\<rparr>)" "same_core (u\<lparr>to_room := ms\<rparr>) u" by (simp_all add: same_core_def)
  then show ?thesis using same_core_ok by (metis (no_types, lifting) manager_ok_fields(1) user_ok_def)
qed

lemma user_ok_session_ops:
  assumes "user_ok P C K u"
  shows "user_ok P C K (set_user i name u)" "user_ok P C K (set_enter_room i r u)"
    "user_ok P C K (set_leave_room i u)" "user_ok P C K (session_stop i force u)"
    "user_ok P C K (send_cancel sz q u)"
  using assms
  by (auto simp: set_user_def set_enter_room_def set_leave_room_def session_stop_def send_cancel_def
      send_notification_def intro!: user_ok_upd_session)

lemma user_ok_add_session:
  assumes "user_ok P C K u" and "i < length (sessions u)"
  shows "user_ok P C K (add_session i u)"
proof (rule same_core_ok[OF _ assms(1)])
  show "same_core u (add_session i u)" by (simp add: same_core_def add_session_def Let_def)
  show "manager_ok (add_session i u)" using assms
    by (auto simp: add_session_def manager_ok_def user_ok_def Let_def dest!: set_om_set_subset)
qed

lemma remove_session_ok:
  assumes "user_ok P C K u" and "remove_session conn u = (r, u')"
  shows "user_ok P C K u'" and "sessions u' = sessions u" and "crashed u' = crashed u"
    and "\<And>i. r = Some i \<Longrightarrow> i < length (sessions u)"
proof -
  show "user_ok P C K u'"
  proof (rule same_core_ok[OF _ assms(1)])
    show "same_core u u'" using assms(2)
      by (auto simp: same_core_def remove_session_def Let_def split: option.splits if_splits)
    show "manager_ok u'" using assms
      by (auto simp: manager_ok_def remove_session_def user_ok_def Let_def split: option.splits if_splits
          dest!: set_om_erase_subset)
  qed
  show "sessions u' = sessions u" and "crashed u' = crashed u" using assms(2)
    by (auto simp: remove_session_def Let_def split: option.splits if_splits)
  show "i < length (sessions u)" if "r = Some i" for i
    using assms that by (auto simp: remove_session_def user_ok_def manager_ok_def Let_def
        split: option.splits dest!: om_find_in_set)
qed

subsection \<open>Operations that post to a strand\<close>

lemma observe_post:
  "i < length (sessions u) \<Longrightarrow> strand_of (post_to_serial_context i t u) k = (if k = i then strand_of u i @ [t] else strand_of u k)"
  "sched_of (post_to_serial_context i t u) = sched_of u"
  "answered_of (post_to_serial_context i t u) = answered_of u"
  "waiting_jobs (post_to_serial_context i t u) = waiting_jobs u"
  by (simp_all add: post_to_serial_context_def observe_upd_session fun_eq_iff) (simp_all add: observers)

lemma serial_post_fields [simp]:
  "job_heap (post_to_serial_context i t u) = job_heap u" "waiting (post_to_serial_context i t u) = waiting u"
  "next_request_id (post_to_serial_context i t u) = next_request_id u"
  "requests_made (post_to_serial_context i t u) = requests_made u"
  "crashed (post_to_serial_context i t u) = crashed u"
  "length (sessions (post_to_serial_context i t u)) = length (sessions u)"
  "belongs (post_to_serial_context i t u) = belongs u" "room_job (post_to_serial_context i t u) = room_job u"
  by (simp_all add: post_to_serial_context_def belongs_def[abs_def] room_job_def[abs_def])

lemma manager_ok_post [simp]: "manager_ok u \<Longrightarrow> manager_ok (post_to_serial_context i t u)"
  by (simp add: post_to_serial_context_def manager_ok_upd_session)

lemma registry_ok_post [simp]: "registry_ok (post_to_serial_context i t u) = registry_ok u"
  by (simp add: registry_defs)

lemma user_ok_post_token:
  assumes "user_ok P C (K @ token_of t) u" and "i < length (sessions u)" and "pushed_of t = []"
    and "list_all (belongs u i) (token_of t)"
  shows "user_ok P C K (post_to_serial_context i t u)"
proof -
  let ?u = "post_to_serial_context i t u"
  note obs = observe_post assms(2,3)
  have "list_all (room_job u) (token_of t)" using assms(1) by (auto simp: user_ok_def list_all_iff)
  then have "session_ok p ?u k" if "session_ok p u k" for p k
    using that assms(4) by (cases "k = i") (simp_all add: session_ok_def obs)
  moreover have "job_ok P K ?u j = job_ok P (K @ token_of t) u j" if "j < length (job_heap u)" for j
  proof -
    have "count_list (token_of t) j = 0" if "j_session (job_heap u ! j) \<noteq> i"
      using that assms(4) by (auto simp: belongs_def list_all_iff)
    then show ?thesis by (simp add: job_ok_def job_ok_at_def fresh_jobs_def obs Let_def add.commute add.left_commute)
  qed
  ultimately show ?thesis using assms(1) by (auto simp: user_ok_def)
qed

lemma user_ok_disconnected:
  "user_ok P C K u \<Longrightarrow> i < length (sessions u) \<Longrightarrow> user_ok P C K (on_disconnected i u)"
  unfolding on_disconnected_def by (rule user_ok_post_token) simp_all

lemma observe_enqueue:
  "i < length (sessions u) \<Longrightarrow>
     strand_of (enqueue_job i c u) k = (if k = i then strand_of u i @ [PushJob (length (job_heap u))] else strand_of u k)"
  "sched_of (enqueue_job i c u) = sched_of u" "answered_of (enqueue_job i c u) = answered_of u"
  "waiting_jobs (enqueue_job i c u) = waiting_jobs u"
  "job_heap (enqueue_job i c u) = job_heap u @ [job_new i c]"
  "waiting (enqueue_job i c u) = waiting u" "next_request_id (enqueue_job i c u) = next_request_id u"
  "requests_made (enqueue_job i c u) = requests_made u" "crashed (enqueue_job i c u) = crashed u"
  "length (sessions (enqueue_job i c u)) = length (sessions u)"
  by (simp_all add: enqueue_job_def observe_post)

text \<open>Whatever a state mentions is in its heap.\<close>

lemma user_ok_in_heap:
  assumes "user_ok P C K u" and "i < length (sessions u)"
  shows "list_all (\<lambda>j. j < length (job_heap u))
    (waiting_jobs u @ K @ jobs (sched_of u i) @ pushed_jobs (strand_of u i) @ token_jobs (strand_of u i) @ answered_of u i)"
proof -
  have "session_ok (i \<in> P) u i" using assms by (simp add: user_ok_def)
  then have "list_all (\<lambda>j. j < length (job_heap u))
      (jobs (sched_of u i) @ pushed_jobs (strand_of u i) @ token_jobs (strand_of u i) @ answered_of u i)"
    by (auto simp: session_ok_def belongs_def list_all_iff)
  moreover have "list_all (\<lambda>j. j < length (job_heap u)) (waiting_jobs u @ K)"
    using assms(1) by (auto simp: user_ok_def registry_defs waiting_jobs_def list_all_iff)
  ultimately show ?thesis by simp
qed

lemma registry_no_zero: "registry_ok u \<Longrightarrow> om_find (requests (waiting u)) 0 = None"
  by (cases "om_find (requests (waiting u)) 0") (auto simp: registry_defs dest!: om_find_in_set)

lemma user_ok_enqueue:
  assumes ok: "user_ok P C K u" and i: "i < length (sessions u)"
  shows "user_ok P C K (enqueue_job i c u)"
proof -
  let ?u = "enqueue_job i c u" and ?n = "length (job_heap u)"
  note obs = observe_enqueue i
  note heap = user_ok_in_heap[OF ok]
  have bel: "belongs u k j \<Longrightarrow> belongs ?u k j" "j < ?n \<Longrightarrow> room_job ?u j = room_job u j" for k j
    by (auto simp: belongs_def room_job_def obs nth_append)
  have new: "belongs ?u i ?n" by (simp add: belongs_def obs nth_append job_new_def)
  have "session_ok p ?u k" if s: "session_ok p u k" and k: "k < length (sessions u)" for p k
  proof -
    have "list_all (belongs ?u k) xs" if "list_all (belongs u k) xs" for xs
      using that bel by (auto simp: list_all_iff)
    moreover have "list_all (room_job ?u) xs" if "list_all (room_job u) xs" "list_all (\<lambda>j. j < ?n) xs" for xs
      using that bel by (auto simp: list_all_iff)
    moreover have "room_job ?u (hd xs)" if "room_job u (hd xs)" "list_all (\<lambda>j. j < ?n) xs" "xs \<noteq> []" for xs
      using that bel by (cases xs) auto
    moreover have "?n \<notin> set (jobs (sched_of u i) @ pushed_jobs (strand_of u i))"
      using heap[OF i] by (auto simp: list_all_iff)
    ultimately show ?thesis using s heap[OF k] new
      by (cases "k = i") (simp_all add: session_ok_def obs)
  qed
  moreover have "registry_ok ?u"
    using ok registry_no_zero[of u]
    by (auto simp: user_ok_def registry_defs obs nth_append less_Suc_eq job_new_def)
  moreover have "manager_ok ?u"
    using ok by (simp add: user_ok_def enqueue_job_def)
  moreover have "job_ok P K ?u j" if "job_ok P K u j" and "j < ?n" for j
    using that by (cases "j_session (job_heap u ! j) = i")
      (auto simp: job_ok_def job_ok_at_def fresh_jobs_def obs nth_append Let_def)
  moreover have "job_ok P K ?u ?n"
  proof -
    have "?n \<notin> set (waiting_jobs u @ K @ token_jobs (strand_of u i) @ answered_of u i)"
      using heap[OF i] by (auto simp: list_all_iff)
    then show ?thesis
      by (simp add: job_ok_def job_ok_at_def phase_ok_def fresh_jobs_def obs job_new_def count_list_0_iff)
  qed
  moreover have "list_all (\<lambda>j. j < length (job_heap ?u) \<and> room_job ?u j) K"
    using ok by (auto simp: user_ok_def list_all_iff obs bel)
  ultimately show ?thesis using ok i
    by (auto simp: user_ok_def obs less_Suc_eq bel nth_append job_new_def)
qed

lemma user_ok_session_recv:
  assumes "user_ok P C K u" and "i < length (sessions u)"
  shows "user_ok P C K (session_on_recv sz i m u) \<or> crashed (session_on_recv sz i m u)"
proof (cases "m = Ping")
  case True
  then show ?thesis using assms
    by (cases "sz Pong > kMaxPayloadSize") (simp_all add: session_send_def user_ok_upd_session)
next
  case False
  then show ?thesis using assms by (cases m) (simp_all add: user_ok_enqueue)
qed

lemma user_ok_conn_created:
  assumes ok: "user_ok P C K u"
  shows "user_ok P C K (on_conn_created conn u)"
proof (cases "om_find (by_conn u) conn")
  case None
  let ?n = "length (sessions u)"
  define u' where
    "u' = u\<lparr>sessions := sessions u @ [session_new conn], by_conn := om_set conn ?n (by_conn u)\<rparr>"
  have obs: "strand_of u' k = (if k = ?n then [] else strand_of u k)"
    "sched_of u' k = (if k = ?n then job_scheduler_init else sched_of u k)"
    "answered_of u' k = (if k = ?n then [] else answered_of u k)" if "k \<le> ?n" for k
    using that by (auto simp: observers nth_append session_new_def u'_def)
  have bel: "belongs u' = belongs u" "room_job u' = room_job u" "waiting_jobs u' = waiting_jobs u"
    "job_heap u' = job_heap u" "length (sessions u') = Suc ?n"
    by (simp_all add: belongs_def[abs_def] room_job_def[abs_def] u'_def)
  have "session_ok p u' k" if "session_ok p u k" "k < ?n" for p k
    using that by (simp add: session_ok_def obs bel)
  moreover have "session_ok p u' ?n" for p
    by (simp add: session_ok_def obs sched_ok_def job_scheduler_init_def)
  moreover have "job_ok P K u' j" if "job_ok P K u j" "j_session (job_heap u ! j) < ?n" for j
    using that by (auto simp: job_ok_def job_ok_at_def fresh_jobs_def obs bel Let_def)
  moreover have "manager_ok u'"
    using ok by (fastforce simp: u'_def user_ok_def manager_ok_def nth_append session_new_def dest!: set_om_set_subset)
  moreover have "registry_ok u'" using ok by (simp add: u'_def user_ok_def registry_defs)
  ultimately have "user_ok P C K u'"
    using ok by (auto simp: user_ok_def less_Suc_eq bel)
  with None show ?thesis by (simp add: on_conn_created_def add_session_conn_def u'_def)
qed (simp add: on_conn_created_def add_session_conn_def ok)

lemma user_ok_conn_closed:
  assumes "user_ok P C K u"
  shows "user_ok P C K (on_conn_closed conn u)"
proof (cases "remove_session conn u")
  case (Pair r u')
  note ok = remove_session_ok[OF assms Pair]
  then show ?thesis
    by (cases r) (simp_all add: on_conn_closed_def Pair user_ok_disconnected)
qed

subsection \<open>The registry calls its handlers\<close>

lemma count_list_mset: "count_list xs x = count (mset xs) x"
  by (induction xs) simp_all

lemma user_ok_mset:
  assumes "mset K = mset K'" and "user_ok P C K u"
  shows "user_ok P C K' u"
proof -
  have "count_list K j = count_list K' j" for j using assms(1) by (simp add: count_list_mset)
  moreover have "set K = set K'" using assms(1) by (metis set_mset_mset)
  ultimately show ?thesis using assms(2)
    by (simp add: user_ok_def job_ok_def job_ok_at_def list_all_iff)
qed

fun call_job :: "(nat, 64 word \<times> nat, message) handler_call \<Rightarrow> nat" where
  "call_job (Response j _) = j"
| "call_job (Timeout (_, j)) = j"

lemma send_cancel_fields [simp]:
  "crashed (send_cancel sz q u) = crashed u" "sessions (send_cancel sz q u) = sessions u"
  "job_heap (send_cancel sz q u) = job_heap u" "requests_made (send_cancel sz q u) = requests_made u"
  "waiting (send_cancel sz q u) = waiting u"
  by (simp_all add: send_cancel_def send_notification_def)

lemma run_handler_ok:
  assumes "user_ok P C (call_job c # K) u"
  shows "user_ok P C K (run_handler sz c u)"
proof -
  let ?j = "call_job c" and ?i = "j_session (job_heap u ! call_job c)"
  have j: "belongs u ?i ?j" "?i < length (sessions u)"
    using assms by (auto simp: user_ok_def belongs_def)
  have ok: "user_ok P C (K @ [?j]) v" if "user_ok P C (call_job c # K) v" for v
    by (rule user_ok_mset[OF _ that]) simp
  show ?thesis
  proof (cases c)
    case (Response j' m)
    then show ?thesis using ok[OF assms] j by (auto intro!: user_ok_post_token)
  next
    case (Timeout t)
    obtain q j' where t: "t = (q, j')" by (cases t)
    have "user_ok P C (K @ [?j]) (send_cancel sz q u)"
      by (rule ok) (rule user_ok_session_ops(5)[OF assms])
    then show ?thesis using Timeout t j
      by (auto intro!: user_ok_post_token simp: belongs_def)
  qed
qed

lemma run_handlers_ok:
  "user_ok P C (map call_job cs) u \<Longrightarrow> user_ok P C [] (fold (run_handler sz) cs u)"
  by (induction cs arbitrary: u) (simp_all add: run_handler_ok)

lemma run_handlers_fields:
  "crashed (fold (run_handler sz) cs u) = crashed u \<and> requests_made (fold (run_handler sz) cs u) = requests_made u"
proof (induction cs arbitrary: u)
  case (Cons c cs)
  then show ?case by (cases "(sz, c, u)" rule: run_handler.cases) simp_all
qed simp

text \<open>Entries leave the registry for the list of handlers to call.\<close>

lemma mset_map_partition:
  "mset (map f xs) = mset (map f (filter Q xs)) + mset (map f (filter (\<lambda>x. \<not> Q x) xs))"
  by (induction xs) simp_all

lemma phase_ok_unregister: "phase_ok f q x b a t r \<Longrightarrow> (r' \<Longrightarrow> r) \<Longrightarrow> phase_ok f q x b a t r'"
  by (auto simp: phase_ok_def)

lemma user_ok_withdraw:
  assumes ok: "user_ok P C [] u" and w: "requests w = filter Q (requests (waiting u))" "timer_running w"
    and K: "mset K = mset (map (on_response \<circ> snd) (filter (\<lambda>e. \<not> Q e) (requests (waiting u))))"
  shows "user_ok P C K (u\<lparr>waiting := w\<rparr>)"
proof -
  let ?u = "u\<lparr>waiting := w\<rparr>"
  have ww: "waiting ?u = w" and heap: "job_heap ?u = job_heap u" by simp_all
  have waiting: "mset (waiting_jobs ?u @ K) = mset (waiting_jobs u)"
    using mset_map_partition[of "on_response \<circ> snd" "requests (waiting u)" Q]
    unfolding waiting_jobs_def by (simp only: K w mset_append comp_def case_prod_beta' ww)
  then have cnt: "count_list (waiting_jobs ?u @ K @ ts) j = count_list (waiting_jobs u @ [] @ ts) j" for j ts
    by (simp only: count_list_mset mset_append append_Nil flip: add.assoc)
  have sub: "set (waiting_jobs ?u) \<subseteq> set (waiting_jobs u)" "set K \<subseteq> set (waiting_jobs u)"
    using waiting by (metis Un_upper1 set_append set_mset_mset, metis Un_upper2 set_append set_mset_mset)
  have bel: "belongs ?u = belongs u" "room_job ?u = room_job u"
    by (simp_all add: belongs_def[abs_def] room_job_def[abs_def])
  have reg: "registry_ok u" using ok by (simp add: user_ok_def)
  then have find: "om_find (requests (waiting u)) q = Some r" if "om_find (requests w) q = Some r" for q r
    using that om_find_iff[of "requests (waiting u)" q r] om_find_in_set[OF that] by (simp add: registry_defs w)
  have "registry_ok ?u"
  proof -
    have "entry_ok ?u = entry_ok u" by (simp add: entry_ok_def[abs_def])
    moreover have "id_ok ?u j" if "id_ok u j" for j using that find by (simp add: id_ok_def)
    ultimately show ?thesis using reg unfolding registry_ok_def by (simp add: w om_wf_filter)
  qed
  moreover have "job_ok P K ?u j" if "job_ok P [] u j" for j
    using that sub(1) unfolding job_ok_def job_ok_at_def fresh_jobs_def Let_def cnt
    by (simp only: observe_fields heap) (erule phase_ok_unregister, blast)
  moreover have "list_all (\<lambda>j. j < length (job_heap u) \<and> room_job u j) K"
    using sub(2) reg by (fastforce simp: list_all_iff registry_defs waiting_jobs_def room_job_def)
  ultimately show ?thesis using ok
    by (simp add: user_ok_def session_ok_def bel)
qed

lemma filter_key:
  "om_wf m \<Longrightarrow> (k, v) \<in> set m \<Longrightarrow> filter (\<lambda>e. \<not> (case e of (k', _) \<Rightarrow> k' \<noteq> k)) m = [(k, v)]"
proof (induction m)
  case (Cons e m)
  obtain k' v' where e: "e = (k', v')" by (cases e)
  show ?case
  proof (cases "k' = k")
    case True
    then have "\<forall>e' \<in> set m. fst e' \<noteq> k" using Cons.prems(1) e by auto
    then have "v' = v" and "filter (\<lambda>e. \<not> (case e of (k', _) \<Rightarrow> k' \<noteq> k)) m = []"
      using Cons.prems(2) e True by (auto simp: filter_empty_conv)
    then show ?thesis using e True by simp
  next
    case False
    then show ?thesis using Cons e by simp
  qed
qed simp

lemma expired_jobs:
  "(\<And>k r. (k, r) \<in> set rs \<Longrightarrow> on_timeout r = (k, on_response r)) \<Longrightarrow>
   map call_job (map (\<lambda>r. Timeout (on_timeout r)) (map snd (filter (\<lambda>(k, r). deadline r \<le> now) rs))) =
   map (on_response \<circ> snd) (filter (\<lambda>e. \<not> (case e of (k, r) \<Rightarrow> now < deadline r)) rs)"
proof (induction rs)
  case (Cons e rs)
  have "on_timeout (snd e) = (fst e, on_response (snd e))" using Cons.prems[of "fst e" "snd e"] by simp
  moreover have "\<And>k r. (k, r) \<in> set rs \<Longrightarrow> on_timeout r = (k, on_response r)" using Cons.prems by simp
  note Cons.IH[OF this]
  ultimately show ?case by (cases e) auto
qed simp

lemma user_ok_send_to_waiter:
  assumes "user_ok P C [] u"
  shows "user_ok P C [] (send_to_waiter sz now m u)"
proof (cases "om_find (requests (waiting u)) (request_id m)")
  case None
  then have "pending_complete (request_id m) m now (waiting u) = (waiting u, [] :: (nat, 64 word \<times> nat, message) handler_call list)"
    by (simp add: pending_complete_def pending_take_def)
  then show ?thesis using assms by (simp add: send_to_waiter_def)
next
  case (Some r)
  let ?q = "request_id m" and ?w = "(waiting u)\<lparr>requests := om_erase (request_id m) (requests (waiting u))\<rparr>"
  have reg: "registry_ok u" using assms by (simp add: user_ok_def)
  then have mem: "(?q, r) \<in> set (requests (waiting u))" and wf: "om_wf (requests (waiting u))"
    using Some by (simp_all add: om_find_in_set registry_defs)
  then have to: "on_timeout r = (?q, on_response r)" using reg by (auto simp: registry_defs)
  have "user_ok P C [on_response r] (u\<lparr>waiting := ?w\<rparr>)"
  proof (rule user_ok_withdraw[OF assms])
    show "requests ?w = filter (\<lambda>(k', _). k' \<noteq> ?q) (requests (waiting u))" by (simp add: om_erase_def)
    show "timer_running ?w" using reg by (simp add: registry_ok_def)
    show "mset [on_response r] =
        mset (map (on_response \<circ> snd) (filter (\<lambda>e. \<not> (case e of (k', _) \<Rightarrow> k' \<noteq> ?q)) (requests (waiting u))))"
      by (simp only: filter_key[OF wf mem]) simp
  qed
  moreover obtain c where "pending_complete ?q m now (waiting u) = (?w, [c])" "call_job c = on_response r"
    using Some to by (cases "deadline r \<le> now") (simp_all add: pending_complete_def pending_take_def)
  ultimately show ?thesis using run_handlers_ok[of P C "[c]"] by (simp add: send_to_waiter_def)
qed

lemma user_ok_timer:
  assumes "user_ok P C [] u"
  shows "user_ok P C [] (room_channel_timer sz now u)"
proof -
  let ?rs = "requests (waiting u)"
  let ?w = "(waiting u)\<lparr>requests := filter (\<lambda>(k, r). now < deadline r) ?rs\<rparr>"
  let ?cs = "map (\<lambda>r. Timeout (on_timeout r)) (map snd (filter (\<lambda>(k, r). deadline r \<le> now) ?rs)) ::
    (nat, 64 word \<times> nat, message) handler_call list"
  have reg: "registry_ok u" using assms by (simp add: user_ok_def)
  then have tick: "timer_tick now (waiting u) = (?w, ?cs)"
    by (simp add: timer_tick_def pending_expire_def expire_loop_filter registry_defs)
  have "map call_job ?cs = map (on_response \<circ> snd) (filter (\<lambda>e. \<not> (\<lambda>(k, r). now < deadline r) e) ?rs)"
    by (rule expired_jobs) (use reg in \<open>auto simp: registry_defs\<close>)
  then have "user_ok P C (map call_job ?cs) (u\<lparr>waiting := ?w\<rparr>)"
    using reg by (intro user_ok_withdraw[OF assms]) (auto simp: registry_defs)
  then show ?thesis using run_handlers_ok[of P C ?cs] tick by (simp add: room_channel_timer_def)
qed

end
