(* ===== verification/User_Runs.thy ===== *)
theory User_Runs
  imports User_Invariants "HOL-Library.Sublist"
begin

text \<open>
  The invariant of the user server along runs: running jobs, answering and cancelling room
  requests, and shutting a session down. The theory ends with what the invariant means for
  clients.
\<close>

subsection \<open>Replies\<close>

lemma observe_session_send:
  assumes "sz m \<le> kMaxPayloadSize" and "i < length (sessions u)"
  shows "strand_of (session_send sz i job m u) = strand_of u" "sched_of (session_send sz i job m u) = sched_of u"
    "answered_of (session_send sz i job m u) k = (if k = i then answered_of u i @ answer_of (LinkSend job m) else answered_of u k)"
  using assms by (simp_all add: session_send_def fun_eq_iff observe_upd_session) (simp_all add: observers)

lemma session_send_fields [simp]:
  "job_heap (session_send sz i job m u) = job_heap u" "waiting (session_send sz i job m u) = waiting u"
  "next_request_id (session_send sz i job m u) = next_request_id u"
  "requests_made (session_send sz i job m u) = requests_made u"
  "length (sessions (session_send sz i job m u)) = length (sessions u)"
  "by_conn (session_send sz i job m u) = by_conn u" "by_uid (session_send sz i job m u) = by_uid u"
  by (simp_all add: session_send_def)

lemma crashed_session_send: "crashed (session_send sz i job m u) = (crashed u \<or> sz m > kMaxPayloadSize)"
  by (auto simp: session_send_def)

lemma user_ok_reply:
  assumes ok: "user_ok P C K u" and j: "belongs u i j" "room_job u j \<longrightarrow> j \<in> C" and fits: "sz m \<le> kMaxPayloadSize"
  shows "user_ok P C K (session_send sz i (Some j) m u)"
proof -
  let ?u = "session_send sz i (Some j) m u"
  have i: "i < length (sessions u)" using ok j(1) by (auto simp: user_ok_def belongs_def)
  note obs = observe_session_send[where sz = sz and m = m, OF fits i]
  have bel: "belongs ?u = belongs u" "room_job ?u = room_job u" "waiting_jobs ?u = waiting_jobs u"
    by (simp_all add: belongs_def[abs_def] room_job_def[abs_def] waiting_jobs_def)
  have "session_ok p ?u k" if "session_ok p u k" for p k
    using that j(1) by (cases "k = i") (simp_all add: session_ok_def obs bel)
  moreover have "job_ok P K ?u j'" if "job_ok P K u j'" "j' \<noteq> j" for j'
    using that by (cases "j_session (job_heap u ! j') = i")
      (auto simp: job_ok_def job_ok_at_def fresh_jobs_def obs bel Let_def)
  moreover have "registry_ok ?u" using ok by (simp add: user_ok_def registry_defs)
  moreover have "manager_ok ?u"
    using ok fits by (simp add: user_ok_def session_send_def manager_ok_upd_session)
  moreover have "\<forall>k < length (job_heap u). room_job u k \<and> k \<notin> C \<longrightarrow> job_ok P K ?u k"
    using calculation(2) ok j(2) by (metis user_ok_def)
  ultimately show ?thesis using ok by (simp add: user_ok_def bel)
qed

text \<open>More jobs may be set aside.\<close>

lemma user_ok_mono: "user_ok P C K u \<Longrightarrow> C \<subseteq> C' \<Longrightarrow> user_ok P C' K u"
  by (auto simp: user_ok_def)

subsection \<open>Changing a job that is set aside\<close>

lemma user_ok_upd_job:
  assumes ok: "user_ok P C K u" and j: "j \<in> C" and f: "j_class (f (job_heap u ! j)) = j_class (job_heap u ! j)"
    "j_session (f (job_heap u ! j)) = j_session (job_heap u ! j)"
    "j_room_request_id (f (job_heap u ! j)) = j_room_request_id (job_heap u ! j)"
  shows "user_ok P C K (upd_job j f u)"
proof -
  let ?u = "upd_job j f u"
  have same: "j_class (job_heap ?u ! k) = j_class (job_heap u ! k)" "j_session (job_heap ?u ! k) = j_session (job_heap u ! k)"
    "j_room_request_id (job_heap ?u ! k) = j_room_request_id (job_heap u ! k)" for k
    using f by (auto simp: nth_upd_job)
  have bel: "belongs ?u = belongs u" "room_job ?u = room_job u"
    by (simp_all add: belongs_def[abs_def] room_job_def[abs_def] same)
  have "session_ok p ?u k = session_ok p u k" for p k
    by (simp add: session_ok_def bel)
  moreover have "job_ok P K ?u k = job_ok P K u k" if "k \<noteq> j" for k
    using that by (simp add: job_ok_def job_ok_at_def fresh_jobs_def nth_upd_job)
  moreover have "registry_ok ?u = registry_ok u" by (simp add: registry_defs same)
  moreover have "\<forall>k < length (job_heap u). room_job u k \<and> k \<notin> C \<longrightarrow> job_ok P K ?u k"
    using calculation(2) ok j by (metis user_ok_def)
  ultimately show ?thesis using ok by (simp add: user_ok_def bel same)
qed

subsection \<open>The scheduler moves on\<close>

lemma done_callback_live:
  assumes "sched_ok x" and "jobs x = j # rest" and "t = length (completed x) - 1"
  shows "done_callback x t =
    (case rest of
       [] \<Rightarrow> (x\<lparr>completed := (completed x)[t := True], jobs := [], running := False\<rparr>, [])
     | k # ks \<Rightarrow> (x\<lparr>completed := (completed x)[t := True] @ [False], jobs := k # ks\<rparr>, [Run k (length (completed x))]))"
proof -
  have "t \<in> open_runs (completed x)" using assms by (auto simp: sched_ok_def split: if_splits)
  then have "t < length (completed x) \<and> \<not> completed x ! t" by (simp add: open_runs_def)
  then show ?thesis using assms(2)
    by (auto simp: done_callback_def complete_current_def scheduler_run_def split: list.splits)
qed

lemma done_callback_stopped:
  assumes "jobs x = []"
  shows "\<exists>fs. done_callback x t = (x\<lparr>completed := fs\<rparr>, [])"
proof (cases "t < length (completed x) \<and> \<not> completed x ! t")
  case True
  then show ?thesis using assms by (auto simp: done_callback_def complete_current_def)
next
  case False
  then have "done_callback x t = (x\<lparr>completed := completed x\<rparr>, [])" by (auto simp: done_callback_def)
  then show ?thesis by blast
qed

lemma observe_set_scheduler:
  "i < length (sessions u) \<Longrightarrow> sched_of (set_scheduler i x u) k = (if k = i then x else sched_of u k)"
  "strand_of (set_scheduler i x u) = strand_of u" "answered_of (set_scheduler i x u) = answered_of u"
  by (simp_all add: set_scheduler_def fun_eq_iff observe_upd_session) (simp_all add: observers)

lemma set_scheduler_fields [simp]:
  "job_heap (set_scheduler i x u) = job_heap u" "waiting (set_scheduler i x u) = waiting u"
  "next_request_id (set_scheduler i x u) = next_request_id u" "requests_made (set_scheduler i x u) = requests_made u"
  "crashed (set_scheduler i x u) = crashed u" "length (sessions (set_scheduler i x u)) = length (sessions u)"
  "by_conn (set_scheduler i x u) = by_conn u" "by_uid (set_scheduler i x u) = by_uid u"
  "belongs (set_scheduler i x u) = belongs u" "room_job (set_scheduler i x u) = room_job u"
  "waiting_jobs (set_scheduler i x u) = waiting_jobs u"
  by (simp_all add: set_scheduler_def belongs_def[abs_def] room_job_def[abs_def])

text \<open>Installing another scheduler state: the sessions and the jobs of the others stay as they are.\<close>

lemma user_ok_set_scheduler:
  assumes ok: "user_ok P C K u" and i: "i < length (sessions u)" and P: "P - {i} = P' - {i}"
    and s: "session_ok (i \<in> P') (set_scheduler i x u) i"
    and j: "\<And>j. belongs u i j \<Longrightarrow> room_job u j \<Longrightarrow> j \<notin> C' \<Longrightarrow> job_ok_at (i \<in> P') K (set_scheduler i x u) i j"
    and C: "\<And>j. j \<in> C \<Longrightarrow> j \<notin> C' \<Longrightarrow> belongs u i j"
  shows "user_ok P' C' K (set_scheduler i x u)"
proof -
  let ?u = "set_scheduler i x u"
  note obs = observe_set_scheduler(1)[OF i] observe_set_scheduler(2,3)
  have "session_ok (k \<in> P') ?u k" if "k < length (sessions u)" for k
  proof (cases "k = i")
    case False
    then have "k \<in> P' \<longleftrightarrow> k \<in> P" using P by blast
    then show ?thesis using ok that False by (simp add: session_ok_def obs user_ok_def)
  qed (use s in simp)
  moreover have "job_ok P' K ?u k" if k: "k < length (job_heap u)" "room_job u k" "k \<notin> C'" for k
  proof (cases "j_session (job_heap u ! k) = i")
    case True
    then show ?thesis using j[of k] k by (simp add: job_ok_def belongs_def)
  next
    case False
    then have "k \<notin> C" using C[of k] k by (auto simp: belongs_def)
    then have "job_ok P K u k" using ok k by (simp add: user_ok_def)
    moreover have "j_session (job_heap u ! k) \<in> P' \<longleftrightarrow> j_session (job_heap u ! k) \<in> P" using P False by blast
    ultimately show ?thesis using False by (auto simp: job_ok_def job_ok_at_def fresh_jobs_def obs Let_def)
  qed
  moreover have "manager_ok ?u" using ok by (simp add: user_ok_def set_scheduler_def manager_ok_upd_session)
  moreover have "registry_ok ?u" using ok by (simp add: user_ok_def registry_defs)
  ultimately show ?thesis using ok by (simp add: user_ok_def)
qed

text \<open>
  The front job is over: it is taken off the queue and the next one, if any, is about to be
  started.
\<close>

lemma user_ok_pop:
  assumes ok: "user_ok P C [] u" and i: "i < length (sessions u)" and P: "P \<subseteq> {i}" and C: "C \<subseteq> {j}"
    and q: "jobs (sched_of u i) = j # rest" and t: "t = length (completed (sched_of u i)) - 1"
    and d: "done_callback (sched_of u i) t = (x, cs)"
    and over: "room_job u j \<Longrightarrow> j_finished (job_heap u ! j) \<and> count_list (answered_of u i) j = 1 \<and> j \<notin> set (waiting_jobs u)"
  shows "user_ok (if rest = [] then {} else {i}) {} [] (set_scheduler i x u)"
proof -
  have s: "session_ok (i \<in> P) u i" using ok i by (simp add: user_ok_def)
  then have so: "sched_ok (sched_of u i)" by (simp add: session_ok_def)
  have live: "\<not> stopped (sched_of u i)" using so q by (auto simp: sched_ok_def split: if_splits)
  have "completed (sched_of u i) \<noteq> []" and open1: "open_runs (completed (sched_of u i)) = {t}"
    using so q live t by (auto simp: sched_ok_def)
  have x: "stopped x = stopped (sched_of u i)" "jobs x = rest" "running x = (rest \<noteq> [])" "sched_ok x"
    using d so q live open1 unfolding done_callback_live[OF so q t]
    by (auto simp: sched_ok_def split: list.splits)
  have jb: "belongs u i j" using s q by (simp add: session_ok_def)
  show ?thesis
  proof (rule user_ok_set_scheduler[OF ok i])
    show "P - {i} = (if rest = [] then {} else {i}) - {i}" using P by auto
    show "session_ok (i \<in> (if rest = [] then {} else {i})) (set_scheduler i x u) i"
      using s q x i by (auto simp: session_ok_def observe_set_scheduler)
    show "belongs u i k" if "k \<in> C" "k \<notin> {}" for k using that C jb by auto
    show "job_ok_at (i \<in> (if rest = [] then {} else {i})) [] (set_scheduler i x u) i k"
      if k: "belongs u i k" "room_job u k" "k \<notin> {}" for k
    proof (cases "k = j")
      case True
      have "j \<notin> set (rest @ pushed_jobs (strand_of u i))" using s q by (auto simp: session_ok_def)
      then show ?thesis using True over k x i
        by (auto simp: job_ok_at_def phase_ok_def fresh_jobs_def observe_set_scheduler)
    next
      case False
      then have "k \<notin> C" using C by auto
      then have "job_ok P [] u k" using ok k by (auto simp: user_ok_def belongs_def)
      then show ?thesis using False k x i q
        by (cases "k \<in> set rest \<or> k \<in> set (pushed_jobs (strand_of u i))")
          (auto simp: job_ok_def job_ok_at_def phase_ok_def fresh_jobs_def observe_set_scheduler belongs_def split: if_splits)
    qed
  qed
qed

subsection \<open>Starting a room request\<close>

definition wrapped :: "user_server \<Rightarrow> bool" where
  "wrapped u \<longleftrightarrow> 2 ^ 64 - 1 \<le> requests_made u"

lemma room_job_run_eq:
  "room_job_run sz now request j t u =
     (let q = next_request_id u;
          v = (upd_job j (\<lambda>x. x\<lparr>j_done := Some t\<rparr>) u)\<lparr>next_request_id := q + 1,
            requests_made := Suc (requests_made u),
            waiting := pending_add q j (q, j) (now + request_timeout) (waiting u)\<rparr>
      in if sz (request q) > kMaxPayloadSize then v\<lparr>crashed := True\<rparr>
         else and_then (v\<lparr>to_room := to_room u @ [request q]\<rparr>) (upd_job j (\<lambda>x. x\<lparr>j_room_request_id := q\<rparr>)))"
  by (simp add: room_job_run_def send_request_def send_notification_def and_then_def Let_def)

lemma next_id:
  assumes "registry_ok u" and "\<not> wrapped u"
  shows "unat (next_request_id u) = Suc (requests_made u)" and "next_request_id u \<noteq> 0"
    and "om_find (requests (waiting u)) (next_request_id u) = None"
proof -
  have "Suc (requests_made u) < 2 ^ 64" using assms(2) by (simp add: wrapped_def)
  then show u: "unat (next_request_id u) = Suc (requests_made u)"
    using assms(1) unfolding registry_ok_def by (simp add: unat_of_nat del: of_nat_Suc)
  then show "next_request_id u \<noteq> 0" by auto
  have "q \<noteq> next_request_id u" if "(q, r) \<in> set (requests (waiting u))" for q r
    using that assms(1) u by (fastforce simp: registry_defs)
  then show "om_find (requests (waiting u)) (next_request_id u) = None"
    unfolding om_find_None_iff by fastforce
qed

text \<open>Adding an entry for a job that has none, and giving the job its id.\<close>

lemma registry_ok_add:
  fixes u :: user_server
  assumes reg: "registry_ok u" and nw: "\<not> wrapped u" and j: "j < length (job_heap u)" "room_job u j" "j \<notin> set (waiting_jobs u)"
    and h: "job_heap v = (job_heap u)[j := x]" "j_class x = j_class (job_heap u ! j)" "j_room_request_id x = next_request_id u"
    and w: "waiting v = pending_add (next_request_id u) j (next_request_id u, j) dl (waiting u)"
    and n: "next_request_id v = next_request_id u + 1" "requests_made v = Suc (requests_made u)"
  shows "registry_ok v" and "mset (waiting_jobs v) = add_mset j (mset (waiting_jobs u))"
proof -
  let ?q = "next_request_id u" and ?r = "\<lparr>deadline = dl, on_response = j, on_timeout = (next_request_id u, j)\<rparr>"
  note q = next_id[OF reg nw]
  have rs: "requests (waiting v) = om_set ?q ?r (requests (waiting u))"
    using q(3) w by (simp add: pending_add_def om_emplace_def)
  show "mset (waiting_jobs v) = add_mset j (mset (waiting_jobs u))"
    using mset_om_set[OF q(3), of ?r] by (simp add: waiting_jobs_def rs)
  have heap: "job_heap v ! k = (if k = j then x else job_heap u ! k)" for k
    using j(1) h(1) by simp
  have "entry_ok v e" if "e \<in> set (requests (waiting v))" for e
  proof (cases "e = (?q, ?r)")
    case True
    then show ?thesis using q j h heap n by (simp add: entry_ok_def room_job_def)
  next
    case False
    then have e: "e \<in> set (requests (waiting u))" using that set_om_set[OF q(3)] by (simp add: rs)
    then have "on_response (snd e) \<noteq> j" using j(3) by (auto simp: waiting_jobs_def case_prod_beta)
    moreover have "entry_ok u e" using e reg by (simp add: registry_ok_def)
    ultimately show ?thesis using heap h(1) n by (auto simp: entry_ok_def)
  qed
  moreover have "id_ok v k" if "k < length (job_heap u)" for k
  proof (cases "k = j")
    case True
    then show ?thesis using q h heap n by (simp add: id_ok_def rs om_find_set)
  next
    case False
    have k: "id_ok u k" using that reg by (simp add: registry_ok_def)
    then have "j_room_request_id (job_heap u ! k) \<noteq> ?q" using q by (auto simp: id_ok_def)
    with k False show ?thesis by (simp add: id_ok_def rs om_find_set heap n)
  qed
  moreover have "om_wf (requests (waiting v))" and "timer_running (waiting v)"
    using reg w by (simp_all add: rs registry_ok_def pending_add_def)
  ultimately show "registry_ok v"
    using reg n h(1) by (simp add: registry_ok_def)
qed

lemma room_job_run_ok:
  assumes ok: "user_ok {i} {} [] u" and i: "i < length (sessions u)" and q: "jobs (sched_of u i) = j # rest"
    and room: "room_job u j" and t: "t = length (completed (sched_of u i)) - 1"
    and live: "\<not> crashed u" "\<not> wrapped u" and fits: "sz (request (next_request_id u)) \<le> kMaxPayloadSize"
  shows "user_ok {} {} [] (room_job_run sz now request j t u)"
proof -
  define v where "v = room_job_run sz now request j t u"
  let ?q = "next_request_id u"
  let ?x = "(job_heap u ! j)\<lparr>j_done := Some t, j_room_request_id := ?q\<rparr>"
  have s: "session_ok True u i" and reg: "registry_ok u" and man: "manager_ok u"
    using ok i by (auto simp: user_ok_def)
  have jb: "j < length (job_heap u)" "j_session (job_heap u ! j) = i" and jn: "j \<notin> set (rest @ pushed_jobs (strand_of u i))"
    using s q by (auto simp: session_ok_def belongs_def)
  have f: "v = (u\<lparr>job_heap := (job_heap u)[j := ?x], next_request_id := ?q + 1, requests_made := Suc (requests_made u),
      waiting := pending_add ?q j (?q, j) (now + request_timeout) (waiting u), to_room := to_room u @ [request ?q]\<rparr>)"
    using live(1) fits jb(1) by (simp add: v_def room_job_run_eq and_then_def Let_def upd_job_def)
  have obs: "strand_of v = strand_of u" "sched_of v = sched_of u" "answered_of v = answered_of u"
    "length (sessions v) = length (sessions u)" by (simp_all add: f)
  have jok: "job_ok {i} [] u k" if "k < length (job_heap u)" "room_job u k" for k
    using ok that by (simp add: user_ok_def)
  have fresh: "\<not> j_finished (job_heap u ! j)" "count_list (answered_of u i) j = 0"
    "count_list (waiting_jobs u @ [] @ token_jobs (strand_of u i)) j = 0"
    using jok[OF jb(1) room] jb q by (auto simp: job_ok_def job_ok_at_def phase_ok_def fresh_jobs_def)
  then have jw: "j \<notin> set (waiting_jobs u)" by (simp add: count_list_0_iff)
  have r: "registry_ok v" "mset (waiting_jobs v) = add_mset j (mset (waiting_jobs u))"
    using registry_ok_add[OF reg live(2) jb(1) room jw, where v = v and x = ?x and dl = "now + request_timeout"]
    by (simp_all add: f)
  have heap: "job_heap v ! k = (if k = j then ?x else job_heap u ! k)" and len: "length (job_heap v) = length (job_heap u)" for k
    using jb(1) by (simp_all add: f)
  have bel: "belongs v = belongs u" "room_job v = room_job u"
    by (auto simp: fun_eq_iff belongs_def room_job_def heap len)
  have cnt: "count_list (waiting_jobs v) k = (if k = j then 1 else 0) + count_list (waiting_jobs u) k" for k
    using r(2) by (simp add: count_list_mset)
  have mem: "k \<in> set (waiting_jobs v) \<longleftrightarrow> k = j \<or> k \<in> set (waiting_jobs u)" for k
    using r(2) by (metis insert_iff set_mset_add_mset_insert set_mset_mset)
  have "session_ok False v k" if "k < length (sessions u)" for k
    using that ok s q room by (cases "k = i") (auto simp: session_ok_def user_ok_def obs bel)
  moreover have "job_ok {} [] v k" if k: "k < length (job_heap u)" "room_job u k" for k
  proof (cases "k = j")
    case True
    then show ?thesis using fresh jb jn q t
      by (simp add: job_ok_def job_ok_at_def phase_ok_def fresh_jobs_def heap obs cnt)
  next
    case False
    then show ?thesis using jok[OF k] q
      by (cases "j_session (job_heap u ! k) = i")
        (auto simp: job_ok_def job_ok_at_def fresh_jobs_def heap obs cnt mem Let_def)
  qed
  moreover have "manager_ok v" using man by (simp add: f manager_ok_def)
  moreover have "j_session (job_heap v ! k) < length (sessions u)" if "k < length (job_heap u)" for k
    using that ok jb by (auto simp: heap user_ok_def)
  ultimately show ?thesis using r(1)
    unfolding v_def[symmetric] by (simp add: user_ok_def obs bel len)
qed

subsection \<open>Jobs that complete at once\<close>

definition settled :: "user_server \<Rightarrow> bool" where
  "settled u \<longleftrightarrow> crashed u \<or> wrapped u \<or> user_ok {} {} [] u"

lemma length_sessions_set_user [simp]: "length (sessions (set_user i name u)) = length (sessions u)"
  by (simp add: set_user_def)

lemma sync_run_ok:
  assumes ok: "user_ok P C K u" and j: "belongs u i j" "\<not> room_job u j" and c: "cl = j_class (job_heap u ! j)"
    and run: "job_run sz now cl j i t u = (u1, r)" and live: "\<not> crashed u1"
  shows "user_ok P C K u1" and "r = Some t" and "room_job u1 j = room_job u j"
proof -
  have nr: "\<not> is_room_job cl" using j(2) c by (simp add: room_job_def)
  have "j < length (job_heap u)" using j(1) by (simp add: belongs_def)
  then have "job_heap u1 ! j = job_heap u ! j" using run live nr
    by (cases cl)
      (auto simp: completes_def job_login_run_def send_res_login_def job_logout_run_def send_res_logout_def
        job_stop_run_def job_forward_message_run_def send_notification_def job_cli_forward_message_run_def
        job_ntf_leave_room_message_run_def and_then_def enqueue_stop_def Let_def add_session_def
        set_user_def set_leave_room_def session_stop_def observe_enqueue nth_append split: if_splits)
  then show "room_job u1 j = room_job u j" by (simp add: room_job_def)
  have i: "i < length (sessions u)" using ok j(1) by (auto simp: user_ok_def belongs_def)
  have rep: "user_ok P C K (session_send sz i (Some j) m u)" if "\<not> crashed (session_send sz i (Some j) m u)" for m
    using that user_ok_reply[OF ok j(1)] j(2) by (auto simp: crashed_session_send)
  have live': "\<not> crashed v" if "\<not> crashed (and_then v f)" for v f using that by (auto simp: and_then_def)
  show "user_ok P C K u1" using run live nr
    by (cases cl)
      (auto simp: completes_def job_login_run_def send_res_login_def job_logout_run_def send_res_logout_def
        job_stop_run_def job_forward_message_run_def send_notification_def job_cli_forward_message_run_def
        job_ntf_leave_room_message_run_def and_then_def enqueue_stop_def Let_def i
        intro!: user_ok_add_session user_ok_session_ops user_ok_enqueue rep ok split: if_splits)
  show "r = Some t" using run live nr by (cases cl) (auto simp: completes_def)
qed

lemma sched_of_schedulers: "i < length (sessions u) \<Longrightarrow> sched_of u i = schedulers u ! i"
  by (simp add: sched_of_def nth_schedulers)

lemma exec_call_scheds:
  assumes "exec_call sz now i c u = (u1, r)" and "i < length (sessions u)"
  shows "length (sessions u1) = length (sessions u)" and "sched_of u1 i = sched_of u i"
proof -
  have "schedulers u1 = schedulers u" using schedulers_exec_call[of sz now i c u] assms(1) by simp
  then show "length (sessions u1) = length (sessions u)" by (simp add: length_sessions)
  with \<open>schedulers u1 = schedulers u\<close> assms(2) show "sched_of u1 i = sched_of u i"
    by (simp add: sched_of_schedulers)
qed

lemma room_run:
  "is_room_job cl \<Longrightarrow> \<exists>request. job_run sz now cl j i t u = (room_job_run sz now request j t u, None)"
  by (cases cl) (auto simp: job_create_room_run_def job_join_room_run_def job_leave_room_run_def)

lemma room_job_run_settled:
  assumes "user_ok {i} {} [] u" and "i < length (sessions u)" and "jobs (sched_of u i) = j # rest"
    and "room_job u j" and "t = length (completed (sched_of u i)) - 1" and "\<not> crashed u"
  shows "settled (room_job_run sz now request j t u)"
proof -
  consider "wrapped u" | "sz (request (next_request_id u)) > kMaxPayloadSize"
    | "\<not> wrapped u" "sz (request (next_request_id u)) \<le> kMaxPayloadSize" by linarith
  then show ?thesis
  proof cases
    case 1
    then have "wrapped (room_job_run sz now request j t u)"
      by (simp add: wrapped_def room_job_run_eq Let_def and_then_def)
    then show ?thesis by (simp add: settled_def)
  next
    case 2
    then show ?thesis by (simp add: settled_def room_job_run_eq Let_def)
  next
    case 3
    then show ?thesis using room_job_run_ok[OF assms] by (simp add: settled_def)
  qed
qed

lemma run_calls_step:
  assumes ok: "user_ok {i} {} [] u" and i: "i < length (sessions u)" and q: "jobs (sched_of u i) = j # rest"
    and t: "t = length (completed (sched_of u i)) - 1"
    and IH: "\<And>u j t ks. rest = j # ks \<Longrightarrow> user_ok {i} {} [] u \<Longrightarrow> i < length (sessions u) \<Longrightarrow>
      jobs (sched_of u i) = j # ks \<Longrightarrow> t = length (completed (sched_of u i)) - 1 \<Longrightarrow>
      settled (run_calls sz now i [Run j t] u)"
  shows "settled (run_calls sz now i [Run j t] u)"
proof (cases "crashed u")
  case True
  then show ?thesis by (simp add: settled_def)
next
  case live: False
  have s: "session_ok True u i" using ok i by (auto simp: user_ok_def)
  have so: "sched_ok (sched_of u i)" and jb: "belongs u i j" using s q by (auto simp: session_ok_def)
  show ?thesis
  proof (cases "room_job u j")
    case True
    then obtain request where "exec_call sz now i (Run j t) u = (room_job_run sz now request j t u, None)"
      using room_run unfolding room_job_def by fastforce
    then show ?thesis using room_job_run_settled[OF ok i q True t live] live i by simp
  next
    case sync: False
    obtain u1 r where e: "exec_call sz now i (Run j t) u = (u1, r)" by fastforce
    note sc = exec_call_scheds[OF e i]
    show ?thesis
    proof (cases "crashed u1")
      case True
      then have "r = None" using e sync
        by (cases "j_class (job_heap u ! j)") (auto simp: room_job_def completes_def)
      then show ?thesis using True e live i by (simp add: settled_def)
    next
      case False
      note u1 = sync_run_ok[OF ok jb sync refl e[simplified] False]
      obtain x cs where d: "done_callback (sched_of u1 i) t = (x, cs)" by fastforce
      have pop: "user_ok (if rest = [] then {} else {i}) {} [] (set_scheduler i x u1)"
        using u1(3) sync sc i q t by (intro user_ok_pop[OF u1(1) _ _ _ _ _ d]) auto
      have eq: "run_calls sz now i [Run j t] u = run_calls sz now i cs (set_scheduler i x u1)"
        using e u1(2) d live i by (simp add: sched_of_def)
      show ?thesis
      proof (cases rest)
        case Nil
        then have "cs = []" using d done_callback_live[OF so q t] sc by simp
        then show ?thesis using eq pop Nil by (simp add: settled_def)
      next
        case (Cons k ks)
        then have cs: "cs = [Run k (length (completed (sched_of u i)))]" and x: "jobs x = k # ks"
          "length (completed x) - 1 = length (completed (sched_of u i))"
          using d done_callback_live[OF so q t] sc by auto
        have "settled (run_calls sz now i [Run k (length (completed (sched_of u i)))] (set_scheduler i x u1))"
          by (rule IH[OF Cons]) (use x pop Cons sc i in \<open>simp_all add: observe_set_scheduler\<close>)
        then show ?thesis using eq cs by (simp only:)
      qed
    qed
  qed
qed

lemma run_calls_settled:
  "\<lbrakk>user_ok {i} {} [] u; i < length (sessions u); jobs (sched_of u i) = j # rest;
    t = length (completed (sched_of u i)) - 1\<rbrakk>
   \<Longrightarrow> settled (run_calls sz now i [Run j t] u)"
proof (induction rest arbitrary: u j t)
  case Nil
  show ?case by (rule run_calls_step[OF Nil]) simp
next
  case (Cons k ks)
  show ?case
  proof (rule run_calls_step[OF Cons.prems])
    fix u' j' t' ks'
    assume "k # ks = j' # ks'" and "user_ok {i} {} [] u'" and "i < length (sessions u')"
      and "jobs (sched_of u' i) = j' # ks'" and "t' = length (completed (sched_of u' i)) - 1"
    then show "settled (run_calls sz now i [Run j' t'] u')" using Cons.IH[of u' j' t'] by simp
  qed
qed

subsection \<open>Answering a room request\<close>

text \<open>A task leaves the strand; the job it is about is set aside.\<close>

definition pop_strand :: "nat \<Rightarrow> session_task list \<Rightarrow> user_server \<Rightarrow> user_server" where
  "pop_strand i ts u = upd_session i (\<lambda>s. s\<lparr>s_strand := ts\<rparr>) u"

lemma observe_pop_strand:
  "i < length (sessions u) \<Longrightarrow> strand_of (pop_strand i ts u) k = (if k = i then ts else strand_of u k)"
  "sched_of (pop_strand i ts u) = sched_of u" "answered_of (pop_strand i ts u) = answered_of u"
  by (simp_all add: pop_strand_def fun_eq_iff observe_upd_session) (simp_all add: observers)

lemma pop_strand_fields [simp]:
  "job_heap (pop_strand i ts u) = job_heap u" "waiting (pop_strand i ts u) = waiting u"
  "next_request_id (pop_strand i ts u) = next_request_id u" "requests_made (pop_strand i ts u) = requests_made u"
  "crashed (pop_strand i ts u) = crashed u" "length (sessions (pop_strand i ts u)) = length (sessions u)"
  "belongs (pop_strand i ts u) = belongs u" "room_job (pop_strand i ts u) = room_job u"
  "waiting_jobs (pop_strand i ts u) = waiting_jobs u"
  by (simp_all add: pop_strand_def belongs_def[abs_def] room_job_def[abs_def])

lemma user_ok_pop_strand:
  assumes ok: "user_ok {} {} [] u" and i: "i < length (sessions u)" and st: "strand_of u i = t # ts"
  shows "user_ok {} (set (pushed_of t @ token_of t)) [] (pop_strand i ts u)"
proof -
  let ?u = "pop_strand i ts u"
  note obs = observe_pop_strand(1)[OF i] observe_pop_strand(2,3)
  have "session_ok False ?u k" if "k < length (sessions u)" for k
  proof -
    have "session_ok False u k" using ok that by (simp add: user_ok_def)
    then show ?thesis using st by (cases "k = i") (auto simp: session_ok_def obs)
  qed
  moreover have "job_ok {} [] ?u j" if "job_ok {} [] u j" "j \<notin> set (pushed_of t @ token_of t)" for j
    using that st by (cases "j_session (job_heap u ! j) = i")
      (auto simp: job_ok_def job_ok_at_def fresh_jobs_def obs Let_def)
  moreover have "registry_ok ?u" using ok by (simp add: user_ok_def registry_defs)
  moreover have "manager_ok ?u" using ok by (simp add: user_ok_def pop_strand_def manager_ok_upd_session)
  ultimately show ?thesis using ok by (simp add: user_ok_def)
qed

lemma settle_front:
  assumes "user_ok {} {j} [] u" and "i < length (sessions u)" and "jobs (sched_of u i) = j # rest"
    and "j_finished (job_heap u ! j)" and "count_list (answered_of u i) j = 1" and "j \<notin> set (waiting_jobs u)"
  shows "settled (after_done sz now i (u, Some (length (completed (sched_of u i)) - 1)))"
proof -
  let ?t = "length (completed (sched_of u i)) - 1"
  obtain x cs where d: "done_callback (sched_of u i) ?t = (x, cs)" by fastforce
  have so: "sched_ok (sched_of u i)" using assms(1,2) by (auto simp: user_ok_def session_ok_def)
  have pop: "user_ok (if rest = [] then {} else {i}) {} [] (set_scheduler i x u)"
    using assms by (intro user_ok_pop[OF assms(1,2) _ _ assms(3) refl d]) auto
  have eq: "after_done sz now i (u, Some ?t) = run_calls sz now i cs (set_scheduler i x u)"
    using d by (simp add: after_done_def sched_of_def)
  show ?thesis
  proof (cases rest)
    case Nil
    then have "cs = []" using d done_callback_live[OF so assms(3) refl] by simp
    then show ?thesis using eq pop Nil by (simp add: settled_def)
  next
    case (Cons k ks)
    then have cs: "cs = [Run k (length (completed (sched_of u i)))]" and x: "jobs x = k # ks"
      "length (completed x) - 1 = length (completed (sched_of u i))"
      using d done_callback_live[OF so assms(3) refl] by auto
    have "settled (run_calls sz now i [Run k (length (completed (sched_of u i)))] (set_scheduler i x u))"
      by (rule run_calls_settled) (use x pop Cons assms(2) in \<open>simp_all add: observe_set_scheduler\<close>)
    then show ?thesis using eq cs by (simp only:)
  qed
qed

text \<open>The front job of a session, with nothing under way for it any more.\<close>

definition answering :: "user_server \<Rightarrow> nat \<Rightarrow> nat \<Rightarrow> bool" where
  "answering u i j \<longleftrightarrow>
     user_ok {} {j} [] u \<and> belongs u i j \<and> room_job u j \<and>
     jobs (sched_of u i) \<noteq> [] \<and> hd (jobs (sched_of u i)) = j \<and>
     \<not> j_finished (job_heap u ! j) \<and> j_done (job_heap u ! j) = Some (length (completed (sched_of u i)) - 1) \<and>
     count_list (answered_of u i) j = 0 \<and> j \<notin> set (waiting_jobs u)"

lemma reply_settled:
  assumes a: "answering u i j" and live: "\<not> crashed u"
  shows "settled (after_done sz now i (reply_and_finish sz j m u))"
proof -
  note a = a[unfolded answering_def]
  let ?v = "session_send sz i (Some j) m u" and ?t = "length (completed (sched_of u i)) - 1"
  have i: "i < length (sessions u)" and ji: "j_session (job_heap u ! j) = i" and jl: "j < length (job_heap u)"
    using a by (auto simp: user_ok_def belongs_def)
  show ?thesis
  proof (cases "sz m > kMaxPayloadSize")
    case True
    then show ?thesis using ji by (simp add: settled_def reply_and_finish_def session_send_def after_done_def)
  next
    case False
    then have fits: "sz m \<le> kMaxPayloadSize" by simp
    note obs = observe_session_send[where sz = sz and m = m, OF fits i]
    let ?w = "upd_job j (\<lambda>x. x\<lparr>j_finished := True, j_done := None\<rparr>) ?v"
    have "user_ok {} {j} [] ?v" using a fits by (intro user_ok_reply) auto
    then have w: "user_ok {} {j} [] ?w" by (intro user_ok_upd_job) auto
    have "reply_and_finish sz j m u = (?w, Some ?t)"
      using a live fits ji by (simp add: reply_and_finish_def job_finish_def crashed_session_send Let_def)
    moreover obtain rest where "jobs (sched_of u i) = j # rest" using a by (cases "jobs (sched_of u i)") auto
    ultimately show ?thesis using settle_front[OF w, of i rest sz now] a i jl
      by (simp add: obs nth_upd_job waiting_jobs_def)
  qed
qed

lemma answering_same_core:
  assumes "answering u i j" and "same_core u v" and "manager_ok v"
  shows "answering v i j"
proof -
  have "waiting_jobs v = waiting_jobs u" using assms(2) by (simp add: same_core_def waiting_jobs_def)
  then show ?thesis using assms same_core_ok[OF assms(2) _ assms(3), of "{}" "{j}" "[]"]
    by (simp add: answering_def same_core_def belongs_def room_job_def)
qed

lemma answering_session_update:
  assumes "answering u i j"
  shows "answering (set_enter_room k r u) i j" and "answering (set_leave_room k u) i j"
proof -
  have "manager_ok u" using assms by (simp add: answering_def user_ok_def)
  then show "answering (set_enter_room k r u) i j" and "answering (set_leave_room k u) i j"
    unfolding set_enter_room_def set_leave_room_def
    by (intro answering_same_core[OF assms same_core_upd_session] manager_ok_upd_session; simp)+
qed

lemma handle_res_settled:
  assumes a: "answering u i j" and live: "\<not> crashed u"
  shows "settled (after_done sz now i (job_handle_res sz (j_class (job_heap u ! j)) m j u))"
proof -
  have nf: "\<not> j_finished (job_heap u ! j)" and rj: "is_room_job (j_class (job_heap u ! j))"
    using a by (simp_all add: answering_def room_job_def)
  have bad: "settled (after_done sz now i (u\<lparr>crashed := True\<rparr>, None))" by (simp add: settled_def after_done_def)
  have good: "settled (after_done sz now i (reply_and_finish sz j m' v))"
    if "v \<in> {u, set_enter_room k r u, set_leave_room k u}" for m' v k r
  proof -
    have "answering v i j" and "\<not> crashed v"
      using that a live answering_session_update[OF a] by (auto simp: set_enter_room_def set_leave_room_def)
    then show ?thesis by (rule reply_settled)
  qed
  show ?thesis using nf rj
    by (cases "j_class (job_heap u ! j)"; cases m)
      (auto simp: handle_res_create_room_def handle_res_join_room_def handle_res_leave_room_def bad intro!: good)
qed

text \<open>With no entry left for it, the cancellation of a job's request does nothing.\<close>

lemma cancel_request_none:
  assumes "om_find (requests (waiting u)) q = None"
  shows "cancel_request sz q u = u"
  using assms by (simp add: cancel_request_def pending_cancel_def pending_take_def)

lemma answering_no_entry:
  assumes "answering u i j"
  shows "om_find (requests (waiting u)) (j_room_request_id (job_heap u ! j)) = None"
proof (cases "om_find (requests (waiting u)) (j_room_request_id (job_heap u ! j))")
  case (Some r)
  have "registry_ok u" "j < length (job_heap u)" using assms by (auto simp: answering_def user_ok_def belongs_def)
  with Some have "on_response r = j" by (simp add: registry_defs)
  with om_find_in_set[OF Some] have "j \<in> set (waiting_jobs u)" by (force simp: waiting_jobs_def)
  then show ?thesis using assms by (simp add: answering_def)
qed

lemma timeout_settled:
  assumes a: "answering u i j" and live: "\<not> crashed u"
  shows "settled (after_done sz now i (job_cancel sz kTimeout (j_class (job_heap u ! j)) j u))"
proof -
  have nf: "\<not> j_finished (job_heap u ! j)" and rj: "is_room_job (j_class (job_heap u ! j))"
    using a by (simp_all add: answering_def room_job_def)
  show ?thesis using nf rj cancel_request_none[OF answering_no_entry[OF a], of sz]
    by (cases "j_class (job_heap u ! j)")
      (auto simp: job_create_room_cancel_def job_join_room_cancel_def job_leave_room_cancel_def
        room_job_cancel_def Let_def intro!: reply_settled[OF a live])
qed

subsection \<open>Cancelling jobs of a session that was shut down\<close>

lemma user_ok_drop_call:
  assumes "user_ok P C (j # K) u" and "j \<in> C"
  shows "user_ok P C K u"
proof -
  have "job_ok P K u k = job_ok P (j # K) u k" if "k \<notin> C" for k
  proof -
    have "k \<noteq> j" using that assms(2) by auto
    then show ?thesis by (simp add: job_ok_def job_ok_at_def)
  qed
  then show ?thesis using assms(1) by (simp add: user_ok_def)
qed

lemma cancel_request_ok:
  assumes ok: "user_ok P C [] u" and j: "j < length (job_heap u)" "j \<in> C"
  shows "user_ok P C [] (cancel_request sz (j_room_request_id (job_heap u ! j)) u)"
    and "j \<notin> set (waiting_jobs (cancel_request sz (j_room_request_id (job_heap u ! j)) u))"
proof -
  let ?q = "j_room_request_id (job_heap u ! j)" and ?rs = "requests (waiting u)"
  let ?w = "(waiting u)\<lparr>requests := om_erase ?q ?rs\<rparr>"
  have reg: "registry_ok u" using ok by (simp add: user_ok_def)
  have own: "fst e = ?q" if "e \<in> set ?rs" "on_response (snd e) = j" for e
  proof -
    have "entry_ok u e" using reg that(1) by (simp add: registry_ok_def)
    then show ?thesis using that(2) by (cases e) (simp add: entry_ok_def)
  qed
  have "user_ok P C [] (cancel_request sz ?q u) \<and> j \<notin> set (waiting_jobs (cancel_request sz ?q u))"
  proof (cases "om_find ?rs ?q")
    case None
    then have "j \<notin> set (waiting_jobs u)"
      using own by (force simp: waiting_jobs_def om_find_None_iff)
    then show ?thesis using ok cancel_request_none[OF None] by simp
  next
    case (Some r)
    have wf: "om_wf ?rs" and rj: "on_response r = j" using reg Some j by (auto simp: registry_defs)
    have "user_ok P C [j] (u\<lparr>waiting := ?w\<rparr>)"
    proof (rule user_ok_withdraw[OF ok])
      show "requests ?w = filter (\<lambda>(k', _). k' \<noteq> ?q) ?rs" by (simp add: om_erase_def)
      show "timer_running ?w" using reg by (simp add: registry_ok_def)
      show "mset [j] = mset (map (on_response \<circ> snd) (filter (\<lambda>e. \<not> (case e of (k', _) \<Rightarrow> k' \<noteq> ?q)) ?rs))"
        using rj by (simp only: filter_key[OF wf om_find_in_set[OF Some]]) simp
    qed
    then have "user_ok P C [] (u\<lparr>waiting := ?w\<rparr>)" using j(2) by (rule user_ok_drop_call)
    moreover have "j \<notin> set (waiting_jobs (u\<lparr>waiting := ?w\<rparr>))"
      using own by (force simp: waiting_jobs_def om_erase_def)
    moreover have "cancel_request sz ?q u = send_cancel sz ?q (u\<lparr>waiting := ?w\<rparr>)"
      using Some by (simp add: cancel_request_def pending_cancel_def pending_take_def)
    ultimately show ?thesis using user_ok_session_ops(5)
      by (simp add: waiting_jobs_def)
  qed
  then show "user_ok P C [] (cancel_request sz ?q u)" and "j \<notin> set (waiting_jobs (cancel_request sz ?q u))"
    by simp_all
qed

lemma cancel_request_fields [simp]:
  "sessions (cancel_request sz q u) = sessions u" "job_heap (cancel_request sz q u) = job_heap u"
  "crashed (cancel_request sz q u) = crashed u" "requests_made (cancel_request sz q u) = requests_made u"
  by (simp_all add: cancel_request_def split: prod.splits)

lemma cancel_request_observe [simp]:
  "strand_of (cancel_request sz q u) = strand_of u" "sched_of (cancel_request sz q u) = sched_of u"
  "answered_of (cancel_request sz q u) = answered_of u"
  by (simp_all add: observers fun_eq_iff)

text \<open>What is known of jobs that a shutdown is about to cancel.\<close>

definition doomed :: "user_server \<Rightarrow> nat \<Rightarrow> nat \<Rightarrow> bool" where
  "doomed u i j \<longleftrightarrow>
     belongs u i j \<and> j \<notin> set (pushed_jobs (strand_of u i)) \<and>
     (room_job u j \<longrightarrow> \<not> j_finished (job_heap u ! j) \<and> count_list (answered_of u i) j = 0)"

lemma user_ok_retire:
  assumes ok: "user_ok {} (insert j C) [] u" and j: "room_job u j \<Longrightarrow> job_ok {} [] u j"
  shows "user_ok {} C [] u"
  using assms by (auto simp: user_ok_def)

lemma cancel_one:
  assumes ok: "user_ok {} (insert j C) [] u" and i: "i < length (sessions u)" and d: "doomed u i j"
    and st: "stopped (sched_of u i)"
    and e: "exec_call sz now i (CancelShutdown j) u = (u1, r)"
  shows "user_ok {} C [] u1" and "crashed u1 = crashed u" and "\<And>k. k \<noteq> j \<Longrightarrow> doomed u1 i k = doomed u i k"
proof -
  have jl: "j < length (job_heap u)" and ji: "j_session (job_heap u ! j) = i" using d by (auto simp: doomed_def belongs_def)
  have empty: "jobs (sched_of u i) = []"
    using ok i st by (auto simp: user_ok_def session_ok_def sched_ok_def)
  have "user_ok {} C [] u1 \<and> crashed u1 = crashed u \<and> (\<forall>k. k \<noteq> j \<longrightarrow> doomed u1 i k = doomed u i k)"
  proof (cases "room_job u j")
    case False
    then have "u1 = u" using e by (cases "j_class (job_heap u ! j)") (auto simp: room_job_def)
    then show ?thesis using user_ok_retire[OF ok] False by simp
  next
    case True
    let ?v = "cancel_request sz (j_room_request_id (job_heap u ! j)) u"
    let ?w = "upd_job j (\<lambda>x. x\<lparr>j_finished := True, j_done := None\<rparr>) ?v"
    have u1: "u1 = ?w" using e True d
      by (cases "j_class (job_heap u ! j)")
        (auto simp: room_job_def doomed_def job_create_room_cancel_def job_join_room_cancel_def
          job_leave_room_cancel_def room_job_cancel_def job_finish_def Let_def)
    note v = cancel_request_ok[OF ok jl insertI1, of sz]
    have w: "user_ok {} (insert j C) [] ?w" using v(1) by (intro user_ok_upd_job) auto
    have "job_ok {} [] ?w j" using v(2) d st empty jl ji True
      by (simp add: job_ok_def job_ok_at_def phase_ok_def fresh_jobs_def nth_upd_job doomed_def)
    then have "user_ok {} C [] ?w" using w by (rule_tac user_ok_retire) auto
    moreover have "doomed ?w i k = doomed u i k" if "k \<noteq> j" for k
      using that by (simp add: doomed_def belongs_def room_job_def nth_upd_job)
    ultimately show ?thesis by (simp add: u1)
  qed
  then show "user_ok {} C [] u1" and "crashed u1 = crashed u" and "\<And>k. k \<noteq> j \<Longrightarrow> doomed u1 i k = doomed u i k"
    by auto
qed

lemma user_ok_set_completed:
  assumes ok: "user_ok {} C [] u" and i: "i < length (sessions u)" and st: "stopped (sched_of u i)"
  shows "user_ok {} C [] (set_scheduler i ((sched_of u i)\<lparr>completed := fs\<rparr>) u)"
proof (rule user_ok_set_scheduler[OF ok i refl])
  have s: "session_ok False u i" using ok i by (auto simp: user_ok_def)
  then have empty: "jobs (sched_of u i) = []" using st by (auto simp: session_ok_def sched_ok_def)
  show "session_ok (i \<in> {}) (set_scheduler i ((sched_of u i)\<lparr>completed := fs\<rparr>) u) i"
    using s i st by (simp add: session_ok_def observe_set_scheduler sched_ok_def)
  show "job_ok_at (i \<in> {}) [] (set_scheduler i ((sched_of u i)\<lparr>completed := fs\<rparr>) u) i j"
    if "belongs u i j" "room_job u j" "j \<notin> C" for j
  proof -
    have "job_ok {} [] u j" using ok that by (auto simp: user_ok_def belongs_def)
    then show ?thesis using that i empty
      by (auto simp: job_ok_def job_ok_at_def phase_ok_def fresh_jobs_def observe_set_scheduler belongs_def
          split: if_splits)
  qed
qed simp

lemma cancel_all_settled:
  "\<lbrakk>user_ok {} (set js) [] u; i < length (sessions u); stopped (sched_of u i); \<forall>j \<in> set js. doomed u i j; distinct js\<rbrakk>
   \<Longrightarrow> settled (run_calls sz now i (map CancelShutdown js) u)"
proof (induction js arbitrary: u)
  case Nil
  then show ?case by (simp add: settled_def)
next
  case (Cons j js)
  obtain u1 r where e: "exec_call sz now i (CancelShutdown j) u = (u1, r)" by fastforce
  note one = cancel_one[OF _ Cons.prems(2) _ Cons.prems(3) e, of "set js"]
  have u1: "user_ok {} (set js) [] u1" "crashed u1 = crashed u" using one Cons.prems by auto
  have "doomed u1 i k = doomed u i k" if "k \<in> set js" for k
    using one(3)[of k] that Cons.prems by auto
  then have u1_doomed: "\<forall>k \<in> set js. doomed u1 i k" using Cons.prems(4) by simp
  note sc = exec_call_scheds[OF e Cons.prems(2)]
  show ?case
  proof (cases "crashed u")
    case True
    then show ?thesis by (simp add: settled_def)
  next
    case False
    show ?thesis
    proof (cases r)
      case None
      then show ?thesis using Cons.IH[OF u1(1)] u1_doomed sc Cons.prems e False by simp
    next
      case (Some t)
      have "jobs (sched_of u1 i) = []"
        using u1(1) sc Cons.prems(2,3) by (auto simp: user_ok_def session_ok_def sched_ok_def)
      then obtain fs where d: "done_callback (sched_of u1 i) t = ((sched_of u1 i)\<lparr>completed := fs\<rparr>, [])"
        using done_callback_stopped by blast
      let ?v = "set_scheduler i ((sched_of u1 i)\<lparr>completed := fs\<rparr>) u1"
      have "user_ok {} (set js) [] ?v"
        by (rule user_ok_set_completed[OF u1(1)]) (use sc Cons.prems(2,3) in simp_all)
      moreover have "\<forall>k \<in> set js. doomed ?v i k" using u1_doomed by (simp add: doomed_def observe_set_scheduler)
      ultimately have "settled (run_calls sz now i (map CancelShutdown js) ?v)"
        using sc Cons.prems by (intro Cons.IH) (simp_all add: observe_set_scheduler)
      then show ?thesis using e Some d False Cons.prems(2) by (simp add: sched_of_def)
    qed
  qed
qed

subsection \<open>A task of the strand\<close>

lemma set_scheduler_same: "set_scheduler i (sched_of u i) u = u"
  by (simp add: set_scheduler_def upd_session_def sched_of_def)

lemma push_settled:
  assumes ok: "user_ok {} {} [] u0" and i: "i < length (sessions u0)" and st: "strand_of u0 i = PushJob j # ts"
  shows "settled (run_session_task sz now i (PushJob j) (pop_strand i ts u0))"
proof -
  define u where "u = pop_strand i ts u0"
  have obs: "strand_of u i = ts" "sched_of u = sched_of u0" "answered_of u = answered_of u0"
    "length (sessions u) = length (sessions u0)" "job_heap u = job_heap u0" "waiting_jobs u = waiting_jobs u0"
    "belongs u = belongs u0" "room_job u = room_job u0"
    using i by (simp_all add: u_def observe_pop_strand)
  have uok: "user_ok {} {j} [] u" using user_ok_pop_strand[OF ok i st] by (simp add: u_def)
  have s0: "session_ok False u0 i" using ok i by (simp add: user_ok_def)
  have s: "session_ok False u i" using uok i obs by (auto simp: user_ok_def)
  have jb: "belongs u i j" and jn: "j \<notin> set (jobs (sched_of u i) @ pushed_jobs ts)"
    using s0 st obs by (auto simp: session_ok_def)
  have fresh: "phase_ok True q x (job_heap u ! j) (count_list (answered_of u i) j)
      (count_list (waiting_jobs u @ [] @ token_jobs ts) j) w" if "room_job u j" for q x w
  proof -
    have "job_ok {} [] u0 j" using ok jb that obs by (auto simp: user_ok_def belongs_def)
    then show ?thesis using jb st obs
      by (simp add: job_ok_def job_ok_at_def phase_ok_def fresh_jobs_def belongs_def)
  qed
  let ?x = "sched_of u i"
  have eq: "run_session_task sz now i (PushJob j) u =
      (case push_and_run ?x j of (x, cs) \<Rightarrow> run_calls sz now i cs (set_scheduler i x u))"
    by (simp add: sched_of_def)
  have other: "job_ok {} [] u k" if "belongs u i k" "room_job u k" "k \<noteq> j" for k
    using uok that by (auto simp: user_ok_def belongs_def)
  have so: "sched_ok ?x" using s by (simp add: session_ok_def)
  consider (stop) "stopped ?x" | (idle) "\<not> stopped ?x" "\<not> running ?x" | (busy) "\<not> stopped ?x" "running ?x" by blast
  then have "settled (run_session_task sz now i (PushJob j) u)"
  proof cases
    case stop
    have "doomed u i j" using jb jn fresh by (simp add: doomed_def obs phase_ok_def)
    moreover have "set_scheduler i ?x u = u" by (rule set_scheduler_same)
    ultimately show ?thesis using eq stop cancel_all_settled[of "[j]" u i sz now] uok i obs
      by (simp add: push_and_run_def del: run_calls.simps)
  next
    case idle
    then have e: "jobs ?x = []" and o: "open_runs (completed ?x) = {}" using so by (auto simp: sched_ok_def)
    let ?y = "?x\<lparr>jobs := [j], running := True, completed := completed ?x @ [False]\<rparr>"
    have "user_ok {i} {} [] (set_scheduler i ?y u)"
    proof (rule user_ok_set_scheduler[OF uok])
      show "session_ok (i \<in> {i}) (set_scheduler i ?y u) i"
        using s i obs jb jn idle o by (simp add: session_ok_def observe_set_scheduler sched_ok_def)
      show "job_ok_at (i \<in> {i}) [] (set_scheduler i ?y u) i k" if "belongs u i k" "room_job u k" "k \<notin> {}" for k
      proof (cases "k = j")
        case True
        then show ?thesis using fresh that i obs by (simp add: job_ok_at_def fresh_jobs_def observe_set_scheduler)
      next
        case False
        then show ?thesis using other[OF that(1,2)] that e i obs idle(1)
          by (auto simp: job_ok_def job_ok_at_def phase_ok_def fresh_jobs_def observe_set_scheduler belongs_def
              split: if_splits)
      qed
    qed (use i obs jb in auto)
    then have "settled (run_calls sz now i [Run j (length (completed ?x))] (set_scheduler i ?y u))"
      by (rule run_calls_settled) (use i obs in \<open>simp_all add: observe_set_scheduler\<close>)
    moreover have "push_and_run ?x j = (?y, [Run j (length (completed ?x))])"
      using idle e by (simp add: push_and_run_def scheduler_run_def)
    ultimately show ?thesis using eq by (simp del: run_calls.simps)
  next
    case busy
    then obtain f rest where e: "jobs ?x = f # rest" using so by (cases "jobs ?x") (auto simp: sched_ok_def)
    let ?y = "?x\<lparr>jobs := jobs ?x @ [j]\<rparr>"
    have "user_ok {} {} [] (set_scheduler i ?y u)"
    proof (rule user_ok_set_scheduler[OF uok])
      show "session_ok (i \<in> {}) (set_scheduler i ?y u) i"
        using s i obs jb jn busy e by (auto simp: session_ok_def observe_set_scheduler sched_ok_def)
      show "job_ok_at (i \<in> {}) [] (set_scheduler i ?y u) i k" if "belongs u i k" "room_job u k" "k \<notin> {}" for k
      proof (cases "k = j")
        case True
        then show ?thesis using fresh that i obs e by (simp add: job_ok_at_def fresh_jobs_def observe_set_scheduler)
      next
        case False
        then show ?thesis using other[OF that(1,2)] that e i obs busy(1)
          by (auto simp: job_ok_def job_ok_at_def phase_ok_def fresh_jobs_def observe_set_scheduler belongs_def
              split: if_splits)
      qed
    qed (use i obs jb in auto)
    then show ?thesis using eq busy by (simp add: push_and_run_def settled_def)
  qed
  then show ?thesis by (simp add: u_def)
qed

lemma shutdown_settled:
  assumes ok: "user_ok {} {} [] u" and i: "i < length (sessions u)"
  shows "settled (run_session_task sz now i ShutdownScheduler u)"
proof -
  define v where "v = upd_session i (\<lambda>s. s\<lparr>s_stop := True\<rparr>) u"
  have core: "same_core u v" unfolding v_def by (rule same_core_upd_session) simp_all
  have vok: "user_ok {} {} [] v" unfolding v_def using ok by (rule user_ok_upd_session) simp_all
  have obs: "sched_of v = sched_of u" "length (sessions v) = length (sessions u)" using core by (simp_all add: same_core_def)
  have s: "session_ok False v i" using vok i obs by (simp add: user_ok_def)
  let ?x = "sched_of u i"
  have eq: "run_session_task sz now i ShutdownScheduler u =
      (case scheduler_shutdown ?x of (x, cs) \<Rightarrow> run_calls sz now i cs (set_scheduler i x v))"
    by (simp add: sched_of_def v_def)
  show ?thesis
  proof (cases "stopped ?x")
    case True
    have "set_scheduler i ?x v = v" using obs(1) by (metis set_scheduler_same)
    then show ?thesis using eq True vok by (simp add: scheduler_shutdown_def settled_def)
  next
    case False
    let ?y = "?x\<lparr>stopped := True, running := False, jobs := []\<rparr>" and ?js = "jobs ?x"
    have jok: "job_ok {} [] v k" if "belongs v i k" "room_job v k" for k
      using vok that by (auto simp: user_ok_def belongs_def)
    have "user_ok {} (set ?js) [] (set_scheduler i ?y v)"
    proof (rule user_ok_set_scheduler[OF vok])
      show "session_ok (i \<in> {}) (set_scheduler i ?y v) i"
        using s i obs by (simp add: session_ok_def observe_set_scheduler sched_ok_def)
      show "job_ok_at (i \<in> {}) [] (set_scheduler i ?y v) i k" if k: "belongs v i k" "room_job v k" "k \<notin> set ?js" for k
      proof -
        have "k \<notin> set (tl ?js)" using k(3) by (cases ?js) auto
        then show ?thesis using jok[OF k(1,2)] k i obs False
          by (auto simp: job_ok_def job_ok_at_def phase_ok_def fresh_jobs_def observe_set_scheduler belongs_def split: if_splits)
      qed
    qed (use i obs in auto)
    moreover have "doomed (set_scheduler i ?y v) i k" if "k \<in> set ?js" for k
    proof -
      have k: "belongs v i k" "k \<notin> set (pushed_jobs (strand_of v i))"
        using s that obs by (auto simp: session_ok_def list_all_iff)
      then have "\<not> j_finished (job_heap v ! k) \<and> count_list (answered_of v i) k = 0" if "room_job v k"
        using jok[OF k(1) that] \<open>k \<in> set ?js\<close> obs
        by (auto simp: job_ok_def job_ok_at_def phase_ok_def belongs_def split: if_splits)
      with k show ?thesis by (simp add: doomed_def observe_set_scheduler)
    qed
    moreover have "distinct ?js" using s obs by (simp add: session_ok_def)
    ultimately have "settled (run_calls sz now i (map CancelShutdown ?js) (set_scheduler i ?y v))"
      using i obs by (intro cancel_all_settled) (simp_all add: observe_set_scheduler)
    then show ?thesis using eq False by (simp add: scheduler_shutdown_def)
  qed
qed

text \<open>
  A response or a timeout reaches the strand's front: either its job is long over, or it is
  the one its scheduler runs and this was the last thing under way for it.
\<close>

lemma token_popped:
  assumes ok: "user_ok {} {} [] u" and i: "i < length (sessions u)" and st: "strand_of u i = t # ts"
    and t: "token_of t = [j]" "pushed_of t = []"
  shows "if j_finished (job_heap u ! j) then user_ok {} {} [] (pop_strand i ts u)
    else answering (pop_strand i ts u) i j"
proof -
  let ?v = "pop_strand i ts u"
  note obs = observe_pop_strand(1)[OF i] observe_pop_strand(2,3)
  have v: "user_ok {} {j} [] ?v" using user_ok_pop_strand[OF ok i st] t by simp
  have "session_ok False u i" using ok i by (simp add: user_ok_def)
  then have j: "belongs u i j" "room_job u j" using st t by (simp_all add: session_ok_def)
  then have jok: "job_ok {} [] u j" using ok by (auto simp: user_ok_def belongs_def)
  let ?q = "jobs (sched_of u i)"
  have nf: "j \<notin> set (tl ?q @ pushed_jobs (strand_of u i))"
    using jok j st t by (auto simp: job_ok_def job_ok_at_def phase_ok_def fresh_jobs_def belongs_def split: if_splits)
  show ?thesis
  proof (cases "j_finished (job_heap u ! j)")
    case True
    have "job_ok {} [] ?v j" using True jok j st t
      by (auto simp: job_ok_def job_ok_at_def phase_ok_def fresh_jobs_def belongs_def obs split: if_splits)
    then show ?thesis using True user_ok_retire[of j "{}" ?v] v by simp
  next
    case False
    then have m: "j \<in> set ?q" "j_done (job_heap u ! j) = Some (length (completed (sched_of u i)) - 1)"
      "count_list (answered_of u i) j = 0" "count_list (waiting_jobs u) j = 0"
      using jok j st t nf
      by (auto simp: job_ok_def job_ok_at_def phase_ok_def fresh_jobs_def belongs_def split: if_splits)
    moreover have "?q \<noteq> []" and "hd ?q = j" using m(1) nf by (cases ?q; auto)+
    ultimately show ?thesis using False v j by (simp add: answering_def obs count_list_0_iff)
  qed
qed

lemma run_session_settled:
  assumes ok: "user_ok {} {} [] u" and live: "\<not> crashed u"
  shows "settled (run_session sz now i u)"
proof (cases "length (sessions u) \<le> i \<or> strand_of u i = []")
  case True
  then show ?thesis using ok by (auto simp: run_session_def strand_of_def settled_def)
next
  case False
  then obtain t ts where i: "i < length (sessions u)" and st: "strand_of u i = t # ts"
    by (cases "strand_of u i") auto
  let ?v = "pop_strand i ts u"
  have eq: "run_session sz now i u = run_session_task sz now i t ?v"
    using i st by (simp add: run_session_def strand_of_def pop_strand_def)
  have live': "\<not> crashed ?v" using live by simp
  have "settled (run_session_task sz now i t ?v)"
  proof (cases t)
    case (PushJob j)
    then show ?thesis using push_settled[OF ok i, of j ts sz now] st by simp
  next
    case ShutdownScheduler
    then have "user_ok {} {} [] ?v" using user_ok_pop_strand[OF ok i st] by simp
    then show ?thesis using shutdown_settled[of ?v i sz now] i ShutdownScheduler by simp
  next
    case (HandleRes j m)
    then have p: "if j_finished (job_heap u ! j) then user_ok {} {} [] ?v else answering ?v i j"
      using token_popped[OF ok i st] by simp
    show ?thesis
    proof (cases "j_finished (job_heap u ! j)")
      case True
      then have "job_handle_res sz (j_class (job_heap u ! j)) m j ?v = (?v, None)"
        by (cases "j_class (job_heap u ! j)")
          (simp_all add: handle_res_create_room_def handle_res_join_room_def handle_res_leave_room_def)
      then show ?thesis using p True HandleRes by (simp add: after_done_def settled_def)
    next
      case False
      then show ?thesis using p HandleRes handle_res_settled[OF _ live', of i j sz now m] by simp
    qed
  next
    case (TimeoutCancel j)
    then have p: "if j_finished (job_heap u ! j) then user_ok {} {} [] ?v else answering ?v i j"
      using token_popped[OF ok i st] by simp
    show ?thesis
    proof (cases "j_finished (job_heap u ! j)")
      case True
      then have "job_cancel sz kTimeout (j_class (job_heap u ! j)) j ?v = (?v, None)"
        by (cases "j_class (job_heap u ! j)")
          (simp_all add: job_create_room_cancel_def job_join_room_cancel_def job_leave_room_cancel_def room_job_cancel_def)
      then show ?thesis using p True TimeoutCancel by (simp add: after_done_def settled_def)
    next
      case False
      then show ?thesis using p TimeoutCancel timeout_settled[OF _ live', of i j sz now] by simp
    qed
  qed
  then show ?thesis by (simp add: eq)
qed

subsection \<open>Runs\<close>

lemma made_mono_finish [simp]: "requests_made (fst (job_finish j u)) = requests_made u"
  by (simp add: job_finish_def Let_def)

lemma made_mono_reply [simp]: "requests_made (fst (reply_and_finish sz j m u)) = requests_made u"
  by (simp add: reply_and_finish_def Let_def)

lemma made_mono_exec: "requests_made u \<le> requests_made (fst (exec_call sz now i c u))"
proof (cases c)
  case (Run j t)
  then show ?thesis
    by (cases "j_class (job_heap u ! j)")
      (simp_all add: completes_def job_login_run_def send_res_login_def job_logout_run_def send_res_logout_def
        job_stop_run_def job_forward_message_run_def send_notification_def job_cli_forward_message_run_def
        job_ntf_leave_room_message_run_def and_then_def enqueue_stop_def Let_def add_session_def
        set_user_def set_leave_room_def session_stop_def observe_enqueue job_create_room_run_def
        job_join_room_run_def job_leave_room_run_def room_job_run_eq)
next
  case (CancelShutdown j)
  then show ?thesis
    by (cases "j_class (job_heap u ! j)")
      (simp_all add: job_create_room_cancel_def job_join_room_cancel_def job_leave_room_cancel_def
        room_job_cancel_def Let_def)
qed

lemma made_mono_calls: "requests_made u \<le> requests_made (run_calls sz now i cs u)"
proof (induction sz now i cs u rule: run_calls.induct)
  case (2 sz now i c cs u)
  obtain u1 r where e: "exec_call sz now i c u = (u1, r)" by fastforce
  then have "requests_made u \<le> requests_made u1" using made_mono_exec[of u sz now i c] by simp
  then show ?case using 2 e by (auto split: option.splits prod.splits intro: order.trans)
qed simp

lemma made_mono_done:
  "requests_made u \<le> requests_made (fst r) \<Longrightarrow> requests_made u \<le> requests_made (after_done sz now i r)"
  using made_mono_calls[of "set_scheduler i _ (fst r)" sz now i]
  by (auto simp: after_done_def split: prod.splits option.splits) (metis order.trans set_scheduler_fields(4))

lemma made_mono_handle: "requests_made (fst (job_handle_res sz cl m j u)) = requests_made u"
  by (cases cl; cases m)
    (simp_all add: handle_res_create_room_def handle_res_join_room_def handle_res_leave_room_def
      set_enter_room_def set_leave_room_def)

lemma made_mono_cancel: "requests_made (fst (job_cancel sz why cl j u)) = requests_made u"
  by (cases cl)
    (simp_all add: job_create_room_cancel_def job_join_room_cancel_def job_leave_room_cancel_def
      room_job_cancel_def Let_def)

lemma made_mono_task: "requests_made u \<le> requests_made (run_session_task sz now i t u)"
proof (cases t)
  case (PushJob j)
  then show ?thesis using made_mono_calls[of "set_scheduler i _ u" sz now i]
    by (auto split: prod.splits)
next
  case ShutdownScheduler
  then show ?thesis using made_mono_calls[of "set_scheduler i _ (upd_session i (\<lambda>s. s\<lparr>s_stop := True\<rparr>) u)" sz now i]
    by (auto split: prod.splits)
next
  case (HandleRes j m)
  then show ?thesis by (simp add: made_mono_done made_mono_handle)
next
  case (TimeoutCancel j)
  then show ?thesis by (simp add: made_mono_done made_mono_cancel)
qed

lemma made_mono_recv: "requests_made (session_on_recv sz i m u) = requests_made u"
  by (cases m) (simp_all add: observe_enqueue)

lemma made_mono_effect: "requests_made (user_effect_run sz now l ef u) = requests_made u"
proof (cases ef)
  case (RoomChannelRecv m)
  then show ?thesis
    by (cases m) (auto simp: pass_to_session_def observe_enqueue send_to_waiter_def run_handlers_fields
        split: option.splits prod.splits)
qed (auto simp: made_mono_recv on_recv_unknown_def enqueue_stop_def observe_enqueue)

lemma made_mono_step: "requests_made u \<le> requests_made (user_step parse sz u e)"
proof (cases e)
  case (ConnClosed conn)
  have "requests_made (snd (remove_session conn u)) = requests_made u"
    by (simp add: remove_session_def Let_def split: option.splits)
  then show ?thesis using ConnClosed
    by (auto simp: on_conn_closed_def on_disconnected_def split: prod.splits option.splits)
next
  case (RunSession i now)
  then show ?thesis using made_mono_task[of "upd_session i _ u" sz now i]
    by (auto simp: run_session_def split: list.splits)
qed (auto simp: on_conn_created_def add_session_conn_def made_mono_effect room_channel_timer_def
    run_handlers_fields split: option.splits prod.splits)

lemma session_of_link:
  "user_receive parse type buffer l = SessionRecv i m \<Longrightarrow> l = Some i"
  "user_receive parse type buffer l = SessionRecvUnknown i \<Longrightarrow> l = Some i"
proof -
  have "(user_handle parse d buffer l = SessionRecv i m \<longrightarrow> l = Some i) \<and>
      (user_handle parse d buffer l = SessionRecvUnknown i \<longrightarrow> l = Some i)" for d
    by (cases "(parse, d, buffer, l)" rule: user_handle.cases; cases l) (auto split: prod.splits bool.splits)
  then show "user_receive parse type buffer l = SessionRecv i m \<Longrightarrow> l = Some i"
    and "user_receive parse type buffer l = SessionRecvUnknown i \<Longrightarrow> l = Some i"
    by (auto simp: user_receive_def)
qed

lemma effect_settled:
  assumes ok: "user_ok {} {} [] u" and l: "case l of None \<Rightarrow> True | Some i \<Rightarrow> i < length (sessions u)"
  shows "settled (user_effect_run sz now l (user_receive parse type buffer l) u)"
proof (cases "user_receive parse type buffer l")
  case (RoomChannelRecv m)
  have pass: "settled (pass_to_session sz m u)"
  proof (cases "find_session (uid m) u")
    case (Some i)
    then have "i < length (sessions u)"
      using ok by (auto simp: find_session_def user_ok_def manager_ok_def dest!: om_find_in_set)
    then show ?thesis using user_ok_session_recv[OF ok, of i sz m] Some
      by (auto simp: pass_to_session_def settled_def)
  qed (simp add: pass_to_session_def settled_def ok)
  show ?thesis using RoomChannelRecv pass user_ok_send_to_waiter[OF ok, of sz now m]
    by (cases m) (auto simp: settled_def ok)
next
  case (SessionRecv i m)
  then show ?thesis using session_of_link(1)[OF SessionRecv] l user_ok_session_recv[OF ok, of i sz m]
    by (auto simp: settled_def)
next
  case (SessionRecvUnknown i)
  then show ?thesis using session_of_link(2)[OF SessionRecvUnknown] l user_ok_enqueue[OF ok, of i]
    by (simp add: settled_def on_recv_unknown_def enqueue_stop_def)
qed (simp_all add: settled_def ok)

lemma user_settled_step:
  assumes "settled u"
  shows "settled (user_step parse sz u e)"
proof -
  consider "crashed u" | "wrapped u" | "user_ok {} {} [] u" "\<not> crashed u" using assms by (auto simp: settled_def)
  then show ?thesis
  proof cases
    case 1
    then show ?thesis by (simp add: settled_def)
  next
    case 2
    then have "wrapped (user_step parse sz u e)"
      using made_mono_step[of u parse sz e] unfolding wrapped_def by linarith
    then show ?thesis by (simp add: settled_def)
  next
    case 3
    then show ?thesis
      by (cases e) (simp_all add: run_session_settled effect_settled, simp_all add: settled_def
          user_ok_conn_created user_ok_conn_closed user_ok_timer)
  qed
qed

interpretation user_server: event_machine user_server_init "user_step parse sz" settled
proof
  show "settled user_server_init"
    by (simp add: settled_def user_ok_def user_server_init_def manager_ok_def registry_defs pending_init_def
        pending_start_def)
qed (rule user_settled_step)

subsection \<open>What jobs leave behind\<close>

text \<open>Running jobs only adds to strands and heap, and never takes a finished job back.\<close>

definition extends :: "user_server \<Rightarrow> user_server \<Rightarrow> bool" where
  "extends u v \<longleftrightarrow>
     (\<forall>k. prefix (strand_of u k) (strand_of v k)) \<and> length (job_heap u) \<le> length (job_heap v) \<and>
     length (sessions u) \<le> length (sessions v) \<and>
     (\<forall>j < length (job_heap u). j_finished (job_heap u ! j) \<longrightarrow> j_finished (job_heap v ! j))"

lemma extends_refl [simp]: "extends u u"
  by (simp add: extends_def)

lemma extends_trans: "extends u v \<Longrightarrow> extends v w \<Longrightarrow> extends u w"
  by (meson extends_def less_le_trans prefix_order.trans order.trans)

lemma extends_same: "strand_of v = strand_of u \<Longrightarrow> job_heap v = job_heap u \<Longrightarrow>
   length (sessions v) = length (sessions u) \<Longrightarrow> extends u v"
  by (simp add: extends_def)

lemma strand_upd_session: "(\<And>s. s_strand (f s) = s_strand s) \<Longrightarrow> strand_of (upd_session i f u) = strand_of u"
  by (simp add: fun_eq_iff observe_upd_session) (simp add: strand_of_def)

lemma extends_ops [simp]:
  "extends u (session_send sz i job m u)" "extends u (set_user i name u)" "extends u (set_enter_room i r u)"
  "extends u (set_leave_room i u)" "extends u (session_stop i b u)" "extends u (add_session i u)"
  "extends u (cancel_request sz q u)" "extends u (u\<lparr>crashed := b\<rparr>)" "extends u (u\<lparr>to_room := ms\<rparr>)"
  "extends u (set_scheduler i x u)" "extends u (upd_session i (\<lambda>s. s\<lparr>s_stop := True\<rparr>) u)"
  by (auto simp: session_send_def set_user_def set_enter_room_def set_leave_room_def session_stop_def
      add_session_def set_scheduler_def Let_def strand_upd_session strand_of_def[of "u\<lparr>crashed := b\<rparr>"]
      intro!: extends_same ext) (simp_all add: strand_of_def)

lemma extends_enqueue [simp]: "extends u (enqueue_job i c u)"
  by (auto simp: extends_def enqueue_job_def post_to_serial_context_def observe_upd_session nth_append)
    (simp add: strand_of_def)

lemma extends_upd_job:
  "(\<And>x. j_finished x \<Longrightarrow> j_finished (f x)) \<Longrightarrow> extends u (upd_job j f u)"
  by (auto simp: extends_def nth_upd_job)

lemma extends_finish: "extends u (fst (job_finish j u))"
  by (auto simp: job_finish_def Let_def intro!: extends_upd_job)

lemma extends_reply: "extends u (fst (reply_and_finish sz j m u))"
  by (auto simp: reply_and_finish_def Let_def intro: extends_trans[OF _ extends_finish])

lemma extends_room_run: "extends u (room_job_run sz now request j t u)"
proof -
  have "strand_of (room_job_run sz now request j t u) = strand_of u"
    by (simp add: room_job_run_eq Let_def and_then_def) (simp add: strand_of_def fun_eq_iff)
  then show ?thesis by (simp add: extends_def room_job_run_eq Let_def and_then_def nth_upd_job)
qed

lemma extends_and_then: "extends u v \<Longrightarrow> (\<And>v. extends v (f v)) \<Longrightarrow> extends u (and_then v f)"
  by (auto simp: and_then_def intro: extends_trans)

lemma extends_cancel: "extends u (fst (job_cancel sz why cl j u))"
proof -
  have "extends u (fst (room_job_cancel sz why m j u))" for m
    by (auto simp: room_job_cancel_def Let_def intro: extends_trans[OF _ extends_reply] extends_trans[OF _ extends_finish])
  then show ?thesis
    by (cases cl) (simp_all add: job_create_room_cancel_def job_join_room_cancel_def job_leave_room_cancel_def)
qed

lemma extends_handle: "extends u (fst (job_handle_res sz cl m j u))"
  by (cases cl; cases m)
    (auto simp: handle_res_create_room_def handle_res_join_room_def handle_res_leave_room_def
      intro: extends_trans[OF _ extends_reply])

lemma extends_exec: "extends u (fst (exec_call sz now i c u))"
proof (cases c)
  case (Run j t)
  then show ?thesis
    by (cases "j_class (job_heap u ! j)")
      (auto simp: completes_def job_login_run_def send_res_login_def job_logout_run_def send_res_logout_def
        job_stop_run_def job_forward_message_run_def send_notification_def job_cli_forward_message_run_def
        job_ntf_leave_room_message_run_def enqueue_stop_def Let_def job_create_room_run_def
        job_join_room_run_def job_leave_room_run_def extends_room_run
        intro!: extends_and_then intro: extends_trans[OF extends_ops(2) extends_ops(6)])
qed (simp add: extends_cancel)

lemma extends_calls: "extends u (run_calls sz now i cs u)"
proof (induction sz now i cs u rule: run_calls.induct)
  case (2 sz now i c cs u)
  obtain u1 r where e: "exec_call sz now i c u = (u1, r)" by fastforce
  then have u1: "extends u u1" using extends_exec[of u sz now i c] by simp
  show ?case
  proof (cases "crashed u \<or> length (sessions u) \<le> i")
    case False
    show ?thesis
    proof (cases r)
      case None
      then show ?thesis using 2(1) e False extends_trans[OF u1] by simp
    next
      case (Some t)
      obtain x cs' where d: "done_callback (s_scheduler (sessions u1 ! i)) t = (x, cs')" by fastforce
      have "extends (set_scheduler i x u1) (run_calls sz now i (cs' @ cs) (set_scheduler i x u1))"
        using 2(2) e Some d False by simp
      then show ?thesis using e Some d False extends_trans[OF u1 extends_trans[OF extends_ops(10)]] by simp
    qed
  qed auto
qed simp

lemma extends_done: "extends u (fst r) \<Longrightarrow> extends u (after_done sz now i r)"
  by (auto simp: after_done_def split: prod.splits option.splits
      intro: extends_trans[OF _ extends_trans[OF extends_ops(10) extends_calls]])

lemma extends_task: "extends u (run_session_task sz now i t u)"
  by (cases t)
    (auto simp: extends_done extends_handle extends_cancel split: prod.splits
      intro: extends_trans[OF extends_ops(10) extends_calls]
        extends_trans[OF extends_ops(11) extends_trans[OF extends_ops(10) extends_calls]])

end
