(* ===== verification/User_Properties.thy ===== *)
theory User_Properties
  imports User_Runs
begin

text \<open>
  What the invariant of the user server means for clients: room requests are answered once,
  none is lost, and each is settled once its deadline has passed; then the effect of a whole
  exchange with the room server, and the behaviours the code has outside of it.
\<close>

declare user_step.simps [simp del]

lemma step_run_session: "user_step parse sz u (RunSession i now) = (if crashed u then u else run_session sz now i u)"
  by (simp add: user_step.simps)

subsection \<open>Draining a strand\<close>

lemma reply_finishes:
  assumes "answering u i j"
  shows "(crashed (fst (reply_and_finish sz j m u)) \<and> snd (reply_and_finish sz j m u) = None) \<or>
    j_finished (job_heap (fst (reply_and_finish sz j m u)) ! j)"
  using assms by (auto simp: reply_and_finish_def job_finish_def Let_def answering_def belongs_def nth_upd_job)

lemma handle_finishes:
  assumes a: "answering u i j" and r: "r = job_handle_res sz (j_class (job_heap u ! j)) m j u"
  shows "(crashed (fst r) \<and> snd r = None) \<or> j_finished (job_heap (fst r) ! j)"
proof -
  have nf: "\<not> j_finished (job_heap u ! j)" "is_room_job (j_class (job_heap u ! j))"
    using a by (simp_all add: answering_def room_job_def)
  note fin = reply_finishes[OF a] reply_finishes[OF answering_session_update(1)[OF a]]
    reply_finishes[OF answering_session_update(2)[OF a]]
  show ?thesis using nf fin unfolding r
    by (cases "j_class (job_heap u ! j)"; cases m)
      (simp_all add: handle_res_create_room_def handle_res_join_room_def handle_res_leave_room_def)
qed

lemma timeout_finishes:
  assumes a: "answering u i j" and r: "r = job_cancel sz kTimeout (j_class (job_heap u ! j)) j u"
  shows "(crashed (fst r) \<and> snd r = None) \<or> j_finished (job_heap (fst r) ! j)"
proof -
  have nf: "\<not> j_finished (job_heap u ! j)" "is_room_job (j_class (job_heap u ! j))"
    using a by (simp_all add: answering_def room_job_def)
  show ?thesis using nf reply_finishes[OF a] cancel_request_none[OF answering_no_entry[OF a], of sz] unfolding r
    by (cases "j_class (job_heap u ! j)")
      (simp_all add: job_create_room_cancel_def job_join_room_cancel_def job_leave_room_cancel_def
        room_job_cancel_def Let_def)
qed

lemma done_finishes:
  assumes "(crashed (fst r) \<and> snd r = None) \<or> j_finished (job_heap (fst r) ! j)" and "j < length (job_heap (fst r))"
  shows "crashed (after_done sz now i r) \<or> j_finished (job_heap (after_done sz now i r) ! j)"
proof (cases "j_finished (job_heap (fst r) ! j)")
  case True
  then show ?thesis using extends_done[OF extends_refl, of r sz now i] assms(2) by (simp add: extends_def)
next
  case False
  then show ?thesis using assms(1) by (cases r) (auto simp: after_done_def)
qed

lemma run_session_task_eq:
  "i < length (sessions u) \<Longrightarrow> strand_of u i = t # ts \<Longrightarrow>
   run_session sz now i u = run_session_task sz now i t (pop_strand i ts u)"
  by (simp add: run_session_def strand_of_def pop_strand_def)

lemma token_finishes:
  assumes ok: "user_ok {} {} [] u" and i: "i < length (sessions u)" and st: "strand_of u i = t # ts"
    and t: "token_of t = [j]"
  shows "crashed (run_session sz now i u) \<or> j_finished (job_heap (run_session sz now i u) ! j)"
proof -
  let ?v = "pop_strand i ts u"
  have pt: "pushed_of t = []" using t by (cases t) simp_all
  have "session_ok False u i" using ok i by (simp add: user_ok_def)
  then have jl: "j < length (job_heap u)" using st t by (simp add: session_ok_def belongs_def)
  show ?thesis
  proof (cases "j_finished (job_heap u ! j)")
    case True
    then show ?thesis using extends_task[of ?v sz now i t] jl
      by (simp add: run_session_task_eq[OF i st] extends_def)
  next
    case False
    then have a: "answering ?v i j" using token_popped[OF ok i st t pt] by simp
    have ext: "j < length (job_heap (fst r))" if "extends ?v (fst r)" for r :: "user_server \<times> nat option"
      using that jl by (simp add: extends_def)
    show ?thesis
    proof (cases t)
      case (HandleRes j' m)
      then show ?thesis using t done_finishes[OF handle_finishes[OF a refl] ext[OF extends_handle]]
        by (simp add: run_session_task_eq[OF i st])
    next
      case (TimeoutCancel j')
      then show ?thesis using t done_finishes[OF timeout_finishes[OF a refl] ext[OF extends_cancel]]
        by (simp add: run_session_task_eq[OF i st])
    qed (use t in simp_all)
  qed
qed

lemma extends_run_session:
  assumes "i < length (sessions u)" and "strand_of u i = t # ts"
  shows "extends (pop_strand i ts u) (run_session sz now i u)"
  using extends_task by (simp add: run_session_task_eq[OF assms])

text \<open>The events that run the strand of a session \<open>n\<close> times.\<close>

definition drain_session :: "nat \<Rightarrow> time_point \<Rightarrow> nat \<Rightarrow> user_event list" where
  "drain_session i now n = replicate n (RunSession i now)"

lemma finished_drain:
  assumes "j < length (job_heap u)" and "j_finished (job_heap u ! j)"
  shows "j_finished (job_heap (run_events (user_step parse sz) u (drain_session i now n)) ! j)"
  using assms
proof (induction n arbitrary: u)
  case (Suc n)
  let ?u1 = "user_step parse sz u (RunSession i now)"
  have "j < length (job_heap ?u1) \<and> j_finished (job_heap ?u1 ! j)"
  proof (cases "i < length (sessions u) \<and> strand_of u i \<noteq> [] \<and> \<not> crashed u")
    case True
    then obtain t ts where "strand_of u i = t # ts" by (cases "strand_of u i") auto
    then show ?thesis using extends_run_session[of i u t ts sz now] True Suc.prems by (auto simp: step_run_session extends_def)
  next
    case False
    then have "?u1 = u" by (auto simp: step_run_session run_session_def strand_of_def)
    then show ?thesis using Suc.prems by simp
  qed
  then show ?case using Suc.IH[of ?u1] by (simp add: drain_session_def)
qed (simp add: drain_session_def)

lemma stuck_drain:
  assumes "crashed u \<or> wrapped u"
  shows "let v = run_events (user_step parse sz) u es in crashed v \<or> wrapped v"
  using assms
proof (induction es arbitrary: u)
  case (Cons e es)
  have "crashed (user_step parse sz u e) \<or> wrapped (user_step parse sz u e)"
    using Cons.prems made_mono_step[of u parse sz e] by (auto simp: wrapped_def user_step.simps)
  then show ?case using Cons.IH by (simp)
qed simp

lemma drain_finishes:
  assumes "settled u" and "i < length (sessions u)" and "j \<in> set (token_jobs (take n (strand_of u i)))"
  shows "let v = run_events (user_step parse sz) u (drain_session i now n) in
    crashed v \<or> wrapped v \<or> j_finished (job_heap v ! j)"
  using assms
proof (induction n arbitrary: u)
  case (Suc n)
  let ?u1 = "user_step parse sz u (RunSession i now)"
  have rest: "run_events (user_step parse sz) u (drain_session i now (Suc n)) =
      run_events (user_step parse sz) ?u1 (drain_session i now n)"
    by (simp add: drain_session_def)
  show ?case
  proof (cases "crashed u \<or> wrapped u")
    case True
    then show ?thesis using stuck_drain[of u parse sz "drain_session i now (Suc n)"] by (auto simp: Let_def)
  next
    case False
    then have ok: "user_ok {} {} [] u" using Suc.prems(1) by (simp add: settled_def)
    obtain t ts where st: "strand_of u i = t # ts" using Suc.prems(3) by (cases "strand_of u i") auto
    have u1: "?u1 = run_session sz now i u" using False by (simp add: step_run_session)
    show ?thesis
    proof (cases "token_of t = [j]")
      case True
      then have fin: "crashed ?u1 \<or> j_finished (job_heap ?u1 ! j)"
        using token_finishes[OF ok Suc.prems(2) st] u1 by simp
      have "session_ok False u i" using ok Suc.prems(2) by (simp add: user_ok_def)
      then have "j < length (job_heap u)" using st True by (simp add: session_ok_def belongs_def)
      then have "j < length (job_heap ?u1)"
        using extends_run_session[OF Suc.prems(2) st, of sz now] u1 by (simp add: extends_def)
      with fin show ?thesis
        using finished_drain[of j ?u1 parse sz i now n] stuck_drain[of ?u1 parse sz "drain_session i now n"]
        unfolding rest by (auto simp: Let_def)
    next
      case False
      have "prefix (strand_of (pop_strand i ts u) i) (strand_of ?u1 i)"
        using extends_run_session[OF Suc.prems(2) st, of sz now] u1 by (simp only: extends_def)
      then have "prefix ts (strand_of ?u1 i)" using Suc.prems(2) by (simp add: observe_pop_strand)
      then obtain zs where "strand_of ?u1 i = ts @ zs" by (auto simp: prefix_def)
      then have "j \<in> set (token_jobs (take n (strand_of ?u1 i)))"
        using Suc.prems(3) st False by (cases t) auto
      moreover have "i < length (sessions ?u1)"
        using extends_run_session[OF Suc.prems(2) st, of sz now] u1 Suc.prems(2) by (simp add: extends_def)
      ultimately show ?thesis
        using Suc.IH[of ?u1] user_settled_step[OF Suc.prems(1), of parse sz "RunSession i now"] unfolding rest by simp
    qed
  qed
qed simp

subsection \<open>The session manager\<close>

















lemma running_owner:
  assumes ok: "user_ok {} {} [] u" and i: "i < length (sessions u)" and j: "jobs (sched_of u i) = j # rest"
  shows "j_session (job_heap u ! j) = i \<and> is_room_job (j_class (job_heap u ! j)) \<and> \<not> j_finished (job_heap u ! j) \<and>
    count_list (waiting_jobs u @ token_jobs (strand_of u i)) j = 1"
proof -
  have "session_ok False u i" using ok i by (simp add: user_ok_def)
  then have b: "belongs u i j" "room_job u j" "j \<notin> set (rest @ pushed_jobs (strand_of u i))"
    using j by (auto simp: session_ok_def)
  then have "job_ok {} [] u j" using ok by (simp add: user_ok_def belongs_def)
  then show ?thesis using b j
    by (auto simp: job_ok_def job_ok_at_def phase_ok_def Let_def fresh_jobs_def belongs_def room_job_def split: if_splits)
qed

subsection \<open>The timer\<close>

lemma handler_fields:
  "length (sessions (run_handler sz c u)) = length (sessions u)"
  "sched_of (run_handler sz c u) = sched_of u"
  "requests_made (run_handler sz c u) = requests_made u"
  "crashed (run_handler sz c u) = crashed u"
  "waiting (run_handler sz c u) = waiting u"
proof -
  have n: "sessions (send_cancel sz q v) = sessions v" "requests_made (send_cancel sz q v) = requests_made v"
    "crashed (send_cancel sz q v) = crashed v" "waiting (send_cancel sz q v) = waiting v" for sz q v
    by (simp_all add: send_cancel_def send_notification_def)
  have p: "sched_of (upd_session i (\<lambda>s. s\<lparr>s_strand := s_strand s @ [t]\<rparr>) v) = sched_of v" for i t v
    by (simp add: fun_eq_iff observe_upd_session) (simp add: sched_of_def)
  have q: "sched_of (send_cancel sz q v) = sched_of v" for sz q v
    by (simp add: sched_of_def n fun_eq_iff)
  show "length (sessions (run_handler sz c u)) = length (sessions u)"
    "sched_of (run_handler sz c u) = sched_of u"
    "requests_made (run_handler sz c u) = requests_made u"
    "crashed (run_handler sz c u) = crashed u"
    "waiting (run_handler sz c u) = waiting u"
    by (induction sz c u rule: run_handler.induct) (simp_all add: p q n post_to_serial_context_def)
qed

lemma handlers_fields:
  "length (sessions (fold (run_handler sz) cs u)) = length (sessions u)"
  "sched_of (fold (run_handler sz) cs u) = sched_of u"
  "requests_made (fold (run_handler sz) cs u) = requests_made u"
  "crashed (fold (run_handler sz) cs u) = crashed u"
  "waiting (fold (run_handler sz) cs u) = waiting u"
  by (induction cs arbitrary: u) (simp_all add: handler_fields)

lemma timer_fields:
  "length (sessions (room_channel_timer sz now u)) = length (sessions u)"
  "sched_of (room_channel_timer sz now u) i = sched_of u i"
  "requests_made (room_channel_timer sz now u) = requests_made u"
  "crashed (room_channel_timer sz now u) = crashed u"
  by (simp_all add: room_channel_timer_def handlers_fields split: prod.splits)

lemma waiting_after_tick:
  assumes "\<forall>(q, r) \<in> set (requests (waiting u)). deadline r \<le> now" and "timer_running (waiting u)"
  shows "waiting_jobs (room_channel_timer sz now u) = []"
proof -
  have "filter (\<lambda>(q, r). now < deadline r) (requests (waiting u)) = []"
    using assms(1) by (fastforce simp: filter_empty_conv)
  then show ?thesis using assms(2)
    by (simp add: waiting_jobs_def room_channel_timer_def timer_tick_def pending_expire_def expire_loop_filter handlers_fields)
qed

subsection \<open>Properties\<close>


text \<open>C3. A client's create, join or leave request is answered at most once: not before its job
  is finished, and exactly once when it is, unless the session was shut down first. This
  holds in every run that did not crash, as long as the 64-bit request ids have not
  wrapped around.\<close>

theorem room_requests_answered_once:
  assumes "u = run_events (user_step parse sz) user_server_init es"
    and "\<not> crashed u" and "requests_made u < 2 ^ 64 - 1"
    and "j < length (job_heap u)" and "is_room_job (j_class (job_heap u ! j))"
  shows "let i = j_session (job_heap u ! j); answers = count_list (answered_of u i) j in
    i < length (sessions u) \<and> answers \<le> 1 \<and> (\<not> j_finished (job_heap u ! j) \<longrightarrow> answers = 0) \<and>
    (j_finished (job_heap u ! j) \<and> \<not> stopped (sched_of u i) \<longrightarrow> answers = 1)"
proof -
  have "user_ok {} {} [] u" using user_server.ok_run[of parse sz es] assms by (simp add: settled_def wrapped_def)
  then have "j_session (job_heap u ! j) < length (sessions u) \<and> job_ok {} [] u j"
    using assms(4,5) by (simp add: user_ok_def room_job_def)
  then show ?thesis by (auto simp: job_ok_def job_ok_at_def phase_ok_def Let_def split: if_splits)
qed

text \<open>C25. No room request is lost: the job a session's scheduler is running is a room request
  that is not finished, and exactly one thing will end it, either its entry in the registry of
  the room channel or a task already queued on the strand of its session.\<close>

theorem running_request_has_owner:
  assumes "u = run_events (user_step parse sz) user_server_init es"
    and "\<not> crashed u" and "requests_made u < 2 ^ 64 - 1"
    and "i < length (sessions u)" and "jobs (sched_of u i) = j # rest"
  shows "j_session (job_heap u ! j) = i \<and> is_room_job (j_class (job_heap u ! j)) \<and> \<not> j_finished (job_heap u ! j) \<and>
    count_list (waiting_jobs u @ token_jobs (strand_of u i)) j = 1"
  using running_owner[of u i j rest] user_server.ok_run[of parse sz es] assms by (simp add: settled_def wrapped_def)

text \<open>C4. Room requests are settled in bounded time: once the timer has fired past all
  deadlines, running the tasks the session's strand holds by then finishes the request the
  session is waiting for, unless the process fails or its request ids wrap around meanwhile.\<close>

theorem room_request_settles:
  assumes "u = run_events (user_step parse sz) user_server_init es"
    and "\<not> crashed u" and "requests_made u < 2 ^ 64 - 1"
    and "i < length (sessions u)" and "jobs (sched_of u i) = j # rest"
    and "\<forall>(q, r) \<in> set (requests (waiting u)). deadline r \<le> now"
    and "u1 = user_step parse sz u (TimerTick now)"
    and "u2 = run_events (user_step parse sz) u1 (drain_session i now (length (strand_of u1 i)))"
  shows "crashed u2 \<or> 2 ^ 64 - 1 \<le> requests_made u2 \<or> j_finished (job_heap u2 ! j)"
proof -
  have u1: "u1 = run_events (user_step parse sz) user_server_init (es @ [TimerTick now])"
    using assms(1,7) by simp
  have st: "settled u" "settled u1"
    using user_server.ok_run[of parse sz es] user_server.ok_run[of parse sz "es @ [TimerTick now]"] assms(1) u1 by simp_all
  have ok: "user_ok {} {} [] u" using st(1) assms by (simp add: settled_def wrapped_def)
  have t: "u1 = room_channel_timer sz now u" using assms(2,7) by (simp add: user_step.simps)
  have "timer_running (waiting u)" using ok by (simp add: user_ok_def registry_ok_def)
  then have w: "waiting_jobs u1 = []" using waiting_after_tick[OF assms(6)] t by simp
  have same: "length (sessions u1) = length (sessions u)" "sched_of u1 i = sched_of u i"
    "requests_made u1 = requests_made u" "crashed u1 = crashed u"
    by (simp_all add: t timer_fields)
  then have "user_ok {} {} [] u1" using st(2) assms(2,3) by (simp add: settled_def wrapped_def)
  then have "count_list (waiting_jobs u1 @ token_jobs (strand_of u1 i)) j = 1"
    using running_owner[of u1 i j rest] same assms(4,5) by simp
  then have "j \<in> set (token_jobs (strand_of u1 i))" using w by (metis append_Nil count_notin zero_neq_one)
  then show ?thesis
    using drain_finishes[OF st(2), of i j "length (strand_of u1 i)" parse sz now] assms(4,8) same
    by (simp add: Let_def wrapped_def)
qed

subsection \<open>Sample runs\<close>

lemma receive_eval:
  "user_receive parse (message_type kReqLogin) b (Some i) =
     (if fst (parse kReqLogin b) then SessionRecv i (snd (parse kReqLogin b)) else ParseFailed)"
  "user_receive parse (message_type kReqCreateRoom) b (Some i) =
     (if fst (parse kReqCreateRoom b) then SessionRecv i (snd (parse kReqCreateRoom b)) else ParseFailed)"
  "user_receive parse (message_type kFwdRoom) b (Some i) =
     (if fst (parse kFwdRoom b) then SessionRecv i (snd (parse kFwdRoom b)) else ParseFailed)"
  "user_receive parse (message_type kUser2RoomResCreateRoom) b l = RoomChannelRecv (snd (parse kUser2RoomResCreateRoom b))"
  "user_receive parse (message_type kUser2RoomResJoinRoom) b l = RoomChannelRecv (snd (parse kUser2RoomResJoinRoom b))"
  by (simp_all add: user_receive_def user_dispatcher_def session_dispatcher_def room_channel_dispatcher_def
      dispatch_register_unknown dispatcher_init_def register_handler_def om_find_set om_find_Nil om_find_Cons
      deserialize_def split: prod.splits)

lemmas user_eval = receive_eval user_step.simps user_server_init_def on_conn_created_def add_session_conn_def
  session_new_def job_scheduler_init_def enqueue_job_def job_new_def post_to_serial_context_def upd_session_def
  upd_job_def run_session_def push_and_run_def scheduler_run_def done_callback_def complete_current_def
  scheduler_shutdown_def set_scheduler_def completes_def job_login_run_def send_res_login_def session_send_def
  and_then_def set_user_def add_session_def job_create_room_run_def room_job_run_def send_request_def
  send_notification_def pending_add_def pending_init_def pending_start_def request_timeout_def
  kMaxPayloadSize_def om_emplace_def om_find_Nil om_find_Cons room_channel_timer_def timer_tick_def
  pending_expire_def send_cancel_def after_done_def job_create_room_cancel_def create_room_timeout_response_def
  room_job_cancel_def cancel_request_def pending_cancel_def pending_take_def reply_and_finish_def
  job_finish_def handle_res_create_room_def set_enter_room_def send_to_waiter_def pending_complete_def
  om_erase_def drain_session_def on_conn_closed_def remove_session_def on_disconnected_def
  handle_res_join_room_def

text \<open>One exchange with the room server, on a session with nothing to do.\<close>

definition idle_session :: "user_server \<Rightarrow> nat \<Rightarrow> bool" where
  "idle_session u i \<longleftrightarrow>
     i < length (sessions u) \<and> strand_of u i = [] \<and> jobs (sched_of u i) = [] \<and> \<not> stopped (sched_of u i)"

definition create_requested :: "64 word \<Rightarrow> nat \<Rightarrow> time_point \<Rightarrow> user_server \<Rightarrow> user_server" where
  "create_requested req i now u =
     (let q = next_request_id u; j = length (job_heap u); x = sched_of u i in
      u\<lparr>sessions := (sessions u)[i := (sessions u ! i)
          \<lparr>s_scheduler := x\<lparr>jobs := [j], running := True, completed := completed x @ [False]\<rparr>\<rparr>],
        job_heap := job_heap u @ [\<lparr>j_class = Job_create_room (ReqCreateRoom req), j_session = i,
          j_done = Some (length (completed x)), j_room_request_id = q, j_finished = False\<rparr>],
        next_request_id := q + 1, requests_made := Suc (requests_made u),
        waiting := pending_add q j (q, j) (now + request_timeout) (waiting u),
        to_room := to_room u @ [User2RoomReqCreateRoom q (s_uid (sessions u ! i))]\<rparr>)"

lemma session_cong: "s_strand s = ts \<Longrightarrow> s\<lparr>s_strand := ts\<rparr> = s"
  by (cases s) simp

lemma create_request_run:
  assumes ok: "user_ok {} {} [] u" and idle: "idle_session u i" and c: "\<not> crashed u"
    and fits: "sz (User2RoomReqCreateRoom (next_request_id u) (s_uid (sessions u ! i))) \<le> kMaxPayloadSize" and parse: "parse kReqCreateRoom b = (True, ReqCreateRoom req)"
  shows "run_events (user_step parse sz) u [Receive (message_type kReqCreateRoom) b (Some i) now, RunSession i now] =
    create_requested req i now u"
proof -
  let ?s = "sessions u ! i"
  have i: "i < length (sessions u)" and st: "s_strand ?s = []" and jb: "jobs (s_scheduler ?s) = []"
    and ns: "\<not> stopped (s_scheduler ?s)"
    using idle by (simp_all add: idle_session_def observers)
  have "sched_ok (s_scheduler ?s)" using ok i by (simp add: user_ok_def session_ok_def sched_of_def)
  then have nr: "\<not> running (s_scheduler ?s)" using jb ns by (simp add: sched_ok_def)
  note fit = fits[unfolded not_less[symmetric]]
  have job: "Receive (message_type kReqCreateRoom) b (Some i) now = e \<Longrightarrow> user_step parse sz u e = enqueue_job i (Job_create_room (ReqCreateRoom req)) u" for e
    using c i parse by (auto simp: user_step.simps receive_eval simp del: message_type.simps)
  show ?thesis
    using i st jb ns nr fit c
    by (simp add: job[OF refl] step_run_session enqueue_job_def job_new_def post_to_serial_context_def upd_session_def
        upd_job_def run_session_def push_and_run_def scheduler_run_def set_scheduler_def job_create_room_run_def
        room_job_run_def send_request_def send_notification_def and_then_def create_requested_def Let_def sched_of_def
        session_cong del: message_type.simps)
qed

lemma forward_run:
  assumes ok: "user_ok {} {} [] u" and idle: "idle_session u i" and c: "\<not> crashed u"
    and fits: "sz (User2RoomFwdRoom 0 (s_uid (sessions u ! i)) t) \<le> kMaxPayloadSize" and parse: "parse kFwdRoom b = (True, FwdRoom t)"
  shows "let u' = run_events (user_step parse sz) u [Receive (message_type kFwdRoom) b (Some i) now, RunSession i now] in
    to_room u' = to_room u @ [User2RoomFwdRoom 0 (s_uid (sessions u ! i)) t] \<and> \<not> crashed u' \<and> idle_session u' i"
proof -
  let ?s = "sessions u ! i"
  have i: "i < length (sessions u)" and st: "s_strand ?s = []" and jb: "jobs (s_scheduler ?s) = []"
    and ns: "\<not> stopped (s_scheduler ?s)"
    using idle by (simp_all add: idle_session_def observers)
  have "sched_ok (s_scheduler ?s)" using ok i by (simp add: user_ok_def session_ok_def sched_of_def)
  then have nr: "\<not> running (s_scheduler ?s)" using jb ns by (simp add: sched_ok_def)
  note fit = fits[unfolded not_less[symmetric]]
  have job: "Receive (message_type kFwdRoom) b (Some i) now = e \<Longrightarrow>
      user_step parse sz u e = enqueue_job i (Job_forward_message (FwdRoom t)) u" for e
    using c i parse by (auto simp: user_step.simps receive_eval simp del: message_type.simps)
  show ?thesis
    using i st jb ns nr fit c
    by (simp add: job[OF refl] step_run_session enqueue_job_def job_new_def post_to_serial_context_def upd_session_def
        upd_job_def run_session_def push_and_run_def scheduler_run_def set_scheduler_def job_forward_message_run_def
        completes_def send_notification_def done_callback_def complete_current_def Let_def idle_session_def observers
        del: message_type.simps)
qed

definition create_answered :: "64 word \<Rightarrow> nat \<Rightarrow> bool \<Rightarrow> RoomId \<Rightarrow> user_server \<Rightarrow> user_server" where
  "create_answered req i ok r u =
     (let q = next_request_id u; j = length (job_heap u); x = sched_of u i in
      u\<lparr>sessions := (sessions u)[i := (sessions u ! i)
          \<lparr>s_room_id := r, s_out := s_out (sessions u ! i) @ [LinkSend (Some j) (ResCreateRoom req ok r)],
            s_scheduler := x\<lparr>completed := completed x @ [True], jobs := [], running := False\<rparr>\<rparr>],
        job_heap := job_heap u @ [\<lparr>j_class = Job_create_room (ReqCreateRoom req), j_session = i,
          j_done = None, j_room_request_id = q, j_finished = True\<rparr>],
        next_request_id := q + 1, requests_made := Suc (requests_made u),
        to_room := to_room u @ [User2RoomReqCreateRoom q (s_uid (sessions u ! i))]\<rparr>)"

lemma om_erase_emplace: "om_find m k = None \<Longrightarrow> om_erase k (om_emplace k v m) = m"
proof -
  have "om_find m k = None \<Longrightarrow> om_erase k (om_set k v m) = m" for v
  proof (induction k v m rule: om_set.induct)
    case (2 k v k' v' m)
    then have "filter (\<lambda>(k', _). k' \<noteq> k) m = m"
      by (force simp: om_find_None_iff om_find_Cons filter_id_conv split: if_splits)
    then show ?case using 2 by (auto simp: om_erase_def om_find_Cons split: if_splits)
  qed (simp add: om_erase_def)
  then show "om_find m k = None \<Longrightarrow> om_erase k (om_emplace k v m) = m" by (simp add: om_emplace_def)
qed

lemma create_response_run:
  assumes idle: "idle_session u i" and c: "\<not> crashed u"
    and fits: "sz (ResCreateRoom req ok r) \<le> kMaxPayloadSize" and now: "now' < now + request_timeout"
    and parse: "snd (parse kUser2RoomResCreateRoom b) = User2RoomResCreateRoom (next_request_id u) n ok r"
    and fresh: "om_find (requests (waiting u)) (next_request_id u) = None"
  shows "run_events (user_step parse sz) (create_requested req i now u)
      [Receive (message_type kUser2RoomResCreateRoom) b None now', RunSession i now'] =
    create_answered req i ok r u"
proof -
  let ?s = "sessions u ! i" and ?q = "next_request_id u"
  have i: "i < length (sessions u)" and st: "s_strand ?s = []" and jb: "jobs (s_scheduler ?s) = []"
    and ns: "\<not> stopped (s_scheduler ?s)"
    using idle by (simp_all add: idle_session_def observers)
  note fit = fits[unfolded not_less[symmetric]]
  define u1 where "u1 = create_requested req i now u"
  have f: "om_find (requests (waiting u1)) ?q =
      Some \<lparr>deadline = now + request_timeout, on_response = length (job_heap u), on_timeout = (?q, length (job_heap u))\<rparr>"
    using fresh by (simp add: u1_def create_requested_def Let_def pending_add_def om_find_emplace)
  have w: "(waiting u1)\<lparr>requests := om_erase ?q (requests (waiting u1))\<rparr> = waiting u"
    by (simp add: u1_def create_requested_def Let_def pending_add_def om_erase_emplace[OF fresh])
  have recv: "user_step parse sz u1 (Receive (message_type kUser2RoomResCreateRoom) b None now') =
      post_to_serial_context i (HandleRes (length (job_heap u)) (User2RoomResCreateRoom ?q n ok r)) (u1\<lparr>waiting := waiting u\<rparr>)"
  proof -
    have c1: "\<not> crashed u1" and jl: "job_heap u1 ! length (job_heap u) =
        \<lparr>j_class = Job_create_room (ReqCreateRoom req), j_session = i, j_done = Some (length (completed (sched_of u i))),
          j_room_request_id = ?q, j_finished = False\<rparr>"
      using c by (simp_all add: u1_def create_requested_def Let_def)
    show ?thesis using c1 jl parse f now w
      by (simp add: user_step.simps receive_eval send_to_waiter_def pending_complete_def pending_take_def Let_def
          del: message_type.simps)
  qed
  show ?thesis unfolding u1_def[symmetric] run_events_simps recv
    using i st jb ns fit c
    by (cases u, simp add: step_run_session post_to_serial_context_def upd_session_def upd_job_def run_session_def
        set_scheduler_def after_done_def handle_res_create_room_def set_enter_room_def reply_and_finish_def
        session_send_def job_finish_def done_callback_def complete_current_def u1_def create_requested_def
        create_answered_def Let_def sched_of_def session_cong del: message_type.simps)
qed

text \<open>A client that logs in and asks for a room; an empty buffer parses to one of these.\<close>

definition sample_parse :: "message_kind \<Rightarrow> raw_buffer \<Rightarrow> bool \<times> message" where
  "sample_parse k b =
     (True, case k of kReqLogin \<Rightarrow> ReqLogin 1 (if b = [] then ''ann'' else ''bob'') | kReqCreateRoom \<Rightarrow> ReqCreateRoom 7
        | kUser2RoomResCreateRoom \<Rightarrow> User2RoomResCreateRoom 1 [] True 12345
        | kUser2RoomResJoinRoom \<Rightarrow> User2RoomResJoinRoom 1 ''ann'' 42 True
        | kFwdRoom \<Rightarrow> FwdRoom ''kickout:bob'' | _ \<Rightarrow> Ping)"

definition sample_login :: "user_event list" where
  "sample_login = [ConnCreated 3, Receive (message_type kReqLogin) [] (Some 0) 0, RunSession 0 0]"

definition sample_request :: "user_event list" where
  "sample_request = sample_login @ [Receive (message_type kReqCreateRoom) [] (Some 0) 1, RunSession 0 1]"

definition logged_in_state :: user_server where
  "logged_in_state =
     \<lparr>sessions =
        [\<lparr>s_conn = 3, s_strand = [],
          s_scheduler = \<lparr>jobs = [], running = False, stopped = False, completed = [True]\<rparr>,
          s_state = kLogouted, s_uid = ''ann'', s_stop = False, s_room_id = 0,
          s_out = [LinkSend (Some 0) (ResLogin 0 ''ann'' True False 0)]\<rparr>],
      job_heap =
        [\<lparr>j_class = Job_login (ReqLogin 1 ''ann''), j_session = 0, j_done = None, j_room_request_id = 0, j_finished = False\<rparr>],
      by_conn = [(3, 0)], by_uid = [(''ann'', 0)], waiting = \<lparr>requests = [], timer_running = True\<rparr>,
      next_request_id = 1, requests_made = 0, to_room = [], crashed = False\<rparr>"

definition waiting_state :: user_server where
  "waiting_state =
     \<lparr>sessions =
        [\<lparr>s_conn = 3, s_strand = [],
          s_scheduler = \<lparr>jobs = [1], running = True, stopped = False, completed = [True, False]\<rparr>,
          s_state = kLogouted, s_uid = ''ann'', s_stop = False, s_room_id = 0,
          s_out = [LinkSend (Some 0) (ResLogin 0 ''ann'' True False 0)]\<rparr>],
      job_heap =
        [\<lparr>j_class = Job_login (ReqLogin 1 ''ann''), j_session = 0, j_done = None, j_room_request_id = 0, j_finished = False\<rparr>,
         \<lparr>j_class = Job_create_room (ReqCreateRoom 7), j_session = 0, j_done = Some 1, j_room_request_id = 1, j_finished = False\<rparr>],
      by_conn = [(3, 0)], by_uid = [(''ann'', 0)],
      waiting = \<lparr>requests = [(1, \<lparr>deadline = 5000000001, on_response = 1, on_timeout = (1, 1)\<rparr>)], timer_running = True\<rparr>,
      next_request_id = 2, requests_made = 1, to_room = [User2RoomReqCreateRoom 1 ''ann''], crashed = False\<rparr>"

lemma logged_in_run: "run_events (user_step sample_parse (\<lambda>_. 9)) user_server_init sample_login = logged_in_state"
  by (simp add: user_eval sample_parse_def sample_login_def logged_in_state_def del: message_type.simps)

lemma waiting_run: "run_events (user_step sample_parse (\<lambda>_. 9)) user_server_init sample_request = waiting_state"
  unfolding sample_request_def run_events_simps(3) logged_in_run
  by (simp add: user_eval sample_parse_def logged_in_state_def waiting_state_def del: message_type.simps)


theorem room_requests_answered_once_witness:
  "count_list (answered_of (run_events (user_step sample_parse (\<lambda>_. 9)) user_server_init sample_request) 0) 1 \<le> 1"
  using room_requests_answered_once[OF refl, where parse = sample_parse and sz = "\<lambda>_. 9" and es = sample_request and j = 1]
  unfolding waiting_run by (simp add: waiting_state_def Let_def)

theorem running_request_has_owner_witness:
  "let u = run_events (user_step sample_parse (\<lambda>_. 9)) user_server_init sample_request in
     \<not> j_finished (job_heap u ! 1) \<and> count_list (waiting_jobs u @ token_jobs (strand_of u 0)) 1 = 1"
  using running_request_has_owner[OF refl, where parse = sample_parse and sz = "\<lambda>_. 9" and es = sample_request and i = 0 and j = 1 and rest = "[]"]
  unfolding waiting_run by (simp add: waiting_state_def sched_of_def)

theorem room_request_settles_witness:
  "let u1 = user_step sample_parse (\<lambda>_. 9) waiting_state (TimerTick 6000000000);
       u2 = run_events (user_step sample_parse (\<lambda>_. 9)) u1 (drain_session 0 6000000000 (length (strand_of u1 0)))
   in crashed u2 \<or> 2 ^ 64 - 1 \<le> requests_made u2 \<or> j_finished (job_heap u2 ! 1)"
  unfolding Let_def
  by (rule room_request_settles[OF waiting_run[symmetric], of 0 1 "[]"])
    (simp_all add: waiting_state_def sched_of_def)

subsection \<open>Behaviour outside of the properties\<close>

text \<open>A response of the wrong type for an outstanding request ends the process: the job casts
  it with \<open>dynamic_pointer_cast\<close> and dereferences the null result. The shared dispatcher lets
  any client send one.\<close>

theorem forged_response_crashes:
  "crashed (run_events (user_step sample_parse (\<lambda>_. 9)) waiting_state
     [Receive (message_type kUser2RoomResJoinRoom) [] (Some 0) 2, RunSession 0 2])"
  by (simp add: user_eval sample_parse_def waiting_state_def del: message_type.simps)

text \<open>A second login under another name leaves the first name filed, and the entry survives
  the session: messages for the first name go to a session whose connection is gone.\<close>

theorem relogin_leaves_stale_entry:
  "let u = run_events (user_step sample_parse (\<lambda>_. 9)) logged_in_state
         [Receive (message_type kReqLogin) [1] (Some 0) 1, RunSession 0 1, ConnClosed 3]
   in find_session ''ann'' u = Some 0 \<and> find_session ''bob'' u = None \<and> by_conn u = []"
  by (simp add: user_eval sample_parse_def logged_in_state_def find_session_def Let_def del: message_type.simps)

text \<open>A login that is still queued when the connection closes files the removed session
  again; nothing removes it afterwards.\<close>

theorem login_after_close_refiles:
  "let u = run_events (user_step sample_parse (\<lambda>_. 9)) user_server_init
         [ConnCreated 3, Receive (message_type kReqLogin) [] (Some 0) 0, ConnClosed 3, RunSession 0 0, RunSession 0 0]
   in by_conn u = [(3, 0)] \<and> find_session ''ann'' u = Some 0 \<and> s_stop (sessions u ! 0)"
  by (simp add: user_eval sample_parse_def find_session_def Let_def del: message_type.simps)

end
