(* ===== verification/Queued_Requests.thy ===== *)
theory Queued_Requests
  imports Ordered_Map
begin

text \<open>
  The admission registry of queued room requests (\<open>message/queued_requests.hpp\<close>). A
  ticket is a shared object whose state leaves \<open>kQueued\<close> at most once, so the object is
  an index into a list of states. Active requests and the terminal records that suppress
  duplicates are ordered maps over the keys \<open>(routing id, request id)\<close>.
\<close>

type_synonym req_key = "string \<times> 64 word"

datatype ticket_state = kQueued | kStarted | kCancelled

record queued_requests =
  capacity :: nat
  retention :: time_point
  active :: "(req_key, nat) omap"
  terminal :: "(req_key, time_point) omap"
  tickets :: "ticket_state list"

definition queued_init :: "nat \<Rightarrow> time_point \<Rightarrow> queued_requests" where
  "queued_init cap ret = \<lparr>capacity = cap, retention = ret, active = [], terminal = [], tickets = []\<rparr>"

subsection \<open>Tickets\<close>

text \<open>\<open>compare_exchange_strong(expected = kQueued, desired)\<close> on one ticket.\<close>

definition ticket_cas :: "ticket_state \<Rightarrow> nat \<Rightarrow> queued_requests \<Rightarrow> bool \<times> queued_requests" where
  "ticket_cas desired t q =
     (if tickets q ! t = kQueued then (True, q\<lparr>tickets := (tickets q)[t := desired]\<rparr>) else (False, q))"

definition try_start :: "nat \<Rightarrow> queued_requests \<Rightarrow> bool \<times> queued_requests" where
  "try_start t q = ticket_cas kStarted t q"

definition ticket_started :: "nat \<Rightarrow> queued_requests \<Rightarrow> bool" where
  "ticket_started t q \<longleftrightarrow> tickets q ! t = kStarted"

definition ticket_cancel :: "nat \<Rightarrow> queued_requests \<Rightarrow> queued_requests" where
  "ticket_cancel t q = snd (ticket_cas kCancelled t q)"

subsection \<open>The registry\<close>

definition prune :: "time_point \<Rightarrow> queued_requests \<Rightarrow> queued_requests" where
  "prune now q = q\<lparr>terminal := om_erase_if (\<lambda>_ e. now \<ge> e) (terminal q)\<rparr>"

text \<open>\<open>std::min_element\<close> by expiry: the first of the smallest, in key order.\<close>

fun min_element_loop :: "('k \<times> time_point) \<Rightarrow> ('k, time_point) omap \<Rightarrow> 'k \<times> time_point" where
  "min_element_loop best [] = best"
| "min_element_loop best (kv # m) = min_element_loop (if snd kv < snd best then kv else best) m"

fun erase_oldest :: "('k, time_point) omap \<Rightarrow> ('k, time_point) omap" where
  "erase_oldest [] = []"
| "erase_oldest (kv # m) = om_erase (fst (min_element_loop kv m)) (kv # m)"

definition remember :: "req_key \<Rightarrow> time_point \<Rightarrow> queued_requests \<Rightarrow> queued_requests" where
  "remember i now q =
     (if capacity q = 0 then q
      else
        (let q' = (if length (terminal q) \<ge> capacity q then q\<lparr>terminal := erase_oldest (terminal q)\<rparr> else q)
         in q'\<lparr>terminal := om_set i (now + retention q) (terminal q')\<rparr>))"

definition admit :: "req_key \<Rightarrow> time_point \<Rightarrow> queued_requests \<Rightarrow> nat option \<times> queued_requests" where
  "admit i now q =
     (let q = prune now q in
      if om_find (active q) i \<noteq> None \<or> om_find (terminal q) i \<noteq> None \<or> length (active q) \<ge> capacity q
      then (None, q)
      else
        (let request = length (tickets q) in
         (Some request, q\<lparr>tickets := tickets q @ [kQueued], active := om_emplace i request (active q)\<rparr>)))"

definition queued_cancel :: "req_key \<Rightarrow> time_point \<Rightarrow> queued_requests \<Rightarrow> queued_requests" where
  "queued_cancel i now q =
     (let q = prune now q in
      case om_find (active q) i of
        Some t \<Rightarrow> ticket_cancel t q
      | None \<Rightarrow> if om_find (terminal q) i = None then remember i now q else q)"

definition queued_finish :: "req_key \<Rightarrow> nat \<Rightarrow> time_point \<Rightarrow> queued_requests \<Rightarrow> bool \<times> queued_requests" where
  "queued_finish i request now q =
     (if om_find (active q) i \<noteq> Some request then (False, q)
      else (True, remember i now (prune now (q\<lparr>active := om_erase i (active q)\<rparr>))))"

subsection \<open>Invariant\<close>

text \<open>
  The maps are ordered and bounded by the capacity, no key is both active and terminal,
  and active keys hold distinct, existing tickets.
\<close>

definition queued_inv :: "queued_requests \<Rightarrow> bool" where
  "queued_inv q \<longleftrightarrow>
     om_wf (active q) \<and> om_wf (terminal q) \<and>
     length (active q) \<le> capacity q \<and> length (terminal q) \<le> capacity q \<and>
     dom (om_find (active q)) \<inter> dom (om_find (terminal q)) = {} \<and>
     (\<forall>i t. om_find (active q) i = Some t \<longrightarrow> t < length (tickets q)) \<and>
     inj_on (om_find (active q)) (dom (om_find (active q)))"

lemma queued_inv_init [inv_intros]: "queued_inv (queued_init cap ret)"
  by (simp add: queued_inv_def queued_init_def om_find_Nil dom_def)

lemma min_element_loop_in: "min_element_loop best m \<in> insert best (set m)"
  by (induction best m rule: min_element_loop.induct) (auto split: if_splits)

lemma min_element_loop_le:
  "snd (min_element_loop best m) \<le> snd best \<and> (\<forall>kv \<in> set m. snd (min_element_loop best m) \<le> snd kv)"
  by (induction best m rule: min_element_loop.induct) (force split: if_splits)+

lemma om_wf_erase_oldest [simp]: "om_wf m \<Longrightarrow> om_wf (erase_oldest m)"
  by (cases m) (simp_all del: om_wf_Cons)

lemma length_erase_oldest: "om_wf m \<Longrightarrow> length (erase_oldest m) = length m - 1"
proof (cases m)
  case (Cons kv m')
  assume wf: "om_wf m"
  obtain k v where kv: "min_element_loop kv m' = (k, v)" by (cases "min_element_loop kv m'")
  then have "(k, v) \<in> set m" using min_element_loop_in[of kv m'] Cons by simp
  then have "om_find m k = Some v" using wf by (simp add: om_find_iff)
  then show ?thesis using length_om_erase[OF wf, of k] Cons kv by simp
qed simp

text \<open>Eviction removes a single record, one that expires first.\<close>

lemma erase_oldest_evicts:
  assumes "om_wf m" and "om_find m i = Some e" and "om_find (erase_oldest m) i = None"
    and "om_find m j = Some e'"
  shows "e \<le> e'" and "j \<noteq> i \<Longrightarrow> om_find (erase_oldest m) j = Some e'"
proof -
  from assms(2) obtain kv m' where m: "m = kv # m'" by (cases m) (auto simp: om_find_Nil)
  let ?b = "min_element_loop kv m'"
  have i: "i = fst ?b" using assms(2,3) m by (auto simp: om_find_erase split: if_splits)
  have "?b \<in> set m" using min_element_loop_in[of kv m'] m by simp
  then have "om_find m i = Some (snd ?b)" using assms(1) i by (simp add: om_find_iff)
  with assms(2) have e: "e = snd ?b" by simp
  have "(j, e') \<in> set m" using assms(1,4) by (simp add: om_find_iff)
  then show "e \<le> e'" using min_element_loop_le[of kv m'] m e by auto
  show "j \<noteq> i \<Longrightarrow> om_find (erase_oldest m) j = Some e'"
    using assms(4) i m by (simp add: om_find_erase)
qed

lemma dom_erase_oldest: "dom (om_find (erase_oldest m)) \<subseteq> dom (om_find m)"
  by (cases m) (auto simp: om_find_erase split: if_splits)

lemma prune_fields [simp]:
  "active (prune now q) = active q" "capacity (prune now q) = capacity q"
  "retention (prune now q) = retention q" "tickets (prune now q) = tickets q"
  by (simp_all add: prune_def)

lemma find_prune:
  "queued_inv q \<Longrightarrow> om_find (terminal (prune now q)) i = Some e \<longleftrightarrow> om_find (terminal q) i = Some e \<and> now < e"
  by (auto simp: prune_def queued_inv_def om.erase_if_keeps)

lemma queued_inv_prune [inv_intros]: "queued_inv q \<Longrightarrow> queued_inv (prune now q)"
  using om.dom_erase_if[of "terminal q"] length_om_erase_if_le[of _ "terminal q"]
  by (fastforce simp: queued_inv_def prune_def intro: order_trans)

lemma remember_fields [simp]:
  "active (remember i now q) = active q" "capacity (remember i now q) = capacity q"
  "retention (remember i now q) = retention q" "tickets (remember i now q) = tickets q"
  by (simp_all add: remember_def Let_def)

lemma find_remember:
  "om_find (terminal (remember i now q)) =
     (if capacity q = 0 then om_find (terminal q)
      else if length (terminal q) \<ge> capacity q then (om_find (erase_oldest (terminal q)))(i \<mapsto> now + retention q)
      else (om_find (terminal q))(i \<mapsto> now + retention q))"
  by (simp add: remember_def Let_def om_find_set)

lemma remember_terminal:
  assumes "om_wf (terminal q)" and "length (terminal q) \<le> capacity q"
  shows "om_wf (terminal (remember i now q))"
    and "length (terminal (remember i now q)) \<le> capacity q"
    and "dom (om_find (terminal (remember i now q))) \<subseteq> insert i (dom (om_find (terminal q)))"
  using assms dom_erase_oldest[of "terminal q"]
  by (auto simp: remember_def Let_def length_om_set length_erase_oldest om_find_set)

lemma queued_inv_remember [inv_intros]:
  assumes "queued_inv q" and "om_find (active q) i = None"
  shows "queued_inv (remember i now q)"
proof -
  have "i \<notin> dom (om_find (active q))" using assms(2) by auto
  moreover have "dom (om_find (active q)) \<inter> dom (om_find (terminal q)) = {}"
    using assms(1) by (simp add: queued_inv_def)
  ultimately have "dom (om_find (active q)) \<inter> dom (om_find (terminal (remember i now q))) = {}"
    using remember_terminal(3)[of q i now] assms(1) unfolding queued_inv_def by blast
  then show ?thesis
    using assms(1) remember_terminal(1,2)[of q i now] unfolding queued_inv_def by simp
qed

lemma queued_inv_ticket [inv_intros]:
  "queued_inv q \<Longrightarrow> queued_inv (snd (ticket_cas st t q))"
  by (simp add: queued_inv_def ticket_cas_def)

lemma queued_inv_admit [inv_intros]:
  assumes "queued_inv q"
  shows "queued_inv (snd (admit i now q))"
proof -
  let ?q = "prune now q"
  have inv: "queued_inv ?q" by (rule queued_inv_prune[OF assms])
  have "om_find (active ?q) j \<noteq> Some (length (tickets ?q))" for j
    using inv unfolding queued_inv_def by (metis less_irrefl)
  then show ?thesis using inv
    by (auto simp: admit_def Let_def queued_inv_def map_simps length_om_emplace inj_on_def less_Suc_eq
        simp del: prune_fields)
qed

lemma queued_inv_cancel [inv_intros]: "queued_inv q \<Longrightarrow> queued_inv (queued_cancel i now q)"
  by (auto simp: queued_cancel_def Let_def ticket_cancel_def simp del: prune_fields
      intro!: inv_intros split: option.splits)

lemma queued_inv_erase_active:
  "queued_inv q \<Longrightarrow> queued_inv (q\<lparr>active := om_erase i (active q)\<rparr>)"
  using length_om_erase_le[of i "active q"]
  by (auto simp: queued_inv_def om_find_erase inj_on_def intro: order_trans)

lemma queued_inv_finish [inv_intros]: "queued_inv q \<Longrightarrow> queued_inv (snd (queued_finish i t now q))"
  by (auto simp: queued_finish_def om_find_erase intro!: queued_inv_erase_active inv_intros)

subsection \<open>Runs\<close>

text \<open>
  The calls the room service makes, in any order, with what they returned: the keys
  admitted (the \<open>t\<close>-th one got ticket \<open>t\<close>), the tickets whose \<open>try_start\<close> and whose
  \<open>finish\<close> returned true. Only a ticket that was handed out can be started.
\<close>

datatype queued_event =
    QAdmit req_key time_point
  | QCancel req_key time_point
  | QFinish req_key nat time_point
  | QTryStart nat

record queued_trace =
  qst :: queued_requests
  q_admitted :: "req_key list"
  q_starts :: "nat list"
  q_finishes :: "nat list"

definition queued_start :: "nat \<Rightarrow> time_point \<Rightarrow> queued_trace" where
  "queued_start cap ret = \<lparr>qst = queued_init cap ret, q_admitted = [], q_starts = [], q_finishes = []\<rparr>"

fun queued_step :: "queued_trace \<Rightarrow> queued_event \<Rightarrow> queued_trace" where
  "queued_step r (QAdmit i now) =
     (case admit i now (qst r) of
        (None, q) \<Rightarrow> r\<lparr>qst := q\<rparr>
      | (Some t, q) \<Rightarrow> r\<lparr>qst := q, q_admitted := q_admitted r @ [i]\<rparr>)"
| "queued_step r (QCancel i now) = r\<lparr>qst := queued_cancel i now (qst r)\<rparr>"
| "queued_step r (QFinish i t now) =
     (case queued_finish i t now (qst r) of
        (ok, q) \<Rightarrow> r\<lparr>qst := q, q_finishes := q_finishes r @ (if ok then [t] else [])\<rparr>)"
| "queued_step r (QTryStart t) =
     (if t < length (tickets (qst r)) then
        (case try_start t (qst r) of
           (ok, q) \<Rightarrow> r\<lparr>qst := q, q_starts := q_starts r @ (if ok then [t] else [])\<rparr>)
      else r)"

definition tickets_inv :: "queued_trace \<Rightarrow> bool" where
  "tickets_inv r \<longleftrightarrow>
     distinct (q_starts r) \<and>
     set (q_starts r) = {t. t < length (tickets (qst r)) \<and> tickets (qst r) ! t = kStarted}"

definition finish_inv :: "queued_trace \<Rightarrow> bool" where
  "finish_inv r \<longleftrightarrow>
     length (q_admitted r) = length (tickets (qst r)) \<and>
     (\<forall>kv \<in> set (active (qst r)). snd kv < length (tickets (qst r)) \<and> q_admitted r ! snd kv = fst kv) \<and>
     mset (map snd (active (qst r))) + mset (q_finishes r) = mset [0..<length (tickets (qst r))]"

definition qtrace_inv :: "queued_trace \<Rightarrow> bool" where
  "qtrace_inv r \<longleftrightarrow> queued_inv (qst r) \<and> tickets_inv r \<and> finish_inv r"

lemma qtrace_inv_start: "qtrace_inv (queued_start cap ret)"
  by (simp add: qtrace_inv_def queued_start_def queued_inv_init tickets_inv_def finish_inv_def)
    (simp add: queued_init_def)

lemma queued_inv_step: "queued_inv (qst r) \<Longrightarrow> queued_inv (qst (queued_step r e))"
proof (cases e)
  case (QAdmit i now)
  assume "queued_inv (qst r)"
  from queued_inv_admit[OF this, of i now] show ?thesis
    using QAdmit by (auto split: prod.splits option.splits)
next
  case (QFinish i t now)
  assume "queued_inv (qst r)"
  from queued_inv_finish[OF this, of i t now] show ?thesis
    using QFinish by (auto split: prod.splits)
next
  case (QTryStart t)
  assume "queued_inv (qst r)"
  from queued_inv_ticket[OF this, of kStarted t] show ?thesis
    using QTryStart \<open>queued_inv (qst r)\<close> by (auto simp: try_start_def split: prod.splits)
qed (simp add: queued_inv_cancel)

lemma admit_cases:
  obtains (refused) "admit i now q = (None, prune now q)"
  | (granted) "om_find (active q) i = None" "om_find (terminal (prune now q)) i = None"
      "length (active q) < capacity q"
      "admit i now q = (Some (length (tickets q)),
         (prune now q)\<lparr>tickets := tickets q @ [kQueued], active := om_set i (length (tickets q)) (active q)\<rparr>)"
  by (fastforce simp: admit_def Let_def om_emplace_def split: if_splits)

lemma started_snoc:
  "{t. t < Suc (length xs) \<and> (xs @ [kQueued]) ! t = kStarted} = {t. t < length xs \<and> xs ! t = kStarted}"
  by (auto simp: nth_append less_Suc_eq)

lemma ticket_cas_set:
  "t < length (tickets q) \<Longrightarrow> tickets q ! t = kQueued \<Longrightarrow>
     {u. u < length (tickets q) \<and> (tickets q)[t := d] ! u = kStarted} =
     (if d = kStarted then insert t else id) {u. u < length (tickets q) \<and> tickets q ! u = kStarted}"
  by (auto simp: nth_list_update)

lemma active_ticket_valid:
  "queued_inv q \<Longrightarrow> om_find (active q) i = Some t \<Longrightarrow> t < length (tickets q)"
  unfolding queued_inv_def by blast

lemma tickets_inv_step:
  assumes "queued_inv (qst r)" and "tickets_inv r"
  shows "tickets_inv (queued_step r e)"
proof (cases e)
  case (QAdmit i now)
  show ?thesis
    by (rule admit_cases[of i now "qst r"])
      (use assms(2) QAdmit in \<open>simp_all add: tickets_inv_def started_snoc\<close>)
next
  case (QCancel i now)
  show ?thesis
  proof (cases "om_find (active (qst r)) i")
    case None
    then show ?thesis using assms(2) QCancel by (simp add: tickets_inv_def queued_cancel_def Let_def)
  next
    case (Some t)
    then have "t < length (tickets (qst r))" by (rule active_ticket_valid[OF assms(1)])
    then show ?thesis using assms(2) QCancel Some
      by (simp add: tickets_inv_def queued_cancel_def Let_def ticket_cancel_def ticket_cas_def ticket_cas_set)
  qed
next
  case (QFinish i t now)
  then show ?thesis using assms(2) by (simp add: tickets_inv_def queued_finish_def)
next
  case (QTryStart t)
  then show ?thesis using assms(2)
    by (simp add: tickets_inv_def try_start_def ticket_cas_def ticket_cas_set)
qed

lemma finish_inv_step:
  assumes "queued_inv (qst r)" and "finish_inv r"
  shows "finish_inv (queued_step r e)"
proof (cases e)
  case (QAdmit i now)
  show ?thesis
  proof (cases rule: admit_cases[of i now "qst r"])
    case refused
    then show ?thesis using assms(2) QAdmit by (simp add: finish_inv_def)
  next
    case granted
    have ent: "snd kv < length (tickets (qst r)) \<and> q_admitted r ! snd kv = fst kv"
      if "kv \<in> set (active (qst r))" for kv using assms(2) that by (simp add: finish_inv_def)
    have adm: "length (q_admitted r) = length (tickets (qst r))"
      and all: "mset (map snd (active (qst r))) + mset (q_finishes r) = mset [0..<length (tickets (qst r))]"
      using assms(2) by (simp_all add: finish_inv_def)
    show ?thesis using granted QAdmit adm all ent
      by (simp add: finish_inv_def mset_om_set set_om_set nth_append less_Suc_eq)
  qed
next
  case (QCancel i now)
  have "active (queued_cancel i now (qst r)) = active (qst r)"
    and "length (tickets (queued_cancel i now (qst r))) = length (tickets (qst r))"
    by (simp_all add: queued_cancel_def Let_def ticket_cancel_def ticket_cas_def split: option.split)
  then show ?thesis using assms(2) QCancel by (simp add: finish_inv_def)
next
  case (QFinish i t now)
  have wf: "om_wf (active (qst r))" using assms(1) by (simp add: queued_inv_def)
  show ?thesis
  proof (cases "om_find (active (qst r)) i = Some t")
    case True
    have "mset (map snd (active (qst r))) = add_mset t (mset (map snd (om_erase i (active (qst r)))))"
      using mset_om_erase[OF wf True] by simp
    then show ?thesis using assms(2) QFinish True set_om_erase_subset[of _ i "active (qst r)"]
      by (auto simp: finish_inv_def queued_finish_def simp del: mset_map)
  next
    case False
    then show ?thesis using assms(2) QFinish by (simp add: finish_inv_def queued_finish_def)
  qed
next
  case (QTryStart t)
  then show ?thesis using assms(2) by (simp add: finish_inv_def try_start_def ticket_cas_def)
qed

interpretation queued: event_machine "queued_start cap ret" queued_step qtrace_inv
proof unfold_locales
  show "qtrace_inv (queued_start cap ret)" by (rule qtrace_inv_start)
  show "qtrace_inv s \<Longrightarrow> qtrace_inv (queued_step s e)" for s e
    by (simp add: qtrace_inv_def queued_inv_step tickets_inv_step finish_inv_step)
qed

text \<open>What no event changes: the bounds, and a ticket that has left the queue.\<close>

lemma queued_step_const:
  "capacity (qst (queued_step r e)) = capacity (qst r)" "retention (qst (queued_step r e)) = retention (qst r)"
  by (cases e; auto simp: admit_def queued_cancel_def queued_finish_def try_start_def ticket_cancel_def
      ticket_cas_def Let_def split: option.splits)+

lemma capacity_run [simp]: "capacity (qst (run_events queued_step r es)) = capacity (qst r)"
  by (induction es arbitrary: r) (simp_all add: queued_step_const)

lemma ticket_cas_settled:
  "t < length (tickets q) \<Longrightarrow> tickets q ! t \<noteq> kQueued \<Longrightarrow> tickets (snd (ticket_cas d u q)) ! t = tickets q ! t"
  by (cases "u = t") (simp_all add: ticket_cas_def)

lemma settled_step:
  assumes "t < length (tickets (qst r))" and "tickets (qst r) ! t \<noteq> kQueued"
  shows "t < length (tickets (qst (queued_step r e))) \<and> tickets (qst (queued_step r e)) ! t = tickets (qst r) ! t"
proof (cases e)
  case (QAdmit i now)
  show ?thesis
    by (rule admit_cases[of i now "qst r"]) (use assms QAdmit in \<open>simp_all add: nth_append\<close>)
next
  case (QCancel i now)
  have "length (tickets (snd (ticket_cas d u q))) = length (tickets q)" for d u q
    by (simp add: ticket_cas_def)
  then show ?thesis
    using QCancel assms ticket_cas_settled[of t "prune now (qst r)"]
    by (simp add: queued_cancel_def Let_def ticket_cancel_def split: option.split)
next
  case (QFinish i u now)
  then show ?thesis using assms by (simp add: queued_finish_def)
next
  case (QTryStart u)
  then show ?thesis using assms by (auto simp: try_start_def ticket_cas_def nth_list_update)
qed

lemma settled_run:
  assumes "t < length (tickets (qst r))" and "tickets (qst r) ! t \<noteq> kQueued"
  shows "t < length (tickets (qst (run_events queued_step r es))) \<and>
     tickets (qst (run_events queued_step r es)) ! t = tickets (qst r) ! t"
  using assms
proof (induction es arbitrary: r)
  case (Cons e es)
  from settled_step[OF Cons.prems, of e] Cons.prems Cons.IH[of "queued_step r e"] show ?case by simp
qed simp







subsection \<open>Properties\<close>

text \<open>C27. In every run of the registry each admitted request is started at most once and
  finished at most once: the tickets still active together with those whose \<open>finish\<close>
  returned true are exactly the tickets handed out, each once. The two maps never exceed the
  capacity and never share a key.\<close>

theorem queued_once:
  "let r = run_events queued_step (queued_start cap ret) es; q = qst r in
     distinct (q_starts r) \<and>
     mset (map snd (active q)) + mset (q_finishes r) = mset [0..<length (q_admitted r)] \<and>
     length (active q) \<le> cap \<and> length (terminal q) \<le> cap \<and>
     set (map fst (active q)) \<inter> set (map fst (terminal q)) = {}"
proof -
  let ?r = "run_events queued_step (queued_start cap ret) es"
  have inv: "qtrace_inv ?r" by (rule queued.ok_run)
  have "capacity (qst ?r) = cap" by (simp add: queued_start_def queued_init_def)
  with inv show ?thesis
    by (simp add: dom_om_find qtrace_inv_def queued_inv_def tickets_inv_def finish_inv_def Let_def)
qed

text \<open>A cancellation wins exactly when it comes before the first authoritative mutation: if
  the request is still queued when \<open>cancel\<close> is called, its \<open>try_start\<close> never returns
  true afterwards; if it was started, it stays started.\<close>

theorem cancel_wins_before_start:
  assumes "om_find (active (qst (run_events queued_step (queued_start cap ret) es))) i = Some t"
  shows "let r = run_events queued_step (queued_start cap ret) es;
             r' = run_events queued_step (queued_step r (QCancel i now)) es'
         in t \<in> set (q_starts r') \<longleftrightarrow> ticket_started t (qst r)"
proof -
  let ?r = "run_events queued_step (queued_start cap ret) es"
  let ?c = "queued_step ?r (QCancel i now)"
  let ?r' = "run_events queued_step ?c es'"
  have "qtrace_inv ?r'"
    using queued.ok_run[of cap ret "es @ QCancel i now # es'"] by simp
  then have starts: "t \<in> set (q_starts ?r') \<longleftrightarrow> t < length (tickets (qst ?r')) \<and> tickets (qst ?r') ! t = kStarted"
    by (simp add: qtrace_inv_def tickets_inv_def)
  have t: "t < length (tickets (qst ?r))"
    using queued.ok_run[of cap ret es] active_ticket_valid[OF _ assms] by (simp add: qtrace_inv_def)
  have "t < length (tickets (qst ?c))" and
    "tickets (qst ?c) ! t = (if tickets (qst ?r) ! t = kQueued then kCancelled else tickets (qst ?r) ! t)"
    using t assms by (simp_all add: queued_cancel_def Let_def ticket_cancel_def ticket_cas_def)
  with settled_run[of t ?c es'] starts show ?thesis
    by (simp add: Let_def ticket_started_def split: if_splits)
qed

theorem cancel_wins_before_start_witness:
  "let r = run_events queued_step (queued_start 2 30) [QAdmit (''u'', 1) 0, QAdmit (''u'', 2) 1, QTryStart 0];
       r' = run_events queued_step (queued_step r (QCancel (''u'', 2) 2)) [QTryStart 1]
   in om_find (active (qst r)) (''u'', 2) = Some 1 \<and> 1 \<notin> set (q_starts r')"
  using cancel_wins_before_start[of 2 30 "[QAdmit (''u'', 1) 0, QAdmit (''u'', 2) 1, QTryStart 0]" "(''u'', 2)" 1 2 "[QTryStart 1]"]
  by (simp add: queued_start_def queued_init_def admit_def prune_def om_find_def om_emplace_def try_start_def
      ticket_cas_def Let_def ticket_started_def)


lemmas queued_eval = queued_start_def queued_init_def admit_def prune_def om_find_def om_emplace_def
  try_start_def ticket_cas_def ticket_cancel_def Let_def ticket_started_def queued_finish_def queued_cancel_def
  remember_def om_erase_def


text \<open>Finishing a request records it for the retention time, and makes room by dropping only
  records that have expired or that expire no later than any other one.\<close>

theorem finish_records:
  assumes "queued_inv q" and "fst (queued_finish i t now q)" and "capacity q > 0"
    and "om_find (terminal q) j = Some e"
  shows "om_find (terminal (snd (queued_finish i t now q))) i = Some (now + retention q) \<and>
    (om_find (terminal (snd (queued_finish i t now q))) j = Some e \<or> e \<le> now \<or>
     (\<forall>k e'. om_find (terminal q) k = Some e' \<longrightarrow> now < e' \<longrightarrow> e \<le> e'))"
proof -
  let ?q = "q\<lparr>active := om_erase i (active q)\<rparr>"
  have act: "om_find (active q) i = Some t" using assms(2) by (simp add: queued_finish_def split: if_splits)
  then have ji: "j \<noteq> i" using assms(1,4) unfolding queued_inv_def by (metis disjoint_iff domI)
  have inv: "queued_inv ?q" by (rule queued_inv_erase_active[OF assms(1)])
  let ?p = "prune now ?q"
  have wf: "om_wf (terminal ?p)" using queued_inv_prune[OF inv] by (simp add: queued_inv_def)
  have fin: "snd (queued_finish i t now q) = remember i now ?p" using act by (simp add: queued_finish_def)
  have rec: "om_find (terminal (remember i now ?p)) i = Some (now + retention q)"
    using assms(3) by (simp add: find_remember)
  have pr: "om_find (terminal ?p) k = Some e' \<longleftrightarrow> om_find (terminal q) k = Some e' \<and> now < e'" for k e'
    using find_prune[OF inv] by simp
  show ?thesis
  proof (cases "now < e \<and> om_find (terminal (remember i now ?p)) j \<noteq> Some e")
    case True
    then have j: "om_find (terminal ?p) j = Some e" using pr assms(4) by simp
    have gone: "om_find (erase_oldest (terminal ?p)) j \<noteq> Some e"
      using True ji j by (auto simp: find_remember split: if_splits)
    have "om_find (erase_oldest m) j = om_find m j \<or> om_find (erase_oldest m) j = None" for m :: "(req_key, time_point) omap"
      by (cases m) (auto simp: om_find_erase)
    with gone j have "om_find (erase_oldest (terminal ?p)) j = None" by metis
    from erase_oldest_evicts(1)[OF wf j this] rec fin pr show ?thesis by auto
  next
    case False
    with rec fin show ?thesis by auto
  qed
qed

theorem finish_records_witness:
  "let q = \<lparr>capacity = 2, retention = 30, active = [((''u'', 3), 0)],
        terminal = [((''u'', 1), 40), ((''u'', 2), 35)], tickets = [kStarted]\<rparr> in
     om_find (terminal (snd (queued_finish (''u'', 3) 0 10 q))) (''u'', 3) = Some 40 \<and>
     om_find (terminal (snd (queued_finish (''u'', 3) 0 10 q))) (''u'', 2) = None"
  using finish_records[of "\<lparr>capacity = 2, retention = 30, active = [((''u'', 3), 0)],
      terminal = [((''u'', 1), 40), ((''u'', 2), 35)], tickets = [kStarted]\<rparr>" "(''u'', 3)" 0 10 "(''u'', 2)" 35]
  by (simp add: queued_eval queued_inv_def inj_on_def)

end
