(* ===== verification/Contents.thy ===== *)
theory Contents
  imports Messages
begin

text \<open>
  The sample room contents (\<open>room_contents/src/contents.cpp\<close>), loaded by the room server
  behind \<open>room_message_interface\<close>. A callback gets what \<open>api_->users()\<close> returns and
  yields the calls it makes on \<open>room_api_interface\<close>.
\<close>

datatype api_call = ApiSendToUser "Uid list" string | ApiKickOutUser Uid KickoutReason

text \<open>
  \<open>std::getline(stream, token, delimiter)\<close>: fails on an exhausted stream; otherwise the
  delimiter is consumed and not part of the token.
\<close>

definition getline :: "char \<Rightarrow> string \<Rightarrow> (string \<times> string) option" where
  "getline delimiter stream =
     (if stream = [] then None
      else Some (takeWhile (\<lambda>c. c \<noteq> delimiter) stream, drop 1 (dropWhile (\<lambda>c. c \<noteq> delimiter) stream)))"

lemma length_dropWhile_tl: "xs \<noteq> [] \<Longrightarrow> length (drop 1 (dropWhile P xs)) < length xs"
  using length_dropWhile_le[of P xs] by (cases xs) (auto simp del: dropWhile.simps)

function getline_loop :: "char \<Rightarrow> string \<Rightarrow> string list" where
  "getline_loop delimiter stream =
     (case getline delimiter stream of
        None \<Rightarrow> []
      | Some (token, rest) \<Rightarrow> token # getline_loop delimiter rest)"
  by auto

termination
  by (relation "measure (\<lambda>(_, s). length s)")
    (auto simp: getline_def split: if_splits intro: length_dropWhile_tl[simplified])

declare getline_loop.simps [simp del]

definition contents_on_create_room :: "RoomId \<Rightarrow> api_call list" where
  "contents_on_create_room i = []"

definition contents_on_user_enter :: "Uid list \<Rightarrow> Uid \<Rightarrow> api_call list" where
  "contents_on_user_enter us u = [ApiSendToUser us (''('' @ u @ '') has entered'')]"

definition contents_on_user_exit :: "Uid list \<Rightarrow> Uid \<Rightarrow> api_call list" where
  "contents_on_user_exit us u = [ApiSendToUser us (''('' @ u @ '') has exited'')]"

definition contents_on_destroy_room :: "api_call list" where
  "contents_on_destroy_room = []"

definition contents_on_recv_message :: "Uid list \<Rightarrow> Uid \<Rightarrow> string \<Rightarrow> api_call list" where
  "contents_on_recv_message us from msg =
     (let tokens = getline_loop (CHR '':'') msg in
      if length tokens > 1 \<and> tokens ! 0 = ''kickout''
      then [ApiKickOutUser (tokens ! 1) kRoomOwner]
      else [ApiSendToUser us (''('' @ from @ ''):'' @ msg)])"

definition contents_on_kicked_out_user :: "Uid \<Rightarrow> KickoutReason \<Rightarrow> api_call list" where
  "contents_on_kicked_out_user u r = []"

lemma getline_loop_Nil [simp]: "getline_loop d [] = []"
  by (simp add: getline_loop.simps getline_def)

lemma getline_loop_token:
  "d \<notin> set xs \<Longrightarrow> getline_loop d (xs @ d # ys) = xs # getline_loop d ys"
proof -
  assume "d \<notin> set xs"
  then have "takeWhile (\<lambda>c. c \<noteq> d) (xs @ d # ys) = xs" "dropWhile (\<lambda>c. c \<noteq> d) (xs @ d # ys) = d # ys"
    by (auto simp: takeWhile_append dropWhile_append)
  then show ?thesis by (subst getline_loop.simps) (simp add: getline_def)
qed

lemma getline_loop_last: "d \<notin> set xs \<Longrightarrow> xs \<noteq> [] \<Longrightarrow> getline_loop d xs = [xs]"
proof -
  assume a: "d \<notin> set xs" "xs \<noteq> []"
  then have "takeWhile (\<lambda>c. c \<noteq> d) xs = xs" and nil: "dropWhile (\<lambda>c. c \<noteq> d) xs = []"
    by (auto simp: takeWhile_eq_all_conv)
  with a(2) have "getline d xs = Some (xs, [])"
    unfolding getline_def nil by simp
  then show ?thesis by (subst getline_loop.simps) simp
qed

text \<open>No token holds the delimiter, and the tokens spell the message up to a final delimiter.\<close>

lemma getline_loop_spec:
  "list_all (\<lambda>tk. d \<notin> set tk) (getline_loop d s) \<and>
   (s = concat (map (\<lambda>tk. tk @ [d]) (getline_loop d s)) \<or>
    s @ [d] = concat (map (\<lambda>tk. tk @ [d]) (getline_loop d s)))"
proof (induction "length s" arbitrary: s rule: less_induct)
  case less
  show ?case
  proof (cases "d \<in> set s")
    case True
    then obtain xs ys where s: "s = xs @ d # ys" "d \<notin> set xs" by (meson split_list_first)
    then have "length ys < length s" by simp
    from less[OF this] s show ?thesis by (auto simp: getline_loop_token)
  next
    case False
    then show ?thesis by (cases "s = []") (simp_all add: getline_loop_last)
  qed
qed

text \<open>The text the client sends to kick a user, \<open>kickout:name\<close>, is taken as a kick of exactly
  that user; any text with no colon is echoed to the members with its sender.\<close>

theorem contents_protocol:
  assumes "CHR '':'' \<notin> set name" and "name \<noteq> []" and "CHR '':'' \<notin> set chat"
  shows "contents_on_recv_message us from (''kickout:'' @ name) = [ApiKickOutUser name kRoomOwner] \<and>
    contents_on_recv_message us from chat = [ApiSendToUser us (''('' @ from @ ''):'' @ chat)]"
proof -
  have "getline_loop (CHR '':'') (''kickout'' @ CHR '':'' # name) = [''kickout'', name]"
    using assms(1,2) by (subst getline_loop_token) (simp_all add: getline_loop_last)
  moreover have "length (getline_loop (CHR '':'') chat) \<le> 1"
    using assms(3) by (cases "chat = []") (simp_all add: getline_loop_last)
  ultimately show ?thesis by (simp add: contents_on_recv_message_def Let_def)
qed

theorem contents_protocol_witness:
  "contents_on_recv_message [''ann'', ''bob''] ''ann'' (''kickout:'' @ ''bob'') = [ApiKickOutUser ''bob'' kRoomOwner] \<and>
   contents_on_recv_message [''ann'', ''bob''] ''ann'' ''hi'' = [ApiSendToUser [''ann'', ''bob''] (''('' @ ''ann'' @ ''):'' @ ''hi'')]"
  by (rule contents_protocol) simp_all

end
