(* ===== verification/Room_Server.thy ===== *)
theory Room_Server
  imports Queued_Requests Contents Message_Dispatcher
begin

text \<open>
  The room server: rooms (\<open>room/room.hpp\<close>, \<open>room.cpp\<close>), their manager
  (\<open>room_manager.hpp\<close>), the message handler (\<open>room_message_handler.hpp\<close>) and the user
  channel (\<open>user_channel.hpp\<close>). A \<open>shared_ptr<room>\<close> is an index into the list of rooms
  ever made. Work posted on a strand is a value that names the closure, run in posting
  order per strand. Messages handed to the router channel are recorded in \<open>sent\<close>, in
  order. A call on contents that have been released sets \<open>null_contents\<close>; an exception
  that leaves a strand task leaves \<open>io_context::run\<close> on its worker thread and ends the
  process, which sets \<open>terminated\<close>. \<open>sz\<close> is \<open>ByteSizeLong\<close> of the protobuf encoding.
\<close>

record user =
  u_uid :: Uid
  u_route :: RoutingId

datatype lifecycle = kOpen | kClosing | kClosed

record room =
  r_room_id :: RoomId
  r_owner :: user
  r_users :: "(Uid, user) omap"
  r_strand :: nat
  r_contents :: bool
  r_lifecycle :: lifecycle

text \<open>
  The completion callback of \<open>user_channel::handle_request\<close> captures the destination, the
  key and the ticket of the request.
\<close>

datatype completion = Completion RoutingId req_key nat

datatype task =
    OnCreateRoom RoomId
  | JoinRoom Uid RoutingId completion "64 word" RoomId
  | LeaveRoom Uid completion "64 word"
  | SendToUserImpl SenderType "user option" "user list" string
  | KickOutUserImpl Uid KickoutReason
  | CloseImpl

record room_server =
  heap :: "room list"
  rooms :: "(RoomId, nat) omap"
  user_rooms :: "(Uid, RoomId) omap"
  stopping :: bool
  registry :: queued_requests
  posted :: "(nat \<times> task) list"
  sent :: "(RoutingId \<times> message) list"
  null_contents :: bool
  terminated :: bool

definition room_server_init :: "nat \<Rightarrow> time_point \<Rightarrow> room_server" where
  "room_server_init cap ret =
     \<lparr>heap = [], rooms = [], user_rooms = [], stopping = False, registry = queued_init cap ret,
      posted = [], sent = [], null_contents = False, terminated = False\<rparr>"

subsection \<open>Rooms\<close>

definition room_new :: "RoomId \<Rightarrow> user \<Rightarrow> nat \<Rightarrow> room" where
  "room_new i owner strand =
     \<lparr>r_room_id = i, r_owner = owner, r_users = [(u_uid owner, owner)], r_strand = strand,
      r_contents = False, r_lifecycle = kOpen\<rparr>"

definition upd_room :: "nat \<Rightarrow> (room \<Rightarrow> room) \<Rightarrow> room_server \<Rightarrow> room_server" where
  "upd_room p f s = s\<lparr>heap := (heap s)[p := f (heap s ! p)]\<rparr>"

definition post :: "nat \<Rightarrow> task \<Rightarrow> room_server \<Rightarrow> room_server" where
  "post p t s = s\<lparr>posted := posted s @ [(p, t)]\<rparr>"

definition room_users :: "room \<Rightarrow> Uid list" where
  "room_users r = map (\<lambda>(_, u). u_uid u) (r_users r)"

text \<open>The private \<open>send_to_user\<close> with its lookup of every recipient.\<close>

definition send_to_user ::
  "nat \<Rightarrow> SenderType \<Rightarrow> user option \<Rightarrow> Uid list \<Rightarrow> string \<Rightarrow> room_server \<Rightarrow> bool \<times> room_server" where
  "send_to_user p stype sender uids msg s =
     (let us = List.map_filter (om_find (r_users (heap s ! p))) uids in
      if length uids \<noteq> length us then (False, s)
      else (True, post p (SendToUserImpl stype sender us msg) s))"

definition send_to_all_user :: "nat \<Rightarrow> SenderType \<Rightarrow> user option \<Rightarrow> string \<Rightarrow> room_server \<Rightarrow> room_server" where
  "send_to_all_user p stype sender msg s =
     post p (SendToUserImpl stype sender (map snd (r_users (heap s ! p))) msg) s"

definition kick_out_user :: "nat \<Rightarrow> Uid \<Rightarrow> KickoutReason \<Rightarrow> room_server \<Rightarrow> room_server" where
  "kick_out_user p u r s = post p (KickOutUserImpl u r) s"

fun run_api :: "nat \<Rightarrow> api_call list \<Rightarrow> room_server \<Rightarrow> room_server" where
  "run_api p [] s = s"
| "run_api p (ApiSendToUser uids msg # cs) s = run_api p cs (snd (send_to_user p kContent None uids msg s))"
| "run_api p (ApiKickOutUser u r # cs) s = run_api p cs (kick_out_user p u r s)"

text \<open>A call through \<open>contents_->\<close>; the callback may ask for the current users.\<close>

definition contents_call :: "nat \<Rightarrow> (Uid list \<Rightarrow> api_call list) \<Rightarrow> room_server \<Rightarrow> room_server" where
  "contents_call p callback s =
     (if r_contents (heap s ! p) then run_api p (callback (room_users (heap s ! p))) s
      else s\<lparr>null_contents := True\<rparr>)"

definition room_create_room :: "nat \<Rightarrow> room_server \<Rightarrow> room_server" where
  "room_create_room p s =
     (let s = upd_room p (\<lambda>r. r\<lparr>r_contents := True\<rparr>) s in
      post p (OnCreateRoom (r_room_id (heap s ! p))) s)"

definition on_recv_message :: "nat \<Rightarrow> Uid \<Rightarrow> string \<Rightarrow> room_server \<Rightarrow> room_server" where
  "on_recv_message p from msg s = contents_call p (\<lambda>us. contents_on_recv_message us from msg) s"

text \<open>\<open>close_impl\<close>, on the room's strand; \<open>on_destroy_room\<close> of the contents makes no call.\<close>

definition close_impl :: "nat \<Rightarrow> room_server \<Rightarrow> room_server" where
  "close_impl p s =
     (if r_lifecycle (heap s ! p) \<noteq> kOpen then s
      else
        (let s = upd_room p (\<lambda>r. r\<lparr>r_lifecycle := kClosing\<rparr>) s;
             s = (if r_contents (heap s ! p)
                  then upd_room p (\<lambda>r. r\<lparr>r_contents := False\<rparr>) (run_api p contents_on_destroy_room s)
                  else s)
         in upd_room p (\<lambda>r. r\<lparr>r_lifecycle := kClosed\<rparr>) s))"

text \<open>\<open>channel.send\<close> of a serialized message; \<open>serialize\<close> throws on an overlong payload, and
  the result tells whether it returned.\<close>

definition channel_send ::
  "(message \<Rightarrow> nat) \<Rightarrow> RoutingId \<Rightarrow> message \<Rightarrow> room_server \<Rightarrow> bool \<times> room_server" where
  "channel_send sz destination m s =
     (if sz m > kMaxPayloadSize then (False, s) else (True, s\<lparr>sent := sent s @ [(destination, m)]\<rparr>))"

fun send_to_user_impl ::
  "(message \<Rightarrow> nat) \<Rightarrow> SenderType \<Rightarrow> user option \<Rightarrow> user list \<Rightarrow> string \<Rightarrow> room_server \<Rightarrow> bool \<times> room_server" where
  "send_to_user_impl sz stype sender [] buffer s = (True, s)"
| "send_to_user_impl sz stype sender (u # us) buffer s =
     (let m = User2RoomFwdClient stype
                (if stype = kUser then (case sender of Some w \<Rightarrow> u_uid w | None \<Rightarrow> []) else [])
                (u_uid u) buffer;
          (ok, s') = channel_send sz (u_route u) m s
      in if ok then send_to_user_impl sz stype sender us buffer s' else (False, s'))"

definition kick_out_user_impl ::
  "(message \<Rightarrow> nat) \<Rightarrow> nat \<Rightarrow> Uid \<Rightarrow> KickoutReason \<Rightarrow> room_server \<Rightarrow> bool \<times> room_server" where
  "kick_out_user_impl sz p u r s =
     (case om_find (r_users (heap s ! p)) u of
        None \<Rightarrow> (True, s)
      | Some member \<Rightarrow>
          (case channel_send sz (u_route member) (User2RoomNtfLeaveRoom u kKickedOut (Some (kickout_code r))) s of
             (False, s) \<Rightarrow> (False, s)
           | (True, s) \<Rightarrow>
               (let s = contents_call p (\<lambda>_. contents_on_kicked_out_user u r) s
                in (True, upd_room p (\<lambda>q. q\<lparr>r_users := om_erase u (r_users q)\<rparr>) s))))"

subsection \<open>The manager\<close>

text \<open>\<open>workers_.size() / 10\<close> strands of a pool of 30.\<close>

definition strand_count :: nat where "strand_count = 30 div 10"

datatype manager_error = LogicError

text \<open>The room id is drawn by the caller from \<open>rng(10000, 100000)\<close>.\<close>

definition manager_create_room ::
  "RoomId \<Rightarrow> Uid \<Rightarrow> RoutingId \<Rightarrow> room_server \<Rightarrow> manager_error + nat \<times> room_server" where
  "manager_create_room i u route s =
     (if stopping s then Inl LogicError
      else
        (let created = length (heap s) in
         Inr (created,
              s\<lparr>heap := heap s @ [room_new i \<lparr>u_uid = u, u_route = route\<rparr> (length (rooms s) mod strand_count)],
                rooms := om_set i created (rooms s),
                user_rooms := om_set u i (user_rooms s)\<rparr>)))"

definition find_room :: "RoomId \<Rightarrow> room_server \<Rightarrow> nat option" where
  "find_room i s = om_find (rooms s) i"

definition find_room_of_user :: "Uid \<Rightarrow> room_server \<Rightarrow> nat option" where
  "find_room_of_user u s =
     (case om_find (user_rooms s) u of None \<Rightarrow> None | Some i \<Rightarrow> find_room i s)"

definition joined_room :: "Uid \<Rightarrow> nat \<Rightarrow> room_server \<Rightarrow> bool \<times> room_server" where
  "joined_room u p s =
     (let i = r_room_id (heap s ! p) in
      if om_find (rooms s) i \<noteq> Some p then (False, s)
      else (True, s\<lparr>user_rooms := om_set u i (user_rooms s)\<rparr>))"

definition left_room :: "Uid \<Rightarrow> nat \<Rightarrow> room_server \<Rightarrow> bool \<times> room_server" where
  "left_room u p s =
     (let i = r_room_id (heap s ! p) in
      if om_find (user_rooms s) u \<noteq> Some i \<or> om_find (rooms s) i \<noteq> Some p then (False, s)
      else (True, s\<lparr>user_rooms := om_erase u (user_rooms s)\<rparr>))"

definition manager_leave_room :: "Uid \<Rightarrow> room_server \<Rightarrow> nat option \<times> room_server" where
  "manager_leave_room u s =
     (case om_find (user_rooms s) u of
        None \<Rightarrow> (None, s)
      | Some i \<Rightarrow>
          (let s = s\<lparr>user_rooms := om_erase u (user_rooms s)\<rparr> in (find_room i s, s)))"

text \<open>\<open>close_room\<close> as the leave handler calls it, on the strand of the room, where
  \<open>strand_->dispatch\<close> runs \<open>close_impl\<close> at once.\<close>

definition close_room :: "nat \<Rightarrow> room_server \<Rightarrow> room_server" where
  "close_room p s =
     (let i = r_room_id (heap s ! p) in
      if om_find (rooms s) i \<noteq> Some p then s
      else close_impl p (s\<lparr>rooms := om_erase i (rooms s),
                           user_rooms := om_erase_if (\<lambda>_ i'. i' = i) (user_rooms s)\<rparr>))"

text \<open>\<open>shutdown\<close>, from outside the strands: every close is posted, and then awaited. Only the
  first call does anything (\<open>call_once\<close>).\<close>

definition manager_shutdown :: "room_server \<Rightarrow> room_server" where
  "manager_shutdown s =
     (if stopping s then s
      else s\<lparr>stopping := True, rooms := [], user_rooms := [],
             posted := posted s @ map (\<lambda>(_, p). (p, CloseImpl)) (rooms s)\<rparr>)"

subsection \<open>Requests\<close>

text \<open>The two callbacks of \<open>user_channel::handle_request\<close>: \<open>begin\<close> and \<open>complete\<close>.\<close>

fun begin_request :: "completion \<Rightarrow> room_server \<Rightarrow> bool \<times> room_server" where
  "begin_request (Completion destination key t) s =
     (case try_start t (registry s) of (ok, q) \<Rightarrow> (ok, s\<lparr>registry := q\<rparr>))"

fun complete_request ::
  "(message \<Rightarrow> nat) \<Rightarrow> time_point \<Rightarrow> completion \<Rightarrow> message \<Rightarrow> room_server \<Rightarrow> bool \<times> room_server" where
  "complete_request sz now (Completion destination key t) response s =
     (let started = ticket_started t (registry s);
          (finished, q) = queued_finish key t now (registry s);
          s = s\<lparr>registry := q\<rparr>
      in if finished \<and> started then channel_send sz destination response s else (True, s))"

text \<open>The handlers of \<open>room_message_handler\<close>. The result tells whether they returned.\<close>

definition handle_create_room ::
  "(message \<Rightarrow> nat) \<Rightarrow> time_point \<Rightarrow> RoomId \<Rightarrow> 64 word \<Rightarrow> Uid \<Rightarrow> RoutingId \<Rightarrow> completion
     \<Rightarrow> room_server \<Rightarrow> bool \<times> room_server" where
  "handle_create_room sz now new_id req u source c s =
     (case begin_request c s of
        (False, s) \<Rightarrow> complete_request sz now c (User2RoomResCreateRoom 0 [] False 0) s
      | (True, s) \<Rightarrow>
          (case manager_create_room new_id u source s of
             Inl LogicError \<Rightarrow> (False, s)
           | Inr (p, s) \<Rightarrow>
               (let s = room_create_room p s in
                complete_request sz now c (User2RoomResCreateRoom req [] True (r_room_id (heap s ! p))) s)))"

definition handle_join_room ::
  "(message \<Rightarrow> nat) \<Rightarrow> time_point \<Rightarrow> 64 word \<Rightarrow> Uid \<Rightarrow> RoomId \<Rightarrow> RoutingId \<Rightarrow> completion
     \<Rightarrow> room_server \<Rightarrow> bool \<times> room_server" where
  "handle_join_room sz now req u i source c s =
     (case find_room i s of
        None \<Rightarrow> complete_request sz now c (User2RoomResJoinRoom req [] i False) (snd (begin_request c s))
      | Some p \<Rightarrow> (True, post p (JoinRoom u source c req i) s))"

definition handle_leave_room ::
  "(message \<Rightarrow> nat) \<Rightarrow> time_point \<Rightarrow> 64 word \<Rightarrow> Uid \<Rightarrow> completion \<Rightarrow> room_server \<Rightarrow> bool \<times> room_server" where
  "handle_leave_room sz now req u c s =
     (case find_room_of_user u s of
        None \<Rightarrow> complete_request sz now c (User2RoomResLeaveRoom req [] False) (snd (begin_request c s))
      | Some p \<Rightarrow> (True, post p (LeaveRoom u c req) s))"

definition handle_fwd_room :: "Uid \<Rightarrow> string \<Rightarrow> room_server \<Rightarrow> room_server" where
  "handle_fwd_room u msg s =
     (case find_room_of_user u s of
        None \<Rightarrow> s
      | Some p \<Rightarrow> on_recv_message p u msg s)"

definition handle_ping :: message where
  "handle_ping = Pong"

text \<open>\<open>handle_request\<close>: a request that is not admitted is dropped; an exception of the handler
  finishes the request, and the channel loop logs it.\<close>

definition handle_request ::
  "(completion \<Rightarrow> room_server \<Rightarrow> bool \<times> room_server) \<Rightarrow> RoutingId \<Rightarrow> 64 word \<Rightarrow> time_point
     \<Rightarrow> room_server \<Rightarrow> room_server" where
  "handle_request handler destination req now s =
     (let key = (destination, req) in
      case admit key now (registry s) of
        (None, q) \<Rightarrow> s\<lparr>registry := q\<rparr>
      | (Some ticket, q) \<Rightarrow>
          (case handler (Completion destination key ticket) (s\<lparr>registry := q\<rparr>) of
             (True, s) \<Rightarrow> s
           | (False, s) \<Rightarrow> s\<lparr>registry := snd (queued_finish key ticket now (registry s))\<rparr>))"

text \<open>\<open>on_recv\<close> of the user channel, for the messages its dispatcher delivers; \<open>new_id\<close> is the
  random number a create request draws.\<close>

fun on_recv ::
  "(message \<Rightarrow> nat) \<Rightarrow> time_point \<Rightarrow> RoomId \<Rightarrow> RoutingId \<Rightarrow> message \<Rightarrow> room_server \<Rightarrow> room_server" where
  "on_recv sz now new_id source Ping s = snd (channel_send sz source handle_ping s)"
| "on_recv sz now new_id source (User2RoomFwdRoom _ u msg) s = handle_fwd_room u msg s"
| "on_recv sz now new_id source (User2RoomCancelRequest req) s =
     s\<lparr>registry := queued_cancel (source, req) now (registry s)\<rparr>"
| "on_recv sz now new_id source (User2RoomReqCreateRoom req u) s =
     handle_request (handle_create_room sz now new_id req u source) source req now s"
| "on_recv sz now new_id source (User2RoomReqJoinRoom req u i) s =
     handle_request (handle_join_room sz now req u i source) source req now s"
| "on_recv sz now new_id source (User2RoomReqLeaveRoom req _ u) s =
     handle_request (handle_leave_room sz now req u) source req now s"
| "on_recv sz now new_id source _ s = s"

subsection \<open>Strand tasks\<close>

text \<open>The closure \<open>join_room\<close> posts, with the callbacks the handler passes.\<close>

definition join_room_task ::
  "(message \<Rightarrow> nat) \<Rightarrow> time_point \<Rightarrow> nat \<Rightarrow> Uid \<Rightarrow> RoutingId \<Rightarrow> completion \<Rightarrow> 64 word \<Rightarrow> RoomId
     \<Rightarrow> room_server \<Rightarrow> bool \<times> room_server" where
  "join_room_task sz now p u route c req i s =
     (case begin_request c s of
        (False, s) \<Rightarrow> complete_request sz now c (User2RoomResJoinRoom req [] i False) s
      | (True, s) \<Rightarrow>
          if r_lifecycle (heap s ! p) \<noteq> kOpen
          then complete_request sz now c (User2RoomResJoinRoom req [] i False) s
          else
            (let inserted = (om_find (r_users (heap s ! p)) u = None);
                 s = upd_room p (\<lambda>r. r\<lparr>r_users := om_set u \<lparr>u_uid = u, u_route = route\<rparr> (r_users r)\<rparr>) s;
                 (joined, s) = joined_room u p s
             in case complete_request sz now c (User2RoomResJoinRoom req [] i joined) s of
                  (False, s) \<Rightarrow> (False, s)
                | (True, s) \<Rightarrow>
                    (True, if inserted then contents_call p (\<lambda>us. contents_on_user_enter us u) s else s)))"

text \<open>The closure \<open>leave_room\<close> posts; \<open>on_empty\<close> closes the room.\<close>

definition leave_room_task ::
  "(message \<Rightarrow> nat) \<Rightarrow> time_point \<Rightarrow> nat \<Rightarrow> Uid \<Rightarrow> completion \<Rightarrow> 64 word \<Rightarrow> room_server \<Rightarrow> bool \<times> room_server" where
  "leave_room_task sz now p u c req s =
     (case begin_request c s of
        (False, s) \<Rightarrow> complete_request sz now c (User2RoomResLeaveRoom req [] False) s
      | (True, s) \<Rightarrow>
          if r_lifecycle (heap s ! p) \<noteq> kOpen \<or> om_find (r_users (heap s ! p)) u = None
          then complete_request sz now c (User2RoomResLeaveRoom req [] False) s
          else
            (let s = upd_room p (\<lambda>r. r\<lparr>r_users := om_erase u (r_users r)\<rparr>) s;
                 empty = (r_users (heap s ! p) = []);
                 (left, s) = left_room u p s
             in case complete_request sz now c (User2RoomResLeaveRoom req [] left) s of
                  (False, s) \<Rightarrow> (False, s)
                | (True, s) \<Rightarrow>
                    (let s = contents_call p (\<lambda>us. contents_on_user_exit us u) s
                     in (True, if empty then close_room p s else s))))"

fun run_task :: "(message \<Rightarrow> nat) \<Rightarrow> time_point \<Rightarrow> nat \<Rightarrow> task \<Rightarrow> room_server \<Rightarrow> bool \<times> room_server" where
  "run_task sz now p (OnCreateRoom i) s = (True, contents_call p (\<lambda>_. contents_on_create_room i) s)"
| "run_task sz now p (JoinRoom u route c req i) s = join_room_task sz now p u route c req i s"
| "run_task sz now p (LeaveRoom u c req) s = leave_room_task sz now p u c req s"
| "run_task sz now p (SendToUserImpl stype sender us buffer) s = send_to_user_impl sz stype sender us buffer s"
| "run_task sz now p (KickOutUserImpl u r) s = kick_out_user_impl sz p u r s"
| "run_task sz now p CloseImpl s = (True, close_impl p s)"

subsection \<open>Runs\<close>

text \<open>
  The channel thread handles messages one at a time; each strand runs its tasks in posting
  order, with the strands interleaved in any way. \<open>room_manager::shutdown\<close> comes once.
\<close>

datatype room_event =
    Recv time_point RoomId RoutingId message
  | RunStrand nat time_point
  | ShutdownManager

fun take_first :: "('a \<Rightarrow> bool) \<Rightarrow> 'a list \<Rightarrow> ('a \<times> 'a list) option" where
  "take_first P [] = None"
| "take_first P (x # xs) =
     (if P x then Some (x, xs)
      else (case take_first P xs of None \<Rightarrow> None | Some (y, ys) \<Rightarrow> Some (y, x # ys)))"

definition run_strand :: "(message \<Rightarrow> nat) \<Rightarrow> nat \<Rightarrow> time_point \<Rightarrow> room_server \<Rightarrow> room_server" where
  "run_strand sz k now s =
     (case take_first (\<lambda>(p, _). r_strand (heap s ! p) = k) (posted s) of
        None \<Rightarrow> s
      | Some ((p, t), rest) \<Rightarrow>
          (case run_task sz now p t (s\<lparr>posted := rest\<rparr>) of
             (True, s) \<Rightarrow> s
           | (False, s) \<Rightarrow> s\<lparr>terminated := True\<rparr>))"

fun room_step :: "(message \<Rightarrow> nat) \<Rightarrow> room_server \<Rightarrow> room_event \<Rightarrow> room_server" where
  "room_step sz s (Recv now new_id source m) =
     (if terminated s then s else on_recv sz now new_id source m s)"
| "room_step sz s (RunStrand k now) = (if terminated s then s else run_strand sz k now s)"
| "room_step sz s ShutdownManager = (if terminated s then s else manager_shutdown s)"

end
