(* ===== verification/Room_Invariants.thy ===== *)
theory Room_Invariants
  imports Room_Server
begin

text \<open>
  What every run of the room server keeps: the membership maps are consistent, a room
  whose contents have been released is never asked to call them, and the requests that
  were admitted and not yet finished are exactly those waiting on a strand.
\<close>

subsection \<open>The structural invariant\<close>

text \<open>The tasks of one room, in the order its strand runs them.\<close>

definition tasks_of :: "nat \<Rightarrow> (nat \<times> task) list \<Rightarrow> task list" where
  "tasks_of p xs = map snd (filter (\<lambda>(p', _). p' = p) xs)"

lemma tasks_of_append [simp]: "tasks_of p (xs @ ys) = tasks_of p xs @ tasks_of p ys"
  by (simp add: tasks_of_def)

lemma tasks_of_Nil [simp]: "tasks_of p [] = []"
  by (simp add: tasks_of_def)

lemma tasks_of_Cons [simp]: "tasks_of p ((p', t) # xs) = (if p' = p then t # tasks_of p xs else tasks_of p xs)"
  by (simp add: tasks_of_def)

lemma tasks_of_map_pair [simp]: "tasks_of p (map (Pair p') ts) = (if p' = p then ts else [])"
  by (induction ts) (auto split: if_splits)

fun creating :: "task \<Rightarrow> bool" where
  "creating (OnCreateRoom _) = True"
| "creating _ = False"

fun kicking :: "task \<Rightarrow> bool" where
  "kicking (KickOutUserImpl _ _) = True"
| "kicking _ = False"

definition quiet :: "task \<Rightarrow> bool" where
  "quiet t \<longleftrightarrow> \<not> creating t \<and> \<not> kicking t"

text \<open>Tasks that call the contents without looking at the lifecycle never follow a close.\<close>

fun quiet_after_close :: "task list \<Rightarrow> bool" where
  "quiet_after_close [] = True"
| "quiet_after_close (t # ts) = (if t = CloseImpl then list_all quiet ts else quiet_after_close ts)"

lemma quiet_after_close_quiet: "list_all quiet ts \<Longrightarrow> quiet_after_close ts"
  by (induction ts) auto

lemma quiet_after_close_append:
  "quiet_after_close (xs @ ys) \<longleftrightarrow>
     quiet_after_close xs \<and> (if CloseImpl \<in> set xs then list_all quiet ys else quiet_after_close ys)"
  by (induction xs) auto

definition room_ok :: "room \<Rightarrow> task list \<Rightarrow> bool" where
  "room_ok r ts \<longleftrightarrow>
     (r_contents r \<longleftrightarrow> r_lifecycle r = kOpen) \<and>
     om_wf (r_users r) \<and> list_all (\<lambda>(k, u). u_uid u = k) (r_users r) \<and>
     list_all (\<lambda>t. \<not> creating t) (tl ts) \<and> quiet_after_close ts \<and>
     (r_lifecycle r \<noteq> kOpen \<longrightarrow>
        list_all (\<lambda>t. \<not> creating t) ts \<and> (r_users r = [] \<or> list_all quiet ts))"

definition maps_ok :: "room_server \<Rightarrow> bool" where
  "maps_ok s \<longleftrightarrow>
     om_wf (rooms s) \<and> om_wf (user_rooms s) \<and>
     (\<forall>i p. om_find (rooms s) i = Some p \<longrightarrow>
        p < length (heap s) \<and> r_room_id (heap s ! p) = i \<and> r_lifecycle (heap s ! p) = kOpen \<and>
        CloseImpl \<notin> set (tasks_of p (posted s))) \<and>
     (\<forall>u i. om_find (user_rooms s) u = Some i \<longrightarrow> om_find (rooms s) i \<noteq> None)"

definition struct_inv :: "room_server \<Rightarrow> bool" where
  "struct_inv s \<longleftrightarrow>
     maps_ok s \<and> \<not> null_contents s \<and>
     (\<forall>(p, t) \<in> set (posted s). p < length (heap s)) \<and>
     (\<forall>p < length (heap s). room_ok (heap s ! p) (tasks_of p (posted s)))"

lemma struct_inv_frame [simp]:
  "struct_inv (s\<lparr>registry := q\<rparr>) = struct_inv s" "struct_inv (s\<lparr>sent := xs\<rparr>) = struct_inv s"
  "struct_inv (s\<lparr>terminated := b\<rparr>) = struct_inv s"
  by (simp_all add: struct_inv_def maps_ok_def)

lemma struct_room:
  assumes "struct_inv s" and "p < length (heap s)"
  shows "room_ok (heap s ! p) (tasks_of p (posted s))"
  using assms by (simp add: struct_inv_def)

lemma struct_rooms:
  assumes "struct_inv s" and "om_find (rooms s) i = Some p"
  shows "p < length (heap s)" and "r_room_id (heap s ! p) = i" and "r_lifecycle (heap s ! p) = kOpen"
    and "r_contents (heap s ! p)" and "CloseImpl \<notin> set (tasks_of p (posted s))"
proof -
  show len: "p < length (heap s)" and "r_room_id (heap s ! p) = i"
    and "r_lifecycle (heap s ! p) = kOpen" and "CloseImpl \<notin> set (tasks_of p (posted s))"
    using assms by (simp_all add: struct_inv_def maps_ok_def)
  with struct_room[OF assms(1) len] show "r_contents (heap s ! p)" by (simp add: room_ok_def)
qed

lemma tasks_of_fresh:
  assumes "struct_inv s"
  shows "tasks_of (length (heap s)) (posted s) = []"
  using assms by (auto simp: struct_inv_def tasks_of_def filter_empty_conv)

subsection \<open>Posting\<close>

lemma maps_ok_post:
  assumes "maps_ok s" and "t \<noteq> CloseImpl"
  shows "maps_ok (post p t s)"
  using assms by (simp add: maps_ok_def post_def)

lemma struct_inv_post_ok:
  assumes "struct_inv s" and "p < length (heap s)" and "t \<noteq> CloseImpl"
    and "room_ok (heap s ! p) (tasks_of p (posted s) @ [t])"
  shows "struct_inv (post p t s)"
  using assms maps_ok_post[of s t p] by (auto simp: struct_inv_def post_def)

lemma room_ok_snoc:
  "quiet t \<Longrightarrow> room_ok r ts \<Longrightarrow> room_ok r (ts @ [t])"
  "kicking t \<Longrightarrow> room_ok r ts \<Longrightarrow> CloseImpl \<notin> set ts \<Longrightarrow> r_lifecycle r = kOpen \<Longrightarrow> room_ok r (ts @ [t])"
  by (cases ts; cases t; auto simp: room_ok_def quiet_after_close_append quiet_def)+

lemma struct_inv_post_quiet:
  "struct_inv s \<Longrightarrow> p < length (heap s) \<Longrightarrow> quiet t \<Longrightarrow> t \<noteq> CloseImpl \<Longrightarrow> struct_inv (post p t s)"
  by (rule struct_inv_post_ok) (auto intro: room_ok_snoc struct_room)

lemma struct_inv_post_kick:
  assumes "struct_inv s" and "om_find (rooms s) i = Some p"
  shows "struct_inv (kick_out_user p u r s)"
  unfolding kick_out_user_def using struct_rooms[OF assms] assms(1)
  by (intro struct_inv_post_ok room_ok_snoc(2) struct_room) simp_all

lemma post_fields [simp]:
  "heap (post p t s) = heap s" "rooms (post p t s) = rooms s" "user_rooms (post p t s) = user_rooms s"
  "registry (post p t s) = registry s" "sent (post p t s) = sent s" "stopping (post p t s) = stopping s"
  "null_contents (post p t s) = null_contents s" "terminated (post p t s) = terminated s"
  "posted (post p t s) = posted s @ [(p, t)]"
  by (simp_all add: post_def)

lemma struct_inv_send_to_user:
  "struct_inv s \<Longrightarrow> p < length (heap s) \<Longrightarrow> struct_inv (snd (send_to_user p st sender us msg s))"
  by (simp add: send_to_user_def Let_def struct_inv_post_quiet quiet_def)

text \<open>What a contents callback can do to the server: post sends, and kicks for a room that
  the manager knows.\<close>

definition no_kick :: "api_call list \<Rightarrow> bool" where
  "no_kick cs \<longleftrightarrow> list_all (\<lambda>c. case c of ApiKickOutUser _ _ \<Rightarrow> False | _ \<Rightarrow> True) cs"

lemma send_to_user_fields [simp]:
  "heap (snd (send_to_user p st sender us msg s)) = heap s"
  "rooms (snd (send_to_user p st sender us msg s)) = rooms s"
  "user_rooms (snd (send_to_user p st sender us msg s)) = user_rooms s"
  "registry (snd (send_to_user p st sender us msg s)) = registry s"
  "sent (snd (send_to_user p st sender us msg s)) = sent s"
  "terminated (snd (send_to_user p st sender us msg s)) = terminated s"
  "stopping (snd (send_to_user p st sender us msg s)) = stopping s"
  by (simp_all add: send_to_user_def Let_def)

lemma run_api_fields [simp]:
  "heap (run_api p cs s) = heap s" "rooms (run_api p cs s) = rooms s"
  "user_rooms (run_api p cs s) = user_rooms s" "registry (run_api p cs s) = registry s"
  "sent (run_api p cs s) = sent s" "terminated (run_api p cs s) = terminated s"
  "stopping (run_api p cs s) = stopping s"
  by (induction p cs s rule: run_api.induct) (simp_all add: kick_out_user_def)

lemma contents_call_fields [simp]:
  "heap (contents_call p f s) = heap s" "rooms (contents_call p f s) = rooms s"
  "user_rooms (contents_call p f s) = user_rooms s" "registry (contents_call p f s) = registry s"
  "sent (contents_call p f s) = sent s" "terminated (contents_call p f s) = terminated s"
  "stopping (contents_call p f s) = stopping s"
  by (simp_all add: contents_call_def)

lemma struct_inv_run_api:
  assumes "struct_inv s" and "p < length (heap s)" and "no_kick cs \<or> om_find (rooms s) i = Some p"
  shows "struct_inv (run_api p cs s)"
  using assms
proof (induction p cs s rule: run_api.induct)
  case (2 p uids msg cs s)
  then show ?case by (auto simp: struct_inv_send_to_user no_kick_def)
next
  case (3 p u r cs s)
  then have "om_find (rooms s) i = Some p" by (simp add: no_kick_def)
  with 3 show ?case using struct_inv_post_kick[of s i p u r] by (simp add: kick_out_user_def)
qed simp

lemma struct_inv_contents_call:
  assumes "struct_inv s" and "p < length (heap s)" and "r_lifecycle (heap s ! p) = kOpen"
    and "no_kick (f (room_users (heap s ! p))) \<or> om_find (rooms s) i = Some p"
  shows "struct_inv (contents_call p f s)"
  using assms struct_room[OF assms(1,2)]
  by (auto simp: contents_call_def room_ok_def intro: struct_inv_run_api)

lemma no_kick_simps [simp]:
  "no_kick (contents_on_user_enter us u)" "no_kick (contents_on_user_exit us u)"
  "no_kick (contents_on_create_room i)" "no_kick (contents_on_kicked_out_user u r)"
  by (simp_all add: no_kick_def contents_on_user_enter_def contents_on_user_exit_def
      contents_on_create_room_def contents_on_kicked_out_user_def)

subsection \<open>Updating rooms and maps\<close>

lemma upd_room_fields [simp]:
  "rooms (upd_room p f s) = rooms s" "user_rooms (upd_room p f s) = user_rooms s"
  "registry (upd_room p f s) = registry s" "sent (upd_room p f s) = sent s"
  "posted (upd_room p f s) = posted s" "stopping (upd_room p f s) = stopping s"
  "null_contents (upd_room p f s) = null_contents s" "terminated (upd_room p f s) = terminated s"
  "length (heap (upd_room p f s)) = length (heap s)"
  by (simp_all add: upd_room_def)

lemma heap_upd_room:
  "p < length (heap s) \<Longrightarrow> heap (upd_room p f s) ! q = (if q = p then f (heap s ! p) else heap s ! q)"
  by (simp add: upd_room_def nth_list_update)

text \<open>An update that keeps the identity and the lifecycle of an unregistered or open room.\<close>

lemma struct_inv_upd_room:
  assumes "struct_inv s" and "p < length (heap s)"
    and "r_room_id (f (heap s ! p)) = r_room_id (heap s ! p)"
    and "r_lifecycle (f (heap s ! p)) = r_lifecycle (heap s ! p)"
    and "room_ok (f (heap s ! p)) (tasks_of p (posted s))"
  shows "struct_inv (upd_room p f s)"
  using assms by (auto simp: struct_inv_def maps_ok_def heap_upd_room)

lemma room_ok_join:
  "room_ok r ts \<Longrightarrow> r_lifecycle r = kOpen \<Longrightarrow>
     room_ok (r\<lparr>r_users := om_set u \<lparr>u_uid = u, u_route = w\<rparr> (r_users r)\<rparr>) ts"
  by (fastforce simp: room_ok_def list_all_iff dest: set_om_set_subset)

lemma room_ok_erase: "room_ok r ts \<Longrightarrow> room_ok (r\<lparr>r_users := om_erase u (r_users r)\<rparr>) ts"
  by (auto simp: room_ok_def om_erase_def list_all_iff intro: om_wf_filter)

lemma struct_inv_user_rooms:
  assumes "struct_inv s" and "om_wf m"
    and "\<And>u i. om_find m u = Some i \<Longrightarrow> om_find (rooms s) i \<noteq> None"
  shows "struct_inv (s\<lparr>user_rooms := m\<rparr>)"
  using assms by (simp add: struct_inv_def maps_ok_def)

lemma struct_user_rooms:
  assumes "struct_inv s"
  shows "om_wf (user_rooms s)" and "om_find (user_rooms s) u = Some i \<Longrightarrow> om_find (rooms s) i \<noteq> None"
  using assms unfolding struct_inv_def maps_ok_def by blast+

lemma struct_inv_joined:
  assumes "struct_inv s"
  shows "struct_inv (snd (joined_room u p s))"
proof (cases "om_find (rooms s) (r_room_id (heap s ! p)) = Some p")
  case True
  then have "struct_inv (s\<lparr>user_rooms := om_set u (r_room_id (heap s ! p)) (user_rooms s)\<rparr>)"
    using struct_user_rooms[OF assms]
    by (intro struct_inv_user_rooms[OF assms]) (auto simp: om_find_set split: if_splits)
  with True show ?thesis by (simp add: joined_room_def Let_def)
qed (simp add: joined_room_def Let_def assms)

lemma struct_inv_left:
  assumes "struct_inv s"
  shows "struct_inv (snd (left_room u p s))"
proof -
  have "struct_inv (s\<lparr>user_rooms := om_erase u (user_rooms s)\<rparr>)"
    using struct_user_rooms[OF assms]
    by (intro struct_inv_user_rooms[OF assms]) (auto simp: om_find_erase split: if_splits)
  with assms show ?thesis by (simp add: left_room_def Let_def)
qed

lemma joined_left_fields [simp]:
  "heap (snd (joined_room u p s)) = heap s" "rooms (snd (joined_room u p s)) = rooms s"
  "posted (snd (joined_room u p s)) = posted s" "registry (snd (joined_room u p s)) = registry s"
  "heap (snd (left_room u p s)) = heap s" "rooms (snd (left_room u p s)) = rooms s"
  "posted (snd (left_room u p s)) = posted s" "registry (snd (left_room u p s)) = registry s"
  "terminated (snd (joined_room u p s)) = terminated s" "terminated (snd (left_room u p s)) = terminated s"
  by (simp_all add: joined_room_def left_room_def Let_def)

subsection \<open>Creating a room\<close>

lemma room_ok_new: "room_ok (room_new i owner k\<lparr>r_contents := True\<rparr>) [OnCreateRoom i]"
  by (simp add: room_ok_def room_new_def)

lemma manager_create_room_cases:
  assumes "manager_create_room i u w s = Inr (p, s')"
  shows "p = length (heap s)"
    and "room_create_room p s' =
      s\<lparr>heap := heap s @ [room_new i \<lparr>u_uid = u, u_route = w\<rparr> (length (rooms s) mod strand_count)\<lparr>r_contents := True\<rparr>],
        rooms := om_set i (length (heap s)) (rooms s), user_rooms := om_set u i (user_rooms s),
        posted := posted s @ [(length (heap s), OnCreateRoom i)]\<rparr>"
proof -
  from assms show p: "p = length (heap s)"
    by (auto simp: manager_create_room_def Let_def split: if_splits)
  show "room_create_room p s' =
      s\<lparr>heap := heap s @ [room_new i \<lparr>u_uid = u, u_route = w\<rparr> (length (rooms s) mod strand_count)\<lparr>r_contents := True\<rparr>],
        rooms := om_set i (length (heap s)) (rooms s), user_rooms := om_set u i (user_rooms s),
        posted := posted s @ [(length (heap s), OnCreateRoom i)]\<rparr>"
    using assms p by (auto simp: manager_create_room_def room_create_room_def upd_room_def post_def Let_def
        room_new_def nth_append split: if_splits)
qed

lemma struct_inv_create:
  assumes "struct_inv s" and "manager_create_room i u w s = Inr (p, s')"
  shows "struct_inv (room_create_room p s')"
proof -
  let ?n = "length (heap s)"
  let ?s = "room_create_room p s'"
  note s' = manager_create_room_cases(2)[OF assms(2)]
  have fresh: "tasks_of ?n (posted s) = []" by (rule tasks_of_fresh[OF assms(1)])
  have old: "q < ?n \<and> q < Suc ?n" if "om_find (rooms s) j = Some q" for j q
    using struct_rooms(1)[OF assms(1) that] by simp
  have "maps_ok ?s"
    using assms(1) old fresh unfolding s'
    by (auto simp: struct_inv_def maps_ok_def om_find_set nth_append room_new_def split: if_splits)
  moreover have "room_ok (heap ?s ! q) (tasks_of q (posted ?s))" if "q < length (heap ?s)" for q
    using that struct_room[OF assms(1), of q] room_ok_new fresh unfolding s'
    by (cases "q = ?n") (auto simp: nth_append)
  moreover have "\<forall>(q, t) \<in> set (posted ?s). q < length (heap ?s)"
    using assms(1) unfolding s' by (auto simp: struct_inv_def)
  ultimately show ?thesis using assms(1) unfolding struct_inv_def s' by auto
qed

subsection \<open>Closing\<close>

lemma close_impl_open:
  assumes "p < length (heap s)" and "r_lifecycle (heap s ! p) = kOpen" and "r_contents (heap s ! p)"
  shows "close_impl p s = upd_room p (\<lambda>r. r\<lparr>r_contents := False, r_lifecycle := kClosed\<rparr>) s"
  using assms by (auto simp: close_impl_def Let_def upd_room_def contents_on_destroy_room_def)

lemma close_impl_closed: "r_lifecycle (heap s ! p) \<noteq> kOpen \<Longrightarrow> close_impl p s = s"
  by (simp add: close_impl_def)

lemma close_impl_fields [simp]:
  "rooms (close_impl p s) = rooms s" "user_rooms (close_impl p s) = user_rooms s"
  "registry (close_impl p s) = registry s" "sent (close_impl p s) = sent s"
  "posted (close_impl p s) = posted s" "stopping (close_impl p s) = stopping s"
  "terminated (close_impl p s) = terminated s" "length (heap (close_impl p s)) = length (heap s)"
  by (simp_all add: close_impl_def Let_def contents_on_destroy_room_def)

lemma struct_inv_close_impl:
  assumes "struct_inv s" and "p < length (heap s)" and "\<forall>i. om_find (rooms s) i \<noteq> Some p"
    and "list_all (\<lambda>t. \<not> creating t) (tasks_of p (posted s))"
    and "r_users (heap s ! p) = [] \<or> list_all quiet (tasks_of p (posted s))"
  shows "struct_inv (close_impl p s)"
proof (cases "r_lifecycle (heap s ! p) = kOpen")
  case True
  let ?f = "\<lambda>r. r\<lparr>r_contents := False, r_lifecycle := kClosed\<rparr>"
  have "room_ok (?f (heap s ! p)) (tasks_of p (posted s))"
    using struct_room[OF assms(1,2)] assms(4,5) by (simp add: room_ok_def)
  moreover have "r_contents (heap s ! p)" using struct_room[OF assms(1,2)] True by (simp add: room_ok_def)
  ultimately show ?thesis
    using assms(1-3) unfolding close_impl_open[OF assms(2) True \<open>r_contents (heap s ! p)\<close>]
    by (auto simp: struct_inv_def maps_ok_def heap_upd_room)
qed (simp add: close_impl_closed assms(1))

lemma struct_inv_close_room:
  assumes "struct_inv s" and "p < length (heap s)" and "r_users (heap s ! p) = []"
    and "list_all (\<lambda>t. \<not> creating t) (tasks_of p (posted s))"
  shows "struct_inv (close_room p s)"
proof (cases "om_find (rooms s) (r_room_id (heap s ! p)) = Some p")
  case True
  let ?i = "r_room_id (heap s ! p)"
  let ?s = "s\<lparr>rooms := om_erase ?i (rooms s), user_rooms := om_erase_if (\<lambda>_ i'. i' = ?i) (user_rooms s)\<rparr>"
  have wf: "om_wf (user_rooms s)" using assms(1) by (simp add: struct_inv_def maps_ok_def)
  have "maps_ok ?s"
    using assms(1) by (auto simp: struct_inv_def maps_ok_def om_find_erase om.erase_if_keeps[OF wf])
  then have "struct_inv ?s" using assms(1) by (simp add: struct_inv_def)
  moreover have "\<forall>i. om_find (rooms ?s) i \<noteq> Some p"
    using struct_rooms(2)[OF assms(1)] by (auto simp: om_find_erase)
  ultimately have "struct_inv (close_impl p ?s)"
    using assms(2-4) by (intro struct_inv_close_impl) simp_all
  with True show ?thesis by (simp add: close_room_def Let_def)
qed (simp add: close_room_def assms(1))

lemma tasks_of_closes:
  "tasks_of p (map (\<lambda>(_, p). (p, CloseImpl)) m) = replicate (length (filter (\<lambda>(_, p'). p' = p) m)) CloseImpl"
  by (induction m) auto

lemma room_ok_closes: "room_ok r ts \<Longrightarrow> room_ok r (ts @ replicate n CloseImpl)"
proof (induction n)
  case (Suc n)
  then have "room_ok r ((ts @ replicate n CloseImpl) @ [CloseImpl])"
    by (intro room_ok_snoc(1)) (simp_all add: quiet_def)
  then show ?case by (simp add: replicate_append_same)
qed simp

lemma struct_inv_shutdown:
  assumes "struct_inv s"
  shows "struct_inv (manager_shutdown s)"
proof -
  have "p < length (heap s)" if "(i, p) \<in> set (rooms s)" for i p
  proof -
    have "om_wf (rooms s)" using assms by (simp add: struct_inv_def maps_ok_def)
    with that have "om_find (rooms s) i = Some p" by (simp add: om_find_iff)
    then show ?thesis by (rule struct_rooms(1)[OF assms])
  qed
  with assms show ?thesis
    by (auto simp: manager_shutdown_def struct_inv_def maps_ok_def om_find_Nil tasks_of_closes room_ok_closes)
qed

subsection \<open>Tasks\<close>

lemma begin_request_frame: obtains b q where "begin_request c s = (b, s\<lparr>registry := q\<rparr>)"
proof -
  obtain d k t where c: "c = Completion d k t" by (cases c)
  obtain b q where "try_start t (registry s) = (b, q)" by force
  then show thesis using that c by simp
qed

lemma complete_request_frame:
  obtains b q xs where "complete_request sz now c m s = (b, s\<lparr>registry := q, sent := xs\<rparr>)"
proof -
  obtain d k t where c: "c = Completion d k t" by (cases c)
  obtain fin q where f: "queued_finish k t now (registry s) = (fin, q)" by force
  have "\<exists>b q xs. complete_request sz now c m s = (b, s\<lparr>registry := q, sent := xs\<rparr>)"
  proof (cases "fin \<and> ticket_started t (registry s) \<and> \<not> sz m > kMaxPayloadSize")
    case True
    then show ?thesis using c f by (auto simp: channel_send_def Let_def)
  next
    case False
    then have "snd (complete_request sz now c m s) = s\<lparr>registry := q, sent := sent s\<rparr>"
      using c f by (auto simp: channel_send_def Let_def)
    then show ?thesis by (metis prod.collapse)
  qed
  then show thesis using that by blast
qed

lemma struct_inv_complete: "struct_inv (snd (complete_request sz now c m s)) = struct_inv s"
  by (rule complete_request_frame[of sz now c m s]) simp

lemma struct_inv_channel_send [simp]: "struct_inv (snd (channel_send sz d m s)) = struct_inv s"
  by (simp add: channel_send_def)

lemma struct_inv_send_impl: "struct_inv s \<Longrightarrow> struct_inv (snd (send_to_user_impl sz st sender us buf s))"
proof (induction us arbitrary: s)
  case (Cons u us)
  then show ?case by (simp add: channel_send_def Let_def)
qed simp

lemma struct_inv_join_task:
  assumes "struct_inv s" and "p < length (heap s)"
  shows "struct_inv (snd (join_room_task sz now p u w c req i s))"
proof (rule begin_request_frame[of c s])
  fix b q
  assume b: "begin_request c s = (b, s\<lparr>registry := q\<rparr>)"
  let ?s = "s\<lparr>registry := q\<rparr>"
  let ?u = "upd_room p (\<lambda>r. r\<lparr>r_users := om_set u \<lparr>u_uid = u, u_route = w\<rparr> (r_users r)\<rparr>) ?s"
  show ?thesis
  proof (cases "b \<and> r_lifecycle (heap s ! p) = kOpen")
    case False
    then show ?thesis using assms(1) b by (auto simp: join_room_task_def struct_inv_complete split: bool.split)
  next
    case True
    then have "struct_inv ?u"
      using assms struct_room[OF assms] by (intro struct_inv_upd_room) (simp_all add: room_ok_join)
    then have j: "struct_inv (snd (joined_room u p ?u))" by (rule struct_inv_joined)
    obtain joined s2 where s2: "joined_room u p ?u = (joined, s2)" by force
    have heap2: "heap s2 = heap ?u" using joined_left_fields(1)[of u p ?u] s2 by simp
    show ?thesis
    proof (rule complete_request_frame[of sz now c "User2RoomResJoinRoom req [] i joined" s2])
      fix ok q' xs
      assume cr: "complete_request sz now c (User2RoomResJoinRoom req [] i joined) s2 = (ok, s2\<lparr>registry := q', sent := xs\<rparr>)"
      have "struct_inv (contents_call p (\<lambda>us. contents_on_user_enter us u) (s2\<lparr>registry := q', sent := xs\<rparr>))"
        using j s2 heap2 assms(2) True
        by (intro struct_inv_contents_call) (simp_all add: heap_upd_room)
      then show ?thesis using True b s2 cr j
        by (auto simp: join_room_task_def Let_def split: bool.splits)
    qed
  qed
qed

lemma struct_inv_leave_task:
  assumes "struct_inv s" and "p < length (heap s)"
    and "list_all (\<lambda>t. \<not> creating t) (tasks_of p (posted s))"
  shows "struct_inv (snd (leave_room_task sz now p u c req s))"
proof (rule begin_request_frame[of c s])
  fix b q
  assume b: "begin_request c s = (b, s\<lparr>registry := q\<rparr>)"
  let ?s = "s\<lparr>registry := q\<rparr>"
  let ?u = "upd_room p (\<lambda>r. r\<lparr>r_users := om_erase u (r_users r)\<rparr>) ?s"
  show ?thesis
  proof (cases "b \<and> r_lifecycle (heap s ! p) = kOpen \<and> om_find (r_users (heap s ! p)) u \<noteq> None")
    case False
    then show ?thesis using assms(1) b by (auto simp: leave_room_task_def struct_inv_complete split: bool.split)
  next
    case True
    have "struct_inv ?u"
      using assms(1,2) struct_room[OF assms(1,2)] by (intro struct_inv_upd_room) (simp_all add: room_ok_erase)
    then have l: "struct_inv (snd (left_room u p ?u))" by (rule struct_inv_left)
    obtain left s2 where s2: "left_room u p ?u = (left, s2)" by force
    have same: "heap s2 = heap ?u" "posted s2 = posted s" "rooms s2 = rooms s"
      using joined_left_fields(5-7)[of u p ?u] s2 by simp_all
    show ?thesis
    proof (rule complete_request_frame[of sz now c "User2RoomResLeaveRoom req [] left" s2])
      fix ok q' xs
      assume cr: "complete_request sz now c (User2RoomResLeaveRoom req [] left) s2 = (ok, s2\<lparr>registry := q', sent := xs\<rparr>)"
      let ?t = "s2\<lparr>registry := q', sent := xs\<rparr>"
      let ?c = "contents_call p (\<lambda>us. contents_on_user_exit us u) ?t"
      have c: "struct_inv ?c"
        using l s2 same assms(2) True
        by (intro struct_inv_contents_call) (simp_all add: heap_upd_room)
      have "r_contents (heap ?t ! p)"
        using struct_room[OF assms(1,2)] True same assms(2) by (simp add: heap_upd_room room_ok_def)
      then have "list_all (\<lambda>t. \<not> creating t) (tasks_of p (posted ?c))"
        using assms(3) same
        by (simp add: contents_call_def contents_on_user_exit_def send_to_user_def Let_def)
      then have "struct_inv (close_room p ?c)" if "r_users (heap ?u ! p) = []"
        using that c same assms(2) by (intro struct_inv_close_room) simp_all
      then show ?thesis using True b s2 cr l c
        by (auto simp: leave_room_task_def Let_def split: bool.splits)
    qed
  qed
qed

lemma struct_inv_kick_impl:
  assumes "struct_inv s" and "p < length (heap s)"
    and "r_lifecycle (heap s ! p) = kOpen \<or> r_users (heap s ! p) = []"
  shows "struct_inv (snd (kick_out_user_impl sz p u r s))"
proof (cases "om_find (r_users (heap s ! p)) u")
  case (Some member)
  then have "r_users (heap s ! p) \<noteq> []" by (auto simp: om_find_Nil)
  with assms(3) have op: "r_lifecycle (heap s ! p) = kOpen" by simp
  let ?m = "User2RoomNtfLeaveRoom u kKickedOut (Some (kickout_code r))"
  obtain ok s1 where s1: "channel_send sz (u_route member) ?m s = (ok, s1)" by force
  have h: "heap s1 = heap s" using s1 by (auto simp: channel_send_def split: if_splits)
  have i1: "struct_inv s1" using struct_inv_channel_send[of sz _ ?m s] assms(1) s1 by (metis snd_conv)
  let ?c = "contents_call p (\<lambda>_. contents_on_kicked_out_user u r) s1"
  have c: "struct_inv ?c"
    using i1 h op assms(2) by (intro struct_inv_contents_call) simp_all
  have "struct_inv (upd_room p (\<lambda>q. q\<lparr>r_users := om_erase u (r_users q)\<rparr>) ?c)"
    using c h assms(2) struct_room[OF c, of p]
    by (intro struct_inv_upd_room) (simp_all add: room_ok_erase)
  then show ?thesis using Some s1 i1 by (simp add: kick_out_user_impl_def Let_def split: bool.split)
qed (simp add: kick_out_user_impl_def assms(1))

subsection \<open>Running a strand\<close>

lemma take_first_SomeD:
  "take_first P xs = Some (x, ys) \<Longrightarrow> \<exists>us vs. xs = us @ x # vs \<and> ys = us @ vs \<and> P x \<and> list_all (\<lambda>u. \<not> P u) us"
proof (induction xs arbitrary: ys)
  case (Cons a xs)
  show ?case
  proof (cases "P a")
    case True
    with Cons.prems show ?thesis by (intro exI[of _ "[]"] exI[of _ xs]) simp
  next
    case False
    with Cons.prems obtain zs where z: "take_first P xs = Some (x, zs)" "ys = a # zs"
      by (auto split: option.splits)
    from Cons.IH[OF z(1)] obtain us vs where
      "xs = us @ x # vs \<and> zs = us @ vs \<and> P x \<and> list_all (\<lambda>u. \<not> P u) us" by blast
    with z(2) False show ?thesis by (intro exI[of _ "a # us"] exI[of _ vs]) simp
  qed
qed simp

text \<open>The task a strand takes is the first one of its room.\<close>

lemma take_first_tasks:
  assumes "take_first (\<lambda>(p, _). r_strand (h ! p) = k) xs = Some ((p, t), rest)"
  shows "tasks_of p xs = t # tasks_of p rest" and "q \<noteq> p \<Longrightarrow> tasks_of q xs = tasks_of q rest"
    and "set rest \<subseteq> set xs" and "(p, t) \<in> set xs"
proof -
  from take_first_SomeD[OF assms] obtain us vs where
    xs: "xs = us @ (p, t) # vs" "rest = us @ vs" and k: "r_strand (h ! p) = k"
    and us: "list_all (\<lambda>u. \<not> (case u of (p, _) \<Rightarrow> r_strand (h ! p) = k)) us" by auto
  have "tasks_of p us = []" using us k by (auto simp: tasks_of_def list_all_iff filter_empty_conv)
  then show "tasks_of p xs = t # tasks_of p rest" and "q \<noteq> p \<Longrightarrow> tasks_of q xs = tasks_of q rest"
    and "set rest \<subseteq> set xs" and "(p, t) \<in> set xs"
    using xs by auto
qed

lemma room_ok_tl: "room_ok r (t # ts) \<Longrightarrow> room_ok r ts"
  by (cases ts) (auto simp: room_ok_def quiet_after_close_quiet split: if_splits)

lemma struct_inv_pop:
  assumes "struct_inv s" and "take_first (\<lambda>(p, _). r_strand (heap s ! p) = k) (posted s) = Some ((p, t), rest)"
  shows "struct_inv (s\<lparr>posted := rest\<rparr>)" and "p < length (heap s)"
    and "room_ok (heap s ! p) (t # tasks_of p rest)"
    and "t = CloseImpl \<Longrightarrow> om_find (rooms s) i \<noteq> Some p"
proof -
  note tf = take_first_tasks[OF assms(2)]
  show p: "p < length (heap s)" using assms(1) tf(4) by (auto simp: struct_inv_def)
  show ok: "room_ok (heap s ! p) (t # tasks_of p rest)" using struct_room[OF assms(1) p] tf(1) by simp
  have tasks: "set (tasks_of q rest) \<subseteq> set (tasks_of q (posted s))" for q
    using tf(1,2) by (cases "q = p") auto
  have "maps_ok (s\<lparr>posted := rest\<rparr>)"
    using assms(1) tasks unfolding struct_inv_def maps_ok_def by fastforce
  moreover have "room_ok (heap s ! q) (tasks_of q rest)" if "q < length (heap s)" for q
    using struct_room[OF assms(1) that] tf(1,2) room_ok_tl by (cases "q = p") auto
  ultimately show "struct_inv (s\<lparr>posted := rest\<rparr>)"
    using assms(1) tf(3) by (auto simp: struct_inv_def)
  show "om_find (rooms s) i \<noteq> Some p" if "t = CloseImpl"
    using struct_rooms(5)[OF assms(1), of i p] tf(1) that by auto
qed

lemma struct_inv_run_strand:
  assumes "struct_inv s"
  shows "struct_inv (run_strand sz k now s)"
proof (cases "take_first (\<lambda>(p, _). r_strand (heap s ! p) = k) (posted s)")
  case (Some x)
  then obtain p t rest where tf: "take_first (\<lambda>(p, _). r_strand (heap s ! p) = k) (posted s) = Some ((p, t), rest)"
    by (metis prod.collapse)
  let ?s = "s\<lparr>posted := rest\<rparr>"
  note pop = struct_inv_pop[OF assms tf]
  have calm: "list_all (\<lambda>t. \<not> creating t) (tasks_of p (posted ?s))"
    using pop(3) by (simp add: room_ok_def)
  have "struct_inv (snd (run_task sz now p t ?s))"
  proof (cases t)
    case (OnCreateRoom i)
    with pop(3) have "r_lifecycle (heap s ! p) = kOpen" by (auto simp: room_ok_def)
    with OnCreateRoom pop(1,2) show ?thesis by (simp add: struct_inv_contents_call)
  next
    case (KickOutUserImpl u r)
    with pop(3) have "r_lifecycle (heap s ! p) = kOpen \<or> r_users (heap s ! p) = []"
      by (auto simp: room_ok_def quiet_def)
    with KickOutUserImpl pop(1,2) show ?thesis by (simp add: struct_inv_kick_impl)
  next
    case CloseImpl
    with pop(3) have "list_all quiet (tasks_of p rest)" by (simp add: room_ok_def)
    with CloseImpl pop calm show ?thesis by (simp add: struct_inv_close_impl)
  qed (use pop(1,2) calm in \<open>simp_all add: struct_inv_join_task struct_inv_leave_task struct_inv_send_impl\<close>)
  then show ?thesis using tf
    by (cases "run_task sz now p t ?s") (auto simp: run_strand_def split: bool.splits)
qed (simp add: run_strand_def assms)

subsection \<open>Handling messages\<close>

lemma struct_inv_begin: "struct_inv (snd (begin_request c s)) = struct_inv s"
  by (rule begin_request_frame[of c s]) simp

lemma find_room_of_userD: "find_room_of_user u s = Some p \<Longrightarrow> \<exists>i. om_find (rooms s) i = Some p"
  by (auto simp: find_room_of_user_def find_room_def split: option.splits)

lemma struct_inv_handle_create:
  assumes "struct_inv s"
  shows "struct_inv (snd (handle_create_room sz now new_id req u w c s))"
proof (rule begin_request_frame[of c s])
  fix b q
  assume "begin_request c s = (b, s\<lparr>registry := q\<rparr>)"
  then show ?thesis
    using assms struct_inv_create[of "s\<lparr>registry := q\<rparr>" new_id u w]
    by (auto simp: handle_create_room_def Let_def struct_inv_complete split: bool.split sum.split manager_error.split)
qed

lemma struct_inv_handle_join:
  assumes "struct_inv s"
  shows "struct_inv (snd (handle_join_room sz now req u i w c s))"
  using assms struct_rooms(1)[OF assms, of i]
  by (auto simp: handle_join_room_def find_room_def struct_inv_complete struct_inv_begin quiet_def
      intro: struct_inv_post_quiet split: option.split)

lemma struct_inv_handle_leave:
  assumes "struct_inv s"
  shows "struct_inv (snd (handle_leave_room sz now req u c s))"
  using assms struct_rooms(1)[OF assms] find_room_of_userD[of u s]
  by (fastforce simp: handle_leave_room_def struct_inv_complete struct_inv_begin quiet_def
      intro: struct_inv_post_quiet split: option.split)

lemma struct_inv_handle_fwd:
  assumes "struct_inv s"
  shows "struct_inv (handle_fwd_room u msg s)"
proof (cases "find_room_of_user u s")
  case (Some p)
  with find_room_of_userD obtain i where i: "om_find (rooms s) i = Some p" by blast
  with Some show ?thesis
    using assms struct_rooms[OF assms i]
    by (auto simp: handle_fwd_room_def on_recv_message_def intro: struct_inv_contents_call)
qed (simp add: handle_fwd_room_def assms)

lemma struct_inv_handle_request:
  assumes "struct_inv s" and "\<And>c s. struct_inv s \<Longrightarrow> struct_inv (snd (h c s))"
  shows "struct_inv (handle_request h d req now s)"
proof -
  obtain t q where a: "admit (d, req) now (registry s) = (t, q)" by force
  show ?thesis
  proof (cases t)
    case (Some k)
    obtain b s' where h: "h (Completion d (d, req) k) (s\<lparr>registry := q\<rparr>) = (b, s')" by force
    have "struct_inv s'" using assms(2)[of "s\<lparr>registry := q\<rparr>" "Completion d (d, req) k"] assms(1) h by simp
    then show ?thesis using a Some h by (simp add: handle_request_def Let_def split: bool.split)
  qed (use a assms(1) in \<open>simp add: handle_request_def Let_def\<close>)
qed

lemma struct_inv_on_recv:
  assumes "struct_inv s"
  shows "struct_inv (on_recv sz now new_id src m s)"
  using assms
  by (cases m) (auto intro: struct_inv_handle_request struct_inv_handle_create struct_inv_handle_join
      struct_inv_handle_leave struct_inv_handle_fwd)

lemma struct_inv_step: "struct_inv s \<Longrightarrow> struct_inv (room_step sz s e)"
  by (cases e) (simp_all add: struct_inv_on_recv struct_inv_run_strand struct_inv_shutdown)

subsection \<open>Requests\<close>

text \<open>The requests that wait on a strand.\<close>

fun task_req :: "task \<Rightarrow> (req_key \<times> nat) list" where
  "task_req (JoinRoom _ _ (Completion _ k t) _ _) = [(k, t)]"
| "task_req (LeaveRoom _ (Completion _ k t) _) = [(k, t)]"
| "task_req _ = []"

definition posted_reqs :: "(nat \<times> task) list \<Rightarrow> (req_key \<times> nat) list" where
  "posted_reqs xs = concat (map (\<lambda>(_, t). task_req t) xs)"

lemma posted_reqs_simps [simp]:
  "posted_reqs [] = []" "posted_reqs ((p, t) # xs) = task_req t @ posted_reqs xs"
  "posted_reqs (xs @ ys) = posted_reqs xs @ posted_reqs ys"
  by (simp_all add: posted_reqs_def)

definition request_inv :: "room_server \<Rightarrow> bool" where
  "request_inv s \<longleftrightarrow> queued_inv (registry s) \<and> mset (active (registry s)) = mset (posted_reqs (posted s))"

text \<open>The same with one more request, held by the code that runs.\<close>

fun owes :: "completion \<Rightarrow> room_server \<Rightarrow> bool" where
  "owes (Completion _ k t) s \<longleftrightarrow>
     queued_inv (registry s) \<and> mset (active (registry s)) = add_mset (k, t) (mset (posted_reqs (posted s)))"

fun settled :: "completion \<Rightarrow> room_server \<Rightarrow> bool" where
  "settled (Completion _ k t) s \<longleftrightarrow> request_inv s \<and> om_find (active (registry s)) k = None"

lemma settled_request_inv: "settled c s \<Longrightarrow> request_inv s"
  by (cases c) simp

lemma owes_cong: "registry s' = registry s \<Longrightarrow> posted_reqs (posted s') = posted_reqs (posted s) \<Longrightarrow> owes c s' = owes c s"
  by (cases c) simp

lemma request_inv_cong:
  "registry s' = registry s \<Longrightarrow> posted_reqs (posted s') = posted_reqs (posted s) \<Longrightarrow> request_inv s' = request_inv s"
  by (simp add: request_inv_def)

lemma owes_begin: "owes c s \<Longrightarrow> owes c (snd (begin_request c s))"
proof -
  obtain d k t where c: "c = Completion d k t" by (cases c)
  assume "owes c s"
  then show ?thesis using c queued_inv_ticket[of "registry s" kStarted t]
    by (auto simp: try_start_def ticket_cas_def)
qed

lemma owes_beginD: "owes c s \<Longrightarrow> begin_request c s = (b, s') \<Longrightarrow> owes c s'"
  using owes_begin[of c s] by simp

lemma mset_active_find:
  "queued_inv q \<Longrightarrow> mset (active q) = add_mset (k, t) M \<Longrightarrow> om_find (active q) k = Some t"
  by (metis mset_eq_setD mset.simps(2) ex_mset list.set_intros(1) om_find_iff queued_inv_def)

lemma finish_settles:
  assumes "queued_inv q" and "mset (active q) = add_mset (k, t) M"
  shows "queued_inv (snd (queued_finish k t now q))" and "mset (active (snd (queued_finish k t now q))) = M"
    and "om_find (active (snd (queued_finish k t now q))) k = None" and "fst (queued_finish k t now q)"
proof -
  have f: "om_find (active q) k = Some t" by (rule mset_active_find[OF assms])
  have "om_wf (active q)" using assms(1) by (simp add: queued_inv_def)
  from mset_om_erase[OF this f] assms(2) have "mset (om_erase k (active q)) = M" by simp
  with f show "mset (active (snd (queued_finish k t now q))) = M" by (simp add: queued_finish_def)
  show "queued_inv (snd (queued_finish k t now q))" by (rule queued_inv_finish[OF assms(1)])
  from f show "om_find (active (snd (queued_finish k t now q))) k = None" and "fst (queued_finish k t now q)"
    by (simp_all add: queued_finish_def om_find_erase)
qed

lemma complete_settles:
  assumes "owes c s"
  shows "settled c (snd (complete_request sz now c m s))"
proof -
  obtain d k t where c: "c = Completion d k t" by (cases c)
  note f = finish_settles[of "registry s" k t "mset (posted_reqs (posted s))" now]
  obtain fin q where q: "queued_finish k t now (registry s) = (fin, q)" by force
  have "settled c (s\<lparr>registry := q\<rparr>)" using assms c f q by (simp add: request_inv_def)
  then show ?thesis using c q by (simp add: channel_send_def Let_def request_inv_def)
qed

lemma posted_reqs_send_to_user: "posted_reqs (posted (snd (send_to_user p st sender us msg s))) = posted_reqs (posted s)"
  by (simp add: send_to_user_def Let_def)

lemma posted_reqs_run_api: "posted_reqs (posted (run_api p cs s)) = posted_reqs (posted s)"
  by (induction p cs s rule: run_api.induct) (simp_all add: posted_reqs_send_to_user kick_out_user_def)

lemma posted_reqs_contents_call [simp]: "posted_reqs (posted (contents_call p f s)) = posted_reqs (posted s)"
  by (simp add: contents_call_def posted_reqs_run_api)

lemma request_inv_contents_call [simp]: "request_inv (contents_call p f s) = request_inv s"
  by (rule request_inv_cong) simp_all

lemma request_inv_upd_room [simp]: "request_inv (upd_room p f s) = request_inv s"
  by (rule request_inv_cong) simp_all

lemma close_room_reqs [simp]: "registry (close_room p s) = registry s" "posted (close_room p s) = posted s"
  by (simp_all add: close_room_def Let_def)

lemma request_inv_close [simp]:
  "request_inv (close_impl p s) = request_inv s" "request_inv (close_room p s) = request_inv s"
  by (rule request_inv_cong; simp)+

lemma request_inv_join_task:
  assumes "owes c s"
  shows "request_inv (snd (join_room_task sz now p u w c req i s))"
proof -
  obtain b s1 where b: "begin_request c s = (b, s1)" by force
  have o1: "owes c s1" by (rule owes_beginD[OF assms b])
  let ?u = "upd_room p (\<lambda>r. r\<lparr>r_users := om_set u \<lparr>u_uid = u, u_route = w\<rparr> (r_users r)\<rparr>) s1"
  obtain joined s2 where s2: "joined_room u p ?u = (joined, s2)" by force
  have "owes c s2 = owes c ?u"
    using joined_left_fields(3,4)[of u p ?u] s2 by (intro owes_cong) simp_all
  then have o2: "owes c s2" using o1 owes_cong[of ?u s1 c] by simp
  obtain ok s3 where s3: "complete_request sz now c (User2RoomResJoinRoom req [] i joined) s2 = (ok, s3)" by force
  have "request_inv s3" using settled_request_inv[OF complete_settles[OF o2]] s3 by (metis snd_conv)
  then show ?thesis using b s2 s3 settled_request_inv[OF complete_settles[OF o1]]
    by (auto simp: join_room_task_def Let_def split: bool.split)
qed

lemma request_inv_leave_task:
  assumes "owes c s"
  shows "request_inv (snd (leave_room_task sz now p u c req s))"
proof -
  obtain b s1 where b: "begin_request c s = (b, s1)" by force
  have o1: "owes c s1" by (rule owes_beginD[OF assms b])
  let ?u = "upd_room p (\<lambda>r. r\<lparr>r_users := om_erase u (r_users r)\<rparr>) s1"
  obtain left s2 where s2: "left_room u p ?u = (left, s2)" by force
  have "owes c s2 = owes c ?u"
    using joined_left_fields(7,8)[of u p ?u] s2 by (intro owes_cong) simp_all
  then have o2: "owes c s2" using o1 owes_cong[of ?u s1 c] by simp
  obtain ok s3 where s3: "complete_request sz now c (User2RoomResLeaveRoom req [] left) s2 = (ok, s3)" by force
  have "request_inv s3" using settled_request_inv[OF complete_settles[OF o2]] s3 by (metis snd_conv)
  then show ?thesis using b s2 s3 settled_request_inv[OF complete_settles[OF o1]]
    by (auto simp: leave_room_task_def Let_def split: bool.split)
qed

lemma send_impl_fields:
  "registry (snd (send_to_user_impl sz st sender us buf s)) = registry s"
  "posted (snd (send_to_user_impl sz st sender us buf s)) = posted s"
  by (induction us arbitrary: s) (simp_all add: channel_send_def Let_def)

lemma request_inv_kick_impl: "request_inv s \<Longrightarrow> request_inv (snd (kick_out_user_impl sz p u r s))"
proof (cases "om_find (r_users (heap s ! p)) u")
  case (Some member)
  let ?m = "User2RoomNtfLeaveRoom u kKickedOut (Some (kickout_code r))"
  assume "request_inv s"
  then have "request_inv (s\<lparr>sent := xs\<rparr>)" for xs by (simp add: request_inv_def)
  then show ?thesis using Some \<open>request_inv s\<close>
    by (simp add: kick_out_user_impl_def channel_send_def Let_def)
qed (simp add: kick_out_user_impl_def)

lemma take_first_reqs:
  assumes "take_first P xs = Some ((p, t), rest)"
  shows "mset (posted_reqs xs) = mset (task_req t) + mset (posted_reqs rest)"
  using take_first_SomeD[OF assms] by auto

lemma request_inv_run_task:
  assumes "queued_inv (registry s)"
    and "mset (active (registry s)) = mset (task_req t) + mset (posted_reqs (posted s))"
  shows "request_inv (snd (run_task sz now p t s))"
proof (cases t)
  case (JoinRoom u w c req i)
  with assms have "owes c s" by (cases c) simp
  with JoinRoom show ?thesis by (simp add: request_inv_join_task)
next
  case (LeaveRoom u c req)
  with assms have "owes c s" by (cases c) simp
  with LeaveRoom show ?thesis by (simp add: request_inv_leave_task)
next
  case (SendToUserImpl st sender us buf)
  with assms have "request_inv s" by (simp add: request_inv_def)
  then show ?thesis using SendToUserImpl request_inv_cong[of "snd (send_to_user_impl sz st sender us buf s)" s]
    by (simp add: send_impl_fields)
next
  case (KickOutUserImpl u r)
  with assms have "request_inv s" by (simp add: request_inv_def)
  with KickOutUserImpl show ?thesis by (simp add: request_inv_kick_impl)
qed (use assms in \<open>simp_all add: request_inv_def\<close>)

lemma request_inv_run_strand:
  assumes "request_inv s"
  shows "request_inv (run_strand sz k now s)"
proof (cases "take_first (\<lambda>(p, _). r_strand (heap s ! p) = k) (posted s)")
  case (Some x)
  then obtain p t rest where tf: "take_first (\<lambda>(p, _). r_strand (heap s ! p) = k) (posted s) = Some ((p, t), rest)"
    by (metis prod.collapse)
  have "request_inv (snd (run_task sz now p t (s\<lparr>posted := rest\<rparr>)))"
    using assms take_first_reqs[OF tf] by (intro request_inv_run_task) (simp_all add: request_inv_def)
  moreover have "request_inv (x\<lparr>terminated := b\<rparr>) = request_inv x" for x b
    by (simp add: request_inv_def)
  ultimately show ?thesis using tf
    by (cases "run_task sz now p t (s\<lparr>posted := rest\<rparr>)") (auto simp: run_strand_def split: bool.splits)
qed (simp add: run_strand_def assms)

text \<open>A handler that returns has answered or queued its request; one that throws still owes
  it, or had just settled it.\<close>

definition handler_ok :: "(completion \<Rightarrow> room_server \<Rightarrow> bool \<times> room_server) \<Rightarrow> bool" where
  "handler_ok h \<longleftrightarrow> (\<forall>c s. owes c s \<longrightarrow>
     (case h c s of (True, s') \<Rightarrow> request_inv s' | (False, s') \<Rightarrow> owes c s' \<or> settled c s'))"

lemma handler_ok_complete:
  assumes "owes c s"
  shows "case complete_request sz now c m s of (True, s') \<Rightarrow> request_inv s' | (False, s') \<Rightarrow> owes c s' \<or> settled c s'"
proof -
  obtain b s' where r: "complete_request sz now c m s = (b, s')" by force
  have "settled c s'" using complete_settles[OF assms, of sz now m] r by simp
  then show ?thesis using r settled_request_inv[of c s'] by (simp split: bool.split)
qed

lemma handler_ok_create: "handler_ok (handle_create_room sz now new_id req u w)"
  unfolding handler_ok_def
proof (intro allI impI)
  fix c s
  assume o: "owes c s"
  obtain b s1 where b: "begin_request c s = (b, s1)" by force
  have o1: "owes c s1" by (rule owes_beginD[OF o b])
  show "case handle_create_room sz now new_id req u w c s of
      (True, s') \<Rightarrow> request_inv s' | (False, s') \<Rightarrow> owes c s' \<or> settled c s'"
  proof (cases "manager_create_room new_id u w s1")
    case (Inl e)
    then show ?thesis using b o1 handler_ok_complete[OF o1]
      by (cases e; cases b) (simp_all add: handle_create_room_def)
  next
    case (Inr x)
    obtain p s2 where x: "x = (p, s2)" by (cases x)
    have "owes c (room_create_room p s2) = owes c s1"
      using manager_create_room_cases(2)[OF Inr[unfolded x]] by (intro owes_cong) simp_all
    then show ?thesis using b o1 Inr x handler_ok_complete[OF o1] handler_ok_complete[of c "room_create_room p s2"]
      by (cases b) (simp_all add: handle_create_room_def Let_def)
  qed
qed

lemma handler_ok_post:
  assumes "owes c s" and "\<And>d k t. c = Completion d k t \<Longrightarrow> task_req x = [(k, t)]"
  shows "request_inv (post p x s)"
  using assms by (cases c) (simp add: request_inv_def)

lemma handler_ok_join: "handler_ok (handle_join_room sz now req u i w)"
  unfolding handler_ok_def
  using handler_ok_complete[OF owes_begin] handler_ok_post
  by (auto simp: handle_join_room_def split: option.split)

lemma handler_ok_leave: "handler_ok (handle_leave_room sz now req u)"
  unfolding handler_ok_def
  using handler_ok_complete[OF owes_begin] handler_ok_post
  by (auto simp: handle_leave_room_def split: option.split)

lemma request_inv_handle_request:
  assumes "request_inv s" and "handler_ok h"
  shows "request_inv (handle_request h d req now s)"
proof -
  let ?k = "(d, req)"
  have inv: "queued_inv (registry s)" using assms(1) by (simp add: request_inv_def)
  show ?thesis
  proof (cases rule: admit_cases[of ?k now "registry s"])
    case refused
    then show ?thesis using assms(1) queued_inv_prune[OF inv]
      by (simp add: handle_request_def Let_def request_inv_def)
  next
    case granted
    let ?t = "length (tickets (registry s))"
    let ?c = "Completion d ?k ?t"
    let ?s = "s\<lparr>registry := snd (admit ?k now (registry s))\<rparr>"
    have "owes ?c ?s"
      using granted assms(1) queued_inv_admit[OF inv, of ?k now]
      by (simp add: request_inv_def mset_om_set)
    then have h: "case h ?c ?s of (True, s') \<Rightarrow> request_inv s' | (False, s') \<Rightarrow> owes ?c s' \<or> settled ?c s'"
      by (rule assms(2)[unfolded handler_ok_def, rule_format])
    obtain b s' where r: "h ?c ?s = (b, s')" by force
    show ?thesis
    proof (cases b)
      case True
      then show ?thesis using granted r h by (simp add: handle_request_def Let_def)
    next
      case False
      then have "owes ?c s' \<or> settled ?c s'" using r h by simp
      then have "request_inv (s'\<lparr>registry := snd (queued_finish ?k ?t now (registry s'))\<rparr>)"
      proof
        assume "owes ?c s'"
        then show ?thesis using finish_settles[of "registry s'" ?k ?t "mset (posted_reqs (posted s'))" now]
          by (simp add: request_inv_def)
      qed (simp add: queued_finish_def request_inv_def)
      then show ?thesis using granted r False by (simp add: handle_request_def Let_def)
    qed
  qed
qed

lemma active_cancel: "active (queued_cancel k now q) = active q"
  by (simp add: queued_cancel_def Let_def ticket_cancel_def ticket_cas_def split: option.split)

lemma request_inv_on_recv:
  assumes "request_inv s"
  shows "request_inv (on_recv sz now new_id src m s)"
proof (cases m)
  case Ping
  then show ?thesis using assms by (simp add: channel_send_def request_inv_def)
next
  case (User2RoomFwdRoom i u msg)
  then show ?thesis using assms
    by (simp add: handle_fwd_room_def on_recv_message_def split: option.split)
next
  case (User2RoomCancelRequest req)
  then show ?thesis using assms queued_inv_cancel[of "registry s" "(src, req)" now]
    by (simp add: request_inv_def active_cancel)
qed (use assms in \<open>simp_all add: request_inv_handle_request handler_ok_create handler_ok_join handler_ok_leave\<close>)

lemma posted_reqs_closes: "posted_reqs (map (\<lambda>(_, p). (p, CloseImpl)) m) = []"
  by (induction m) auto

lemma request_inv_step: "request_inv s \<Longrightarrow> request_inv (room_step sz s e)"
proof (cases e)
  case ShutdownManager
  assume "request_inv s"
  then show ?thesis using ShutdownManager
    by (simp add: manager_shutdown_def request_inv_def posted_reqs_closes)
qed (simp_all add: request_inv_on_recv request_inv_run_strand)

subsection \<open>Runs\<close>

definition room_inv :: "room_server \<Rightarrow> bool" where
  "room_inv s \<longleftrightarrow> struct_inv s \<and> request_inv s"

lemma room_inv_init: "room_inv (room_server_init cap ret)"
  by (simp add: room_inv_def struct_inv_def maps_ok_def request_inv_def room_server_init_def om_find_Nil queued_inv_init)
    (simp add: queued_init_def)

interpretation room_server: event_machine "room_server_init cap ret" "room_step sz" room_inv
proof unfold_locales
  show "room_inv (room_server_init cap ret)" by (rule room_inv_init)
  show "room_inv s \<Longrightarrow> room_inv (room_step sz s e)" for s e
    by (simp add: room_inv_def struct_inv_step request_inv_step)
qed

end
