(* ===== verification/Room_Properties.thy ===== *)
theory Room_Properties
  imports Room_Invariants
begin

text \<open>
  The properties of the room server, over every run of its events, and the behaviour of
  its main operations.
\<close>

subsection \<open>Draining the strands\<close>

text \<open>How much work a task can still cause: a join or a leave posts at most one
  notification.\<close>

fun weight :: "task \<Rightarrow> nat" where
  "weight (JoinRoom _ _ _ _ _) = 2"
| "weight (LeaveRoom _ _ _) = 2"
| "weight _ = 1"

definition backlog :: "(nat \<times> task) list \<Rightarrow> nat" where
  "backlog xs = sum_list (map (\<lambda>(_, t). weight t) xs)"

lemma backlog_simps [simp]:
  "backlog [] = 0" "backlog ((p, t) # xs) = weight t + backlog xs" "backlog (xs @ ys) = backlog xs + backlog ys"
  by (simp_all add: backlog_def)

lemma weight_pos [simp]: "0 < weight t" "weight t \<noteq> 0"
  by (cases t; simp)+

text \<open>Run the strand of the oldest task, at one instant, until nothing is posted.\<close>

fun drain :: "(message \<Rightarrow> nat) \<Rightarrow> time_point \<Rightarrow> nat \<Rightarrow> room_server \<Rightarrow> room_server" where
  "drain sz now 0 s = s"
| "drain sz now (Suc n) s =
     (case posted s of
        [] \<Rightarrow> s
      | (p, _) # _ \<Rightarrow> drain sz now n (room_step sz s (RunStrand (r_strand (heap s ! p)) now)))"

lemma backlog_complete: "posted (snd (complete_request sz now c m s)) = posted s"
  by (rule complete_request_frame[of sz now c m s]) simp

lemma backlog_begin: "posted (snd (begin_request c s)) = posted s"
  by (rule begin_request_frame[of c s]) simp

lemma backlog_enter_exit:
  "backlog (posted (contents_call p (\<lambda>us. contents_on_user_enter us u) s)) \<le> Suc (backlog (posted s))"
  "backlog (posted (contents_call p (\<lambda>us. contents_on_user_exit us u) s)) \<le> Suc (backlog (posted s))"
  "posted (contents_call p (\<lambda>_. contents_on_create_room i) s) = posted s"
  "posted (contents_call p (\<lambda>_. contents_on_kicked_out_user u r) s) = posted s"
  by (simp_all add: contents_call_def contents_on_user_enter_def contents_on_user_exit_def
      contents_on_create_room_def contents_on_kicked_out_user_def send_to_user_def Let_def)

lemma backlog_join: "backlog (posted (snd (join_room_task sz now p u w c req i s))) \<le> Suc (backlog (posted s))"
proof -
  obtain b s1 where b: "begin_request c s = (b, s1)" by force
  have p1: "posted s1 = posted s" using backlog_begin[of c s] b by simp
  let ?u = "upd_room p (\<lambda>r. r\<lparr>r_users := om_set u \<lparr>u_uid = u, u_route = w\<rparr> (r_users r)\<rparr>) s1"
  obtain joined s2 where s2: "joined_room u p ?u = (joined, s2)" by force
  have p2: "posted s2 = posted s" using joined_left_fields(3)[of u p ?u] s2 p1 by simp
  obtain ok s3 where s3: "complete_request sz now c (User2RoomResJoinRoom req [] i joined) s2 = (ok, s3)" by force
  have p3: "posted s3 = posted s" using backlog_complete[of sz now c _ s2] s3 p2 by (metis snd_conv)
  show ?thesis using b s2 s3 p1 p3 backlog_enter_exit(1)[of p u s3]
    by (auto simp: join_room_task_def Let_def backlog_complete split: bool.split)
qed

lemma backlog_leave: "backlog (posted (snd (leave_room_task sz now p u c req s))) \<le> Suc (backlog (posted s))"
proof -
  obtain b s1 where b: "begin_request c s = (b, s1)" by force
  have p1: "posted s1 = posted s" using backlog_begin[of c s] b by simp
  let ?u = "upd_room p (\<lambda>r. r\<lparr>r_users := om_erase u (r_users r)\<rparr>) s1"
  obtain left s2 where s2: "left_room u p ?u = (left, s2)" by force
  have p2: "posted s2 = posted s" using joined_left_fields(7)[of u p ?u] s2 p1 by simp
  obtain ok s3 where s3: "complete_request sz now c (User2RoomResLeaveRoom req [] left) s2 = (ok, s3)" by force
  have p3: "posted s3 = posted s" using backlog_complete[of sz now c _ s2] s3 p2 by (metis snd_conv)
  show ?thesis using b s2 s3 p1 p3 backlog_enter_exit(2)[of p u s3]
    by (auto simp: leave_room_task_def Let_def backlog_complete split: bool.split)
qed

lemma backlog_kick: "posted (snd (kick_out_user_impl sz p u r s)) = posted s"
  by (simp add: kick_out_user_impl_def channel_send_def Let_def backlog_enter_exit split: option.split)

lemma backlog_run_task: "backlog (posted (snd (run_task sz now p t s))) < backlog (posted s) + weight t"
  using backlog_join backlog_leave
  by (cases t) (simp_all add: send_impl_fields backlog_kick backlog_enter_exit less_Suc_eq_le)

lemma backlog_step:
  assumes "posted s = (p, t) # rest" and "\<not> terminated s"
  shows "backlog (posted (room_step sz s (RunStrand (r_strand (heap s ! p)) now))) < backlog (posted s)"
proof -
  let ?r = "run_task sz now p t (s\<lparr>posted := rest\<rparr>)"
  have "backlog (posted (snd ?r)) < backlog rest + weight t"
    using backlog_run_task[of sz now p t "s\<lparr>posted := rest\<rparr>"] by simp
  then show ?thesis using assms
    by (cases ?r) (auto simp: run_strand_def split: bool.splits)
qed

lemma drain_terminated: "terminated s \<Longrightarrow> drain sz now n s = s"
  by (induction n arbitrary: s) (simp_all split: list.split)

lemma drain_empties:
  "backlog (posted s) \<le> n \<Longrightarrow> posted (drain sz now n s) = [] \<or> terminated (drain sz now n s)"
proof (induction n arbitrary: s)
  case 0
  then show ?case by (cases "posted s") auto
next
  case (Suc n)
  show ?case
  proof (cases "posted s")
    case (Cons x rest)
    obtain p t where x: "x = (p, t)" by (cases x)
    let ?s = "room_step sz s (RunStrand (r_strand (heap s ! p)) now)"
    show ?thesis
    proof (cases "terminated s")
      case True
      then show ?thesis by (simp add: drain_terminated del: drain.simps)
    next
      case False
      then have "backlog (posted ?s) \<le> n"
        using backlog_step[OF Cons[unfolded x] False, of sz now] Suc.prems by linarith
      from Suc.IH[OF this] Cons x show ?thesis by simp
    qed
  qed simp
qed

lemma room_inv_drain: "room_inv s \<Longrightarrow> room_inv (drain sz now n s)"
  by (induction n arbitrary: s) (simp_all add: room_server.ok_step del: room_step.simps split: list.split)

subsection \<open>Tasks that return\<close>

definition fits :: "(message \<Rightarrow> nat) \<Rightarrow> bool" where
  "fits sz \<longleftrightarrow> (\<forall>m. sz m \<le> kMaxPayloadSize)"

lemma channel_send_fits: "fits sz \<Longrightarrow> channel_send sz d m s = (True, s\<lparr>sent := sent s @ [(d, m)]\<rparr>)"
  by (simp add: channel_send_def fits_def not_less)

lemma channel_send_small: "sz m \<le> kMaxPayloadSize \<Longrightarrow> channel_send sz d m s = (True, s\<lparr>sent := sent s @ [(d, m)]\<rparr>)"
  by (simp add: channel_send_def not_less)

lemma complete_request_fits: "fits sz \<Longrightarrow> fst (complete_request sz now c m s)"
  by (cases c) (simp add: channel_send_fits split_beta Let_def)

lemma send_impl_fits: "fits sz \<Longrightarrow> fst (send_to_user_impl sz st sender us buf s)"
  by (induction us arbitrary: s) (simp_all add: channel_send_fits Let_def)

lemma run_task_fits:
  assumes "fits sz"
  shows "fst (run_task sz now p t s)"
proof (cases t)
  case (JoinRoom u w c req i)
  then show ?thesis using complete_request_fits[OF assms]
    by (auto simp: join_room_task_def Let_def split_beta split: bool.split prod.split)
next
  case (LeaveRoom u c req)
  then show ?thesis using complete_request_fits[OF assms]
    by (auto simp: leave_room_task_def Let_def split_beta split: bool.split prod.split)
next
  case (KickOutUserImpl u r)
  then show ?thesis by (simp add: kick_out_user_impl_def channel_send_fits[OF assms] Let_def split: option.split)
qed (simp_all add: send_impl_fits assms)

lemma terminated_frames [simp]:
  "terminated (snd (complete_request sz now c m s)) = terminated s"
  "terminated (snd (begin_request c s)) = terminated s"
  "terminated (snd (channel_send sz d m s)) = terminated s"
  by (rule complete_request_frame[of sz now c m s], simp,
      rule begin_request_frame[of c s], simp, simp add: channel_send_def)

lemma terminated_create: "terminated (snd (handle_create_room sz now new_id req u w c s)) = terminated s"
proof -
  obtain b s1 where b: "begin_request c s = (b, s1)" by force
  have t: "terminated s1 = terminated s" using terminated_frames(2)[of c s] b by simp
  show ?thesis
  proof (cases "manager_create_room new_id u w s1")
    case (Inl e)
    then show ?thesis using b t by (cases e; cases b) (simp_all add: handle_create_room_def)
  next
    case (Inr x)
    obtain p s2 where x: "x = (p, s2)" by (cases x)
    have "terminated (room_create_room p s2) = terminated s1"
      using manager_create_room_cases(2)[OF Inr[unfolded x]] by simp
    then show ?thesis using b t Inr x by (cases b) (simp_all add: handle_create_room_def Let_def)
  qed
qed

lemma terminated_join_leave:
  "terminated (snd (handle_join_room sz now req u i w c s)) = terminated s"
  "terminated (snd (handle_leave_room sz now req u c s)) = terminated s"
  by (simp_all add: handle_join_room_def handle_leave_room_def split: option.split)

lemma terminated_handle_request:
  assumes "\<And>c s. terminated (snd (h c s)) = terminated s"
  shows "terminated (handle_request h d req now s) = terminated s"
proof -
  obtain t q where a: "admit (d, req) now (registry s) = (t, q)" by force
  show ?thesis
  proof (cases t)
    case (Some k)
    obtain b s' where h: "h (Completion d (d, req) k) (s\<lparr>registry := q\<rparr>) = (b, s')" by force
    have "terminated s' = terminated s" using assms[of "Completion d (d, req) k" "s\<lparr>registry := q\<rparr>"] h by simp
    then show ?thesis using a Some h by (simp add: handle_request_def Let_def split: bool.split)
  qed (use a in \<open>simp add: handle_request_def Let_def\<close>)
qed

lemma terminated_on_recv: "terminated (on_recv sz now new_id src m s) = terminated s"
  by (cases m) (simp_all add: terminated_handle_request terminated_create terminated_join_leave
      handle_fwd_room_def on_recv_message_def split: option.split)

lemma terminated_run_task: "terminated (snd (run_task sz now p t s)) = terminated s"
proof (cases t)
  case (JoinRoom u w c req i)
  obtain b s1 where b: "begin_request c s = (b, s1)" by force
  have t1: "terminated s1 = terminated s" using terminated_frames(2)[of c s] b by simp
  let ?u = "upd_room p (\<lambda>r. r\<lparr>r_users := om_set u \<lparr>u_uid = u, u_route = w\<rparr> (r_users r)\<rparr>) s1"
  obtain joined s2 where s2: "joined_room u p ?u = (joined, s2)" by force
  have t2: "terminated s2 = terminated s" using joined_left_fields(9)[of u p ?u] s2 t1 by simp
  obtain ok s3 where s3: "complete_request sz now c (User2RoomResJoinRoom req [] i joined) s2 = (ok, s3)" by force
  have "terminated s3 = terminated s" using terminated_frames(1)[of sz now c _ s2] s3 t2 by (metis snd_conv)
  then show ?thesis using JoinRoom b s2 s3 t1 by (auto simp: join_room_task_def Let_def split: bool.split)
next
  case (LeaveRoom u c req)
  obtain b s1 where b: "begin_request c s = (b, s1)" by force
  have t1: "terminated s1 = terminated s" using terminated_frames(2)[of c s] b by simp
  let ?u = "upd_room p (\<lambda>r. r\<lparr>r_users := om_erase u (r_users r)\<rparr>) s1"
  obtain left s2 where s2: "left_room u p ?u = (left, s2)" by force
  have t2: "terminated s2 = terminated s" using joined_left_fields(10)[of u p ?u] s2 t1 by simp
  obtain ok s3 where s3: "complete_request sz now c (User2RoomResLeaveRoom req [] left) s2 = (ok, s3)" by force
  have "terminated s3 = terminated s" using terminated_frames(1)[of sz now c _ s2] s3 t2 by (metis snd_conv)
  then show ?thesis using LeaveRoom b s2 s3 t1
    by (auto simp: leave_room_task_def Let_def close_room_def split: bool.split)
next
  case (SendToUserImpl st sender us buf)
  have "terminated (snd (send_to_user_impl sz st sender us buf x)) = terminated x" for x
    by (induction us arbitrary: x) (simp_all add: channel_send_def Let_def)
  with SendToUserImpl show ?thesis by simp
next
  case (KickOutUserImpl u r)
  then show ?thesis by (simp add: kick_out_user_impl_def channel_send_def Let_def split: option.split)
qed simp_all

lemma run_strand_fits:
  assumes "fits sz"
  shows "terminated (run_strand sz k now s) = terminated s"
proof (cases "take_first (\<lambda>(p, _). r_strand (heap s ! p) = k) (posted s)")
  case (Some x)
  then obtain p t rest where tf: "take_first (\<lambda>(p, _). r_strand (heap s ! p) = k) (posted s) = Some ((p, t), rest)"
    by (metis prod.collapse)
  obtain ok s' where r: "run_task sz now p t (s\<lparr>posted := rest\<rparr>) = (ok, s')" by force
  have ok using run_task_fits[OF assms, of now p t "s\<lparr>posted := rest\<rparr>"] r by simp
  moreover have "terminated s' = terminated s"
    using terminated_run_task[of sz now p t "s\<lparr>posted := rest\<rparr>"] r by simp
  ultimately show ?thesis using tf r by (simp add: run_strand_def)
qed (simp add: run_strand_def)

lemma room_step_fits: "fits sz \<Longrightarrow> terminated (room_step sz s e) = terminated s"
  by (cases e) (simp_all add: terminated_on_recv run_strand_fits manager_shutdown_def)

lemma run_fits: "fits sz \<Longrightarrow> terminated (run_events (room_step sz) s es) = terminated s"
  by (induction es arbitrary: s) (simp_all add: room_step_fits del: room_step.simps)

lemma drain_fits: "fits sz \<Longrightarrow> terminated (drain sz now n s) = terminated s"
  by (induction n arbitrary: s) (simp_all add: room_step_fits del: room_step.simps split: list.split)

subsection \<open>Sending to the members\<close>

lemma users_all_found:
  assumes "om_wf m" and "list_all (\<lambda>(k, u). u_uid u = k) m"
  shows "List.map_filter (om_find m) (map (\<lambda>(_, u). u_uid u) m) = map snd m"
proof -
  have "om_find m (u_uid (snd kv)) = Some (snd kv)" if "kv \<in> set m" for kv
    using assms that by (cases kv) (auto simp: om_find_iff list_all_iff)
  then have "map (\<lambda>kv. the (om_find m (u_uid (snd kv)))) (filter (\<lambda>kv. om_find m (u_uid (snd kv)) \<noteq> None) m) = map snd m"
    by (auto intro!: map_cong filter_True)
  then show ?thesis by (simp add: List.map_filter_def filter_map o_def split_beta)
qed

text \<open>A message to all current users is posted for exactly the members, in uid order.\<close>

lemma send_to_members:
  assumes "room_ok (heap s ! p) ts"
  shows "send_to_user p kContent None (room_users (heap s ! p)) msg s =
    (True, post p (SendToUserImpl kContent None (map snd (r_users (heap s ! p))) msg) s)"
  using users_all_found[of "r_users (heap s ! p)"] assms
  by (simp add: send_to_user_def room_users_def Let_def room_ok_def)

definition fwd_to :: "string \<Rightarrow> user \<Rightarrow> RoutingId \<times> message" where
  "fwd_to msg u = (u_route u, User2RoomFwdClient kContent [] (u_uid u) msg)"

lemma send_impl_delivers:
  "\<forall>u \<in> set us. sz (User2RoomFwdClient kContent [] (u_uid u) msg) \<le> kMaxPayloadSize \<Longrightarrow>
   send_to_user_impl sz kContent None us msg s = (True, s\<lparr>sent := sent s @ map (fwd_to msg) us\<rparr>)"
  by (induction us arbitrary: s) (simp_all add: channel_send_small Let_def fwd_to_def)

lemma fwd_posted:
  assumes "struct_inv s" and "find_room_of_user u s = Some p" and "CHR '':'' \<notin> set msg"
  shows "handle_fwd_room u msg s =
     post p (SendToUserImpl kContent None (map snd (r_users (heap s ! p))) (''('' @ u @ ''):'' @ msg)) s"
proof -
  obtain i where i: "om_find (rooms s) i = Some p" using find_room_of_userD[OF assms(2)] by blast
  note r = struct_rooms[OF assms(1) i]
  have "length (getline_loop (CHR '':'') msg) \<le> 1"
    using assms(3) by (cases "msg = []") (simp_all add: getline_loop_last)
  then have "contents_on_recv_message us u msg = [ApiSendToUser us (''('' @ u @ ''):'' @ msg)]" for us
    by (simp add: contents_on_recv_message_def Let_def)
  then show ?thesis
    using assms(2) r(4) send_to_members[OF struct_room[OF assms(1) r(1)]]
    by (simp add: handle_fwd_room_def on_recv_message_def contents_call_def del: append.simps)
qed

subsection \<open>Properties\<close>

text \<open>C28. Membership is consistent in every run: a user the manager has a room for is in
  the map of a room that exists, is registered under that id, is open, and has its contents.\<close>

theorem room_membership:
  assumes "om_find (user_rooms (run_events (room_step sz) (room_server_init cap ret) es)) u = Some i"
  shows "let s = run_events (room_step sz) (room_server_init cap ret) es in
     \<exists>p. find_room_of_user u s = Some p \<and> p < length (heap s) \<and> r_room_id (heap s ! p) = i \<and>
         r_lifecycle (heap s ! p) = kOpen \<and> r_contents (heap s ! p)"
proof -
  let ?s = "run_events (room_step sz) (room_server_init cap ret) es"
  have inv: "struct_inv ?s" using room_server.ok_run[of sz cap ret es] by (simp add: room_inv_def)
  from struct_user_rooms(2)[OF inv assms] obtain p where p: "om_find (rooms ?s) i = Some p" by auto
  with struct_rooms[OF inv p] assms show ?thesis by (simp add: find_room_of_user_def find_room_def)
qed

lemmas room_eval = room_server_init_def queued_eval manager_create_room_def room_new_def
  room_create_room_def upd_room_def post_def strand_count_def channel_send_def handle_request_def
  handle_create_room_def handle_join_room_def handle_leave_room_def run_strand_def contents_call_def
  join_room_task_def leave_room_task_def joined_room_def left_room_def find_room_def
  find_room_of_user_def send_to_user_def room_users_def close_room_def close_impl_def
  contents_on_create_room_def contents_on_user_enter_def contents_on_user_exit_def
  contents_on_destroy_room_def kMaxPayloadSize_def map_filter_simps

theorem room_membership_witness:
  "let s = run_events (room_step (\<lambda>_. 9)) (room_server_init 8 30) [Recv 0 12345 ''user-1'' (User2RoomReqCreateRoom 1 ''ann'')] in
     \<exists>p. find_room_of_user ''ann'' s = Some p \<and> p < length (heap s) \<and> r_room_id (heap s ! p) = 12345 \<and>
         r_lifecycle (heap s ! p) = kOpen \<and> r_contents (heap s ! p)"
  by (rule room_membership) (simp add: room_eval)


text \<open>In every run the requests that are admitted and not finished are exactly those that
  wait on a strand, each once: no request is lost and none is finished twice.\<close>

theorem requests_accounted:
  "let s = run_events (room_step sz) (room_server_init cap ret) es in
     mset (active (registry s)) = mset (posted_reqs (posted s))"
  using room_server.ok_run[of sz cap ret es] by (simp add: room_inv_def request_inv_def)

text \<open>C5. Every request is settled: from the state any run reaches, running the strands as often
  as the backlog says empties them and leaves no request active; the one way not to get
  there is an exception on a strand, and that takes a message too large for a frame.\<close>

theorem requests_settle:
  "let s = run_events (room_step sz) (room_server_init cap ret) es;
       s' = drain sz now (backlog (posted s)) s
   in (terminated s' \<or> posted s' = [] \<and> active (registry s') = []) \<and>
      (terminated s' \<longrightarrow> (\<exists>m. kMaxPayloadSize < sz m))"
proof -
  let ?s = "run_events (room_step sz) (room_server_init cap ret) es"
  let ?d = "drain sz now (backlog (posted ?s)) ?s"
  have "terminated ?d \<longrightarrow> \<not> fits sz"
    using drain_fits[of sz] run_fits[of sz] by (auto simp: room_server_init_def)
  moreover have "terminated ?d \<or> posted ?d = []" using drain_empties[of ?s "backlog (posted ?s)" sz now] by blast
  moreover have "room_inv ?d" using room_inv_drain room_server.ok_run by blast
  ultimately show ?thesis by (auto simp: Let_def room_inv_def request_inv_def fits_def not_le)
qed

theorem requests_settle_witness:
  "let s = run_events (room_step (\<lambda>_. 9)) (room_server_init 8 30)
             [Recv 0 12345 ''user-1'' (User2RoomReqCreateRoom 1 ''ann''),
              Recv 1 0 ''user-1'' (User2RoomReqJoinRoom 2 ''bob'' 12345)];
       s' = drain (\<lambda>_. 9) 2 (backlog (posted s)) s
   in posted s' = [] \<and> active (registry s') = []"
  using requests_settle[of "\<lambda>_. 9" 8 30 "[Recv 0 12345 ''user-1'' (User2RoomReqCreateRoom 1 ''ann''),
              Recv 1 0 ''user-1'' (User2RoomReqJoinRoom 2 ''bob'' 12345)]" 2]
  by (auto simp: Let_def kMaxPayloadSize_def simp del: run_events_simps drain.simps)

text \<open>C36. A join that was not cancelled: the member is registered with its route, the response
  is sent before anything else, and only then, and only for a new member, the members are
  notified; the manager finds the room for the user.\<close>

theorem join_room_effect:
  assumes "struct_inv s" and "owes (Completion d k t) s" and "om_find (rooms s) i = Some p"
    and "tickets (registry s) ! t = kQueued" and "sz (User2RoomResJoinRoom req [] i True) \<le> kMaxPayloadSize"
  shows "let r = heap s ! p; members = om_set u \<lparr>u_uid = u, u_route = w\<rparr> (r_users r);
             (ok, s') = join_room_task sz now p u w (Completion d k t) req i s
         in ok \<and> sent s' = sent s @ [(d, User2RoomResJoinRoom req [] i True)] \<and>
            r_users (heap s' ! p) = members \<and> find_room_of_user u s' = Some p \<and>
            posted s' = posted s @
              (if om_find (r_users r) u = None
               then [(p, SendToUserImpl kContent None (map snd members) (''('' @ u @ '') has entered''))] else [])"
proof -
  note r = struct_rooms[OF assms(1,3)]
  have act: "om_find (active (registry s)) k = Some t" using assms(2) mset_active_find by simp
  have t: "t < length (tickets (registry s))"
    using active_ticket_valid[OF _ act] assms(2) by simp
  let ?u = "\<lparr>u_uid = u, u_route = w\<rparr>"
  let ?r = "(heap s ! p)\<lparr>r_users := om_set u ?u (r_users (heap s ! p))\<rparr>"
  have ok: "room_ok ?r (tasks_of p (posted s))"
    using struct_room[OF assms(1) r(1)] r(3) by (rule room_ok_join)
  have found: "List.map_filter (om_find (r_users ?r)) (map (\<lambda>(_, u). u_uid u) (r_users ?r)) = map snd (r_users ?r)"
    using ok by (intro users_all_found) (simp_all add: room_ok_def)
  show ?thesis
    using r t act assms(3,4) found
    by (simp add: join_room_task_def try_start_def ticket_cas_def Let_def joined_room_def upd_room_def
        ticket_started_def queued_finish_def channel_send_small[where sz = sz, OF assms(5)] find_room_of_user_def find_room_def
        om_find_set contents_call_def contents_on_user_enter_def send_to_user_def room_users_def post_def)
qed

definition one_room :: room_server where
  "one_room =
     \<lparr>heap = [room_new 12345 \<lparr>u_uid = ''ann'', u_route = ''user-1''\<rparr> 0\<lparr>r_contents := True\<rparr>],
      rooms = [(12345, 0)], user_rooms = [(''ann'', 12345)], stopping = False,
      registry = \<lparr>capacity = 8, retention = 30, active = [((''user-1'', 2), 0)], terminal = [], tickets = [kQueued]\<rparr>,
      posted = [], sent = [], null_contents = False, terminated = False\<rparr>"

lemma one_room_ok: "struct_inv one_room" "owes (Completion ''user-1'' (''user-1'', 2) 0) one_room"
  by (auto simp: one_room_def struct_inv_def maps_ok_def room_ok_def room_new_def om_find_def queued_inv_def
      inj_on_def dom_def split: if_splits)

theorem join_room_effect_witness:
  "let (ok, s') = join_room_task (\<lambda>_. 9) 5 0 ''bob'' ''user-1'' (Completion ''user-1'' (''user-1'', 2) 0) 2 12345 one_room
   in ok \<and> sent s' = [(''user-1'', User2RoomResJoinRoom 2 [] 12345 True)] \<and> find_room_of_user ''bob'' s' = Some 0"
  using join_room_effect[OF one_room_ok, of 12345 0 "\<lambda>_. 9" 2 "''bob''" "''user-1''" 5]
  by (auto simp: one_room_def om_find_def kMaxPayloadSize_def Let_def split: prod.splits)

text \<open>C37. A join or leave that was cancelled before it started changes no room and no membership
  and sends nothing; it only gives its slot back.\<close>

theorem cancelled_request_no_effect:
  assumes "owes (Completion d k t) s" and "tickets (registry s) ! t = kCancelled"
  shows "let c = Completion d k t;
             s1 = snd (join_room_task sz now p u w c req i s);
             s2 = snd (leave_room_task sz now p u c req s)
         in s1 = s\<lparr>registry := registry s1\<rparr> \<and> s2 = s\<lparr>registry := registry s2\<rparr> \<and>
            om_find (active (registry s1)) k = None \<and> om_find (active (registry s2)) k = None"
proof -
  have "om_find (active (registry s)) k = Some t" using assms(1) mset_active_find by simp
  then show ?thesis using assms(2)
    by (simp add: join_room_task_def leave_room_task_def try_start_def ticket_cas_def Let_def
        ticket_started_def queued_finish_def om_find_erase)
qed

theorem cancelled_request_no_effect_witness:
  "let s = one_room\<lparr>registry := \<lparr>capacity = 8, retention = 30, active = [((''user-1'', 2), 0)], terminal = [],
              tickets = [kCancelled]\<rparr>\<rparr>;
       s1 = snd (join_room_task (\<lambda>_. 9) 5 0 ''bob'' ''user-1'' (Completion ''user-1'' (''user-1'', 2) 0) 2 12345 s)
   in s1 = s\<lparr>registry := registry s1\<rparr>"
  using cancelled_request_no_effect[of "''user-1''" "(''user-1'', 2)" 0
      "one_room\<lparr>registry := \<lparr>capacity = 8, retention = 30, active = [((''user-1'', 2), 0)], terminal = [], tickets = [kCancelled]\<rparr>\<rparr>"
      "\<lambda>_. 9" 5 0 "''bob''" "''user-1''" 2 12345]
  by (simp add: Let_def one_room_def queued_inv_def inj_on_def dom_def om_find_def kMaxPayloadSize_def)

text \<open>C38. Chat reaches exactly the members: a message with no colon that a member forwards is
  posted on the room's strand, and its task sends one notification to every member, in the
  order of the uids, over the member's route, with the text \<open>(sender):message\<close>.\<close>

theorem fwd_room_echo:
  assumes "struct_inv s" and "find_room_of_user u s = Some p" and "CHR '':'' \<notin> set msg"
    and "\<forall>x \<in> set (map snd (r_users (heap s ! p))).
           sz (User2RoomFwdClient kContent [] (u_uid x) (''('' @ u @ ''):'' @ msg)) \<le> kMaxPayloadSize"
  shows "let s1 = handle_fwd_room u msg s;
             task = SendToUserImpl kContent None (map snd (r_users (heap s ! p))) (''('' @ u @ ''):'' @ msg)
         in posted s1 = posted s @ [(p, task)] \<and>
            sent (snd (run_task sz now p task s1)) =
              sent s @ map (fwd_to (''('' @ u @ ''):'' @ msg)) (map snd (r_users (heap s ! p)))"
  by (simp add: fwd_posted[OF assms(1-3)] Let_def send_impl_delivers[OF assms(4)] del: append.simps)

theorem fwd_room_echo_witness:
  "let s1 = handle_fwd_room ''ann'' ''hi'' one_room;
       task = SendToUserImpl kContent None (map snd (r_users (heap one_room ! 0))) (''('' @ ''ann'' @ ''):'' @ ''hi'')
   in sent (snd (run_task (\<lambda>_. 9) 5 0 task s1)) = [(''user-1'', User2RoomFwdClient kContent [] ''ann'' ''(ann):hi'')]"
  using fwd_room_echo[OF one_room_ok(1), of "''ann''" 0 "''hi''" "\<lambda>_. 9" 5]
  by (simp add: one_room_def find_room_of_user_def find_room_def om_find_def room_new_def
      kMaxPayloadSize_def Let_def fwd_to_def)

subsection \<open>What the code does not guarantee\<close>

text \<open>A kick does not end the membership the manager keeps: the kicked user is gone from the
  room's members, but the manager still maps the user to the room, and what the user forwards
  is still posted to the remaining members.\<close>

theorem kicked_user_still_heard:
  assumes "struct_inv s" and "find_room_of_user u s = Some p"
    and "om_find (r_users (heap s ! p)) u = Some m" and "CHR '':'' \<notin> set msg"
    and "sz (User2RoomNtfLeaveRoom u kKickedOut (Some (kickout_code r))) \<le> kMaxPayloadSize"
  shows "let s1 = snd (kick_out_user_impl sz p u r s) in
     om_find (r_users (heap s1 ! p)) u = None \<and> find_room_of_user u s1 = Some p \<and>
     posted (handle_fwd_room u msg s1) =
       posted s1 @ [(p, SendToUserImpl kContent None (map snd (r_users (heap s1 ! p))) (''('' @ u @ ''):'' @ msg))]"
proof -
  obtain i where i: "om_find (rooms s) i = Some p" using find_room_of_userD[OF assms(2)] by blast
  note rm = struct_rooms[OF assms(1) i]
  let ?s1 = "snd (kick_out_user_impl sz p u r s)"
  have s1: "heap ?s1 ! p = (heap s ! p)\<lparr>r_users := om_erase u (r_users (heap s ! p))\<rparr>"
    and maps: "find_room_of_user v ?s1 = find_room_of_user v s" for v
    using assms(3) rm(1) by (simp_all add: kick_out_user_impl_def channel_send_small[where sz = sz, OF assms(5)] Let_def
        upd_room_def find_room_of_user_def find_room_def split: option.split)
  have "struct_inv ?s1" using assms(1) rm(1,3) by (simp add: struct_inv_kick_impl)
  from fwd_posted[OF this _ assms(4)] s1 maps assms(2) show ?thesis by (simp add: Let_def om_find_erase)
qed

theorem kicked_user_still_heard_witness:
  "let s1 = snd (kick_out_user_impl (\<lambda>_. 9) 0 ''ann'' kRoomOwner one_room) in
     find_room_of_user ''ann'' s1 = Some 0 \<and> om_find (r_users (heap s1 ! 0)) ''ann'' = None"
  using kicked_user_still_heard[OF one_room_ok(1), of "''ann''" 0 "\<lparr>u_uid = ''ann'', u_route = ''user-1''\<rparr>" "''hi''" "\<lambda>_. 9" kRoomOwner]
  by (simp add: one_room_def find_room_of_user_def find_room_def om_find_def room_new_def
      kMaxPayloadSize_def Let_def)

text \<open>Room ids are random and not checked: creating a room under an id in use replaces the
  live room, and every user of the old room is routed to the new one from then on.\<close>

theorem room_id_collision:
  assumes "struct_inv s" and "find_room i s = Some p" and "\<not> stopping s"
    and "om_find (user_rooms s) v = Some i" and "v \<noteq> u"
  shows "\<exists>q s'. manager_create_room i u w s = Inr (q, s') \<and> q \<noteq> p \<and> find_room i s' = Some q \<and>
     find_room_of_user v s' = Some q \<and> r_lifecycle (heap s' ! p) = kOpen"
proof -
  have p: "p < length (heap s)" "r_lifecycle (heap s ! p) = kOpen"
    using struct_rooms[OF assms(1), of i p] assms(2) by (simp_all add: find_room_def)
  with assms(3-5) show ?thesis
    by (simp add: manager_create_room_def Let_def find_room_def find_room_of_user_def om_find_set nth_append)
qed

theorem room_id_collision_witness:
  "\<exists>q s'. manager_create_room 12345 ''bob'' ''user-2'' one_room = Inr (q, s') \<and> q \<noteq> 0 \<and> find_room 12345 s' = Some q \<and>
     find_room_of_user ''ann'' s' = Some q \<and> r_lifecycle (heap s' ! 0) = kOpen"
  by (rule room_id_collision[OF one_room_ok(1)]) (simp_all add: one_room_def find_room_def om_find_def)

text \<open>The delivery of a forwarded message is not on the room's strand: when the last member's
  leave runs between the channel thread's lookup of the room and its call of
  \<open>on_recv_message\<close>, the call finds the contents released.\<close>

theorem fwd_room_races_close:
  "let c = Completion ''user-1'' (''user-1'', 2) 0;
       s = snd (leave_room_task (\<lambda>_. 9) 5 0 ''ann'' c 2 one_room)
   in find_room_of_user ''ann'' one_room = Some 0 \<and> \<not> null_contents s \<and>
      null_contents (on_recv_message 0 ''ann'' ''hi'' s)"
  by (simp add: one_room_def room_eval om_erase_def on_recv_message_def)

text \<open>Text that grows past a frame ends the process: when the notification for the first
  member exceeds the payload limit, serializing it throws on the strand and the exception
  leaves the worker thread.\<close>

theorem overlong_text_terminates:
  assumes "posted s = (p, SendToUserImpl kContent None (u # us) msg) # rest"
    and "sz (User2RoomFwdClient kContent [] (u_uid u) msg) > kMaxPayloadSize"
  shows "terminated (room_step sz s (RunStrand (r_strand (heap s ! p)) now))"
  using assms by (simp add: run_strand_def channel_send_def)

theorem overlong_text_terminates_witness:
  "let s = one_room\<lparr>posted := [(0, SendToUserImpl kContent None [\<lparr>u_uid = ''ann'', u_route = ''user-1''\<rparr>] (replicate (Suc kMaxPayloadSize) CHR ''x''))]\<rparr>
   in terminated (room_step (\<lambda>m. case m of User2RoomFwdClient _ _ _ t \<Rightarrow> length t | _ \<Rightarrow> 2) s
        (RunStrand (r_strand (heap s ! 0)) 1))"
  unfolding Let_def
  by (rule overlong_text_terminates[where u = "\<lparr>u_uid = ''ann'', u_route = ''user-1''\<rparr>" and us = "[]" and rest = "[]"
        and msg = "replicate (Suc kMaxPayloadSize) CHR ''x''"]) simp_all

end
