(* ===== verification/Intranet.thy ===== *)
theory Intranet
  imports User_Properties Room_Properties
begin

text \<open>
  The messages between the two servers as bytes: the handler that \<open>user_channel::start_async\<close>
  gives to its router, and the one that \<open>room_channel::start\<close> gives to its dealer. Both take a
  whole frame apart with \<open>destruct_buffer\<close> and pass it to the dispatcher with a null link.
\<close>

definition user_channel_on_frame ::
  "(message_kind \<Rightarrow> raw_buffer \<Rightarrow> bool \<times> message) \<Rightarrow> (message \<Rightarrow> nat) \<Rightarrow> time_point \<Rightarrow> RoomId \<Rightarrow> RoutingId
     \<Rightarrow> raw_buffer \<Rightarrow> room_server \<Rightarrow> room_server" where
  "user_channel_on_frame parse sz now new_id source buffer s =
     (let destructed = destruct_buffer buffer
      in case room_receive parse (mtype destructed) (payload destructed) of
           UserChannelRecv m \<Rightarrow> room_step sz s (Recv now new_id source m)
         | RoomLoggedUnknown \<Rightarrow> s
         | RoomNoHandler \<Rightarrow> s)"

definition room_channel_on_frame ::
  "(message_kind \<Rightarrow> raw_buffer \<Rightarrow> bool \<times> message) \<Rightarrow> (message \<Rightarrow> nat) \<Rightarrow> time_point \<Rightarrow> raw_buffer
     \<Rightarrow> user_server \<Rightarrow> user_server" where
  "room_channel_on_frame parse sz now buffer u =
     (let destructed = destruct_buffer buffer
      in user_step parse sz u (Receive (mtype destructed) (payload destructed) None now))"

lemma find_kind: "find (\<lambda>k'. k' = k) ks = (if k \<in> set ks then Some k else None)"
  by (induction ks) auto

text \<open>The frame that \<open>send_request\<close>, \<open>send_response\<close> and the notifications give to their channel.\<close>

lemma sent_frame:
  assumes "serialize sz enc (message_type (kind_of m)) m = Inr buffer" and "sz m = length (enc m)"
  shows "mtype (destruct_buffer buffer) = message_type (kind_of m)" and "payload (destruct_buffer buffer) = enc m"
    and "status (destruct_buffer buffer) = kComplete"
proof -
  have len: "length (enc m) \<le> kMaxPayloadSize"
    using assms by (auto simp: serialize_def Let_def split: if_splits)
  have "buffer = frame (message_type (kind_of m)) (enc m)"
    using serialize_eq_frame[of sz m enc "message_type (kind_of m)", OF assms(2) len] assms(1) by simp
  with destruct_frame[OF len, of "message_type (kind_of m)" "[]"]
  show "mtype (destruct_buffer buffer) = message_type (kind_of m)" "payload (destruct_buffer buffer) = enc m"
    "status (destruct_buffer buffer) = kComplete" by (simp_all del: message_type.simps)
qed

subsection \<open>Properties\<close>

text \<open>C17. The bytes between the servers are transparent: a request that the user server serializes
  reaches the room server as that request and nothing else, and a response or notification of
  the room server reaches the room channel of the user server, as long as protobuf parses what
  it encoded.\<close>

theorem intranet_transparent:
  assumes "serialize sz enc (message_type (kind_of m)) m = Inr buffer" and "sz m = length (enc m)"
    and "parse (kind_of m) (enc m) = (True, m)"
  shows "(kind_of m \<in> set user_channel_kinds \<longrightarrow>
      user_channel_on_frame parse sz now new_id source buffer s = room_step sz s (Recv now new_id source m)) \<and>
    (kind_of m \<in> set room_channel_kinds \<longrightarrow> \<not> crashed u \<longrightarrow>
      room_channel_on_frame parse sz now buffer u = room_channel_on_recv sz now m u)"
proof -
  note f = sent_frame[OF assms(1,2)]
  have "room_receive parse (message_type (kind_of m)) (enc m) = UserChannelRecv m" if "kind_of m \<in> set user_channel_kinds"
    using that assms(3) by (simp add: room_routing find_kind del: message_type.simps)
  moreover have "user_receive parse (message_type (kind_of m)) (enc m) None = RoomChannelRecv m"
    if "kind_of m \<in> set room_channel_kinds"
  proof -
    have "kind_of m \<notin> set session_kinds" using that by (auto simp: room_channel_kinds_def session_kinds_def)
    then show ?thesis using that assms(3)
      by (simp add: user_receive_def user_routing find_kind deserialize_def del: message_type.simps)
  qed
  ultimately show ?thesis
    by (auto simp: user_channel_on_frame_def room_channel_on_frame_def f Let_def user_step.simps simp del: message_type.simps)
qed

text \<open>A request whose encoding is nine bytes long, whatever they are.\<close>

theorem intranet_transparent_witness:
  "user_channel_on_frame (\<lambda>_ _. (True, User2RoomReqCreateRoom 1 ''ann'')) (\<lambda>_. 9) 0 12345 ''user-1''
      (frame (message_type kUser2RoomReqCreateRoom) (replicate 9 7)) (room_server_init 8 30) =
    room_step (\<lambda>_. 9) (room_server_init 8 30) (Recv 0 12345 ''user-1'' (User2RoomReqCreateRoom 1 ''ann''))"
proof -
  let ?m = "User2RoomReqCreateRoom 1 ''ann''"
  have "serialize (\<lambda>_. 9) (\<lambda>_. replicate 9 7) (message_type (kind_of ?m)) ?m =
      Inr (frame (message_type kUser2RoomReqCreateRoom) (replicate 9 7))"
    by (subst serialize_eq_frame) (simp_all add: kMaxPayloadSize_def)
  from intranet_transparent[OF this, of "\<lambda>_ _. (True, ?m)" 0 12345 "''user-1''" "room_server_init 8 30" user_server_init]
  show ?thesis by (simp add: user_channel_kinds_def del: message_type.simps room_step.simps)
qed

text \<open>
  Neither handler looks at the status of the frame. A frame that is too short, or announces
  more than the limit, is dispatched with the default type, which is \<open>kPing\<close>: the room server
  answers it, and the user server passes it to a session that is not there.
\<close>

theorem malformed_frame_is_ping:
  assumes "status (destruct_buffer buffer) \<noteq> kComplete" and "parse kPing [] = (True, Ping)"
  shows "user_channel_on_frame parse sz now new_id source buffer s = room_step sz s (Recv now new_id source Ping)"
    and "crashed (room_channel_on_frame parse sz now buffer u)"
proof -
  have d: "mtype (destruct_buffer buffer) = message_type kPing" "payload (destruct_buffer buffer) = []"
    using assms(1) by (auto simp: destruct_buffer_def meta_default_def Let_def split: option.splits if_splits)
  show "user_channel_on_frame parse sz now new_id source buffer s = room_step sz s (Recv now new_id source Ping)"
    using assms(2) by (simp add: user_channel_on_frame_def d room_routing find_kind user_channel_kinds_def Let_def del: message_type.simps)
  show "crashed (room_channel_on_frame parse sz now buffer u)"
    using assms(2) by (simp add: room_channel_on_frame_def d user_receive_def user_routing find_kind session_kinds_def
        deserialize_def user_step.simps Let_def del: message_type.simps)
qed

end
