(* ===== verification/Client_Session.thy ===== *)
theory Client_Session
  imports Conn_Interpreter Messages
begin

text \<open>
  The command line client (\<open>rsp-cli\<close>): the four state objects, the session that owns the
  socket, and the loop over the lines of standard input. The operations run one after the
  other on a single \<open>io_context\<close> thread. What the environment does is an event: a line is
  read, an outstanding read or write completes. An exception leaves \<open>io_context.run\<close> and
  ends the client: \<open>cl_failed\<close>. Log lines are left out; what the prompts print is kept in
  \<open>cl_shown\<close>. \<open>sz\<close> and \<open>enc\<close> are \<open>ByteSizeLong\<close> and \<open>SerializeAsString\<close>, \<open>parse\<close> is
  \<open>ParseFromIstream\<close> on a fresh message.
\<close>

subsection \<open>States\<close>

datatype State = kInit | kLoggedIn | kInRoom | kExit

datatype pending_input = kCommand | kMessage | kKickoutUser

text \<open>The state objects with \<open>request_id_\<close> of the base class and the members of each class.\<close>

datatype base_state =
    state_init "64 word"
  | state_login "64 word" (awaiting_room_id: bool)
  | state_in_room "64 word" (pending: pending_input)
  | state_exit "64 word"

record cli_context =
  ctx_uid :: Uid
  ctx_room_id :: RoomId

definition context_clear :: cli_context where
  "context_clear = \<lparr>ctx_uid = [], ctx_room_id = 0\<rparr>"

record client =
  cl_context :: cli_context
  cl_interpreter :: "unit interpreter"
  cl_state :: "base_state option"
  cl_write_queue :: "raw_buffer list"
  cl_current_state :: State
  cl_exit_handler :: bool
  cl_stopped :: bool
  cl_input :: bool
  cl_reading :: bool
  cl_writing :: bool
  cl_accepted :: "raw_buffer list"
  cl_written :: "raw_buffer list"
  cl_shown :: "string list"
  cl_exits :: nat
  cl_failed :: bool

definition client_new :: client where
  "client_new =
     \<lparr>cl_context = context_clear, cl_interpreter = \<lparr>ilink = None, ibuffer = []\<rparr>, cl_state = None, cl_write_queue = [],
      cl_current_state = kInit, cl_exit_handler = False, cl_stopped = False, cl_input = False, cl_reading = False,
      cl_writing = False, cl_accepted = [], cl_written = [], cl_shown = [], cl_exits = 0, cl_failed = False\<rparr>"

subsection \<open>Writing and stopping\<close>

definition set_exit_handler :: "client \<Rightarrow> client" where
  "set_exit_handler c = c\<lparr>cl_exit_handler := True\<rparr>"

text \<open>Starts \<open>async_write\<close> of the front of the queue.\<close>

definition write_next :: "client \<Rightarrow> client" where
  "write_next c = (if cl_stopped c \<or> cl_write_queue c = [] then c else c\<lparr>cl_writing := True\<rparr>)"

definition queue_write :: "raw_buffer \<Rightarrow> client \<Rightarrow> client" where
  "queue_write message c =
     (if cl_stopped c then c
      else
        (let write_in_progress = (cl_write_queue c \<noteq> []);
             c = c\<lparr>cl_write_queue := cl_write_queue c @ [message], cl_accepted := cl_accepted c @ [message]\<rparr>
         in if \<not> write_in_progress then write_next c else c))"

text \<open>\<open>finish\<close>; closing the socket makes outstanding operations complete with an error. The
  handler that \<open>main\<close> installs cancels the input.\<close>

definition finish :: "client \<Rightarrow> client" where
  "finish c =
     (if cl_stopped c then c
      else
        (let c = c\<lparr>cl_stopped := True, cl_current_state := kExit\<rparr>
         in if cl_exit_handler c then c\<lparr>cl_exits := Suc (cl_exits c), cl_input := False\<rparr> else c))"

definition send_message ::
  "(message \<Rightarrow> nat) \<Rightarrow> (message \<Rightarrow> raw_buffer) \<Rightarrow> message_kind \<Rightarrow> message \<Rightarrow> client \<Rightarrow> client" where
  "send_message sz enc k m c =
     (case serialize sz enc (message_type k) m of
        Inl LengthError \<Rightarrow> c\<lparr>cl_failed := True\<rparr>
      | Inr message \<Rightarrow> queue_write message c)"

definition show_prompt :: "string \<Rightarrow> client \<Rightarrow> client" where
  "show_prompt message c = (if cl_failed c then c else c\<lparr>cl_shown := cl_shown c @ [message]\<rparr>)"

subsection \<open>The state objects\<close>

definition init_prompt :: string where
  "init_prompt = ''type user name to login''"

definition login_prompt :: string where
  "login_prompt = ''possible command '' @ [CHR 0x0A] @ ''1) logout, 2) create_room, 3) join_room''"

definition show_command_prompt :: "client \<Rightarrow> client" where
  "show_command_prompt c =
     show_prompt (''possible command '' @ [CHR 0x0A] @ ''1) logout 2) send message 3) leave room 4) kickout'') c"

text \<open>\<open>factory::create\<close>; the constructor of \<open>state_exit\<close> clears the context.\<close>

fun factory_create :: "State \<Rightarrow> base_state" where
  "factory_create kInit = state_init 0"
| "factory_create kLoggedIn = state_login 0 False"
| "factory_create kInRoom = state_in_room 0 kCommand"
| "factory_create kExit = state_exit 0"

fun state_kind :: "base_state \<Rightarrow> State" where
  "state_kind (state_init _) = kInit"
| "state_kind (state_login _ _) = kLoggedIn"
| "state_kind (state_in_room _ _) = kInRoom"
| "state_kind (state_exit _) = kExit"

definition state_init_enter :: "client \<Rightarrow> client" where
  [simp]: "state_init_enter c = show_prompt init_prompt c"

definition state_login_enter :: "64 word \<Rightarrow> client \<Rightarrow> client" where
  [simp]: "state_login_enter q c = show_prompt login_prompt (c\<lparr>cl_state := Some (state_login q False)\<rparr>)"

definition state_in_room_enter :: "64 word \<Rightarrow> client \<Rightarrow> client" where
  [simp]: "state_in_room_enter q c = show_command_prompt (c\<lparr>cl_state := Some (state_in_room q kCommand)\<rparr>)"

definition state_exit_enter :: "client \<Rightarrow> client" where
  [simp]: "state_exit_enter c = show_prompt ''closing...'' c"

text \<open>The virtual call.\<close>

fun state_enter :: "base_state \<Rightarrow> client \<Rightarrow> client" where
  "state_enter (state_init q) c = state_init_enter c"
| "state_enter (state_login q a) c = state_login_enter q c"
| "state_enter (state_in_room q p) c = state_in_room_enter q c"
| "state_enter (state_exit q) c = state_exit_enter c"

text \<open>
  \<open>std::from_chars\<close> into a \<open>uint32_t\<close>, base ten: the longest prefix of digits; no digits are an
  invalid argument, a value that does not fit is out of range, and either leaves the value.
  The second component is the offset of the end of the match.
\<close>

datatype errc = no_error | invalid_argument | result_out_of_range

definition is_digit :: "char \<Rightarrow> bool" where
  "is_digit ch \<longleftrightarrow> 48 \<le> (of_char ch :: nat) \<and> (of_char ch :: nat) \<le> 57"

definition decimal_value :: "string \<Rightarrow> nat" where
  "decimal_value ds = foldl (\<lambda>n ch. 10 * n + (of_char ch - 48)) 0 ds"

definition from_chars :: "string \<Rightarrow> RoomId \<Rightarrow> errc \<times> nat \<times> RoomId" where
  "from_chars s value =
     (let ds = takeWhile is_digit s; n = decimal_value ds in
      if ds = [] then (invalid_argument, 0, value)
      else if n \<ge> 2 ^ 32 then (result_out_of_range, length ds, value)
      else (no_error, length ds, of_nat n))"

definition state_init_on_command ::
  "(message \<Rightarrow> nat) \<Rightarrow> (message \<Rightarrow> raw_buffer) \<Rightarrow> 64 word \<Rightarrow> string \<Rightarrow> client
     \<Rightarrow> State option \<times> client" where
  [simp]: "state_init_on_command sz enc q command c =
     (None, send_message sz enc kReqLogin (ReqLogin q command) (c\<lparr>cl_state := Some (state_init (q + 1))\<rparr>))"

definition state_login_on_command ::
  "(message \<Rightarrow> nat) \<Rightarrow> (message \<Rightarrow> raw_buffer) \<Rightarrow> 64 word \<Rightarrow> bool \<Rightarrow> string \<Rightarrow> client
     \<Rightarrow> State option \<times> client" where
  [simp]: "state_login_on_command sz enc q a command c =
     (if a
      then
        (case from_chars command 0 of
           (error, end_of, r) \<Rightarrow>
             if error \<noteq> no_error \<or> end_of \<noteq> length command then (None, show_prompt ''room id must be a number'' c)
             else
               (None, send_message sz enc kReqJoinRoom (ReqJoinRoom q r)
                  (c\<lparr>cl_state := Some (state_login (q + 1) False)\<rparr>)))
      else if command = ''1''
      then (None, send_message sz enc kReqLogout (ReqLogout q) (c\<lparr>cl_state := Some (state_login (q + 1) a)\<rparr>))
      else if command = ''2''
      then (None, send_message sz enc kReqCreateRoom (ReqCreateRoom q) (c\<lparr>cl_state := Some (state_login (q + 1) a)\<rparr>))
      else if command = ''3''
      then (None, show_prompt ''put room id that you want to enter'' (c\<lparr>cl_state := Some (state_login q True)\<rparr>))
      else (None, show_prompt ''your command is incorrect'' c))"

definition state_in_room_on_command ::
  "(message \<Rightarrow> nat) \<Rightarrow> (message \<Rightarrow> raw_buffer) \<Rightarrow> 64 word \<Rightarrow> pending_input \<Rightarrow> string \<Rightarrow> client
     \<Rightarrow> State option \<times> client" where
  [simp]: "state_in_room_on_command sz enc q p command c =
     (if p = kMessage
      then
        (None, show_command_prompt
           (send_message sz enc kFwdRoom (FwdRoom command) (c\<lparr>cl_state := Some (state_in_room q kCommand)\<rparr>)))
      else if p = kKickoutUser
      then
        (None, show_command_prompt
           (send_message sz enc kFwdRoom (FwdRoom (''kickout:'' @ command))
              (c\<lparr>cl_state := Some (state_in_room q kCommand)\<rparr>)))
      else if command = ''1''
      then (None, send_message sz enc kReqLogout (ReqLogout q) (c\<lparr>cl_state := Some (state_in_room (q + 1) p)\<rparr>))
      else if command = ''2''
      then (None, show_prompt ''type message to send'' (c\<lparr>cl_state := Some (state_in_room q kMessage)\<rparr>))
      else if command = ''3''
      then (None, send_message sz enc kReqLeaveRoom (ReqLeaveRoom q) (c\<lparr>cl_state := Some (state_in_room (q + 1) p)\<rparr>))
      else if command = ''4''
      then (None, show_prompt ''type user name to kickout'' (c\<lparr>cl_state := Some (state_in_room q kKickoutUser)\<rparr>))
      else (None, show_prompt ''your command is incorrect'' c))"

definition state_exit_on_command ::
  "(message \<Rightarrow> nat) \<Rightarrow> (message \<Rightarrow> raw_buffer) \<Rightarrow> 64 word \<Rightarrow> string \<Rightarrow> client
     \<Rightarrow> State option \<times> client" where
  [simp]: "state_exit_on_command sz enc q command c = (None, c)"

fun state_on_command ::
  "(message \<Rightarrow> nat) \<Rightarrow> (message \<Rightarrow> raw_buffer) \<Rightarrow> base_state \<Rightarrow> string \<Rightarrow> client \<Rightarrow> State option \<times> client" where
  "state_on_command sz enc (state_init q) command c = state_init_on_command sz enc q command c"
| "state_on_command sz enc (state_login q a) command c = state_login_on_command sz enc q a command c"
| "state_on_command sz enc (state_in_room q p) command c = state_in_room_on_command sz enc q p command c"
| "state_on_command sz enc (state_exit q) command c = state_exit_on_command sz enc q command c"

definition base_on_message ::
  "(message \<Rightarrow> nat) \<Rightarrow> (message \<Rightarrow> raw_buffer) \<Rightarrow> MessageType \<Rightarrow> client \<Rightarrow> State option \<times> client" where
  "base_on_message sz enc type c =
     (if type = message_type kPing then (None, send_message sz enc kPong Pong c) else (Some kExit, c))"

definition login_res_logout ::
  "(message_kind \<Rightarrow> raw_buffer \<Rightarrow> bool \<times> message) \<Rightarrow> raw_buffer \<Rightarrow> client \<Rightarrow> State option \<times> client" where
  "login_res_logout parse body c =
     (case deserialize (parse kResLogout) body of (False, _) \<Rightarrow> (None, c) | (True, _) \<Rightarrow> (Some kExit, c))"

definition in_room_res_logout ::
  "(message_kind \<Rightarrow> raw_buffer \<Rightarrow> bool \<times> message) \<Rightarrow> raw_buffer \<Rightarrow> client \<Rightarrow> State option \<times> client" where
  "in_room_res_logout parse body c =
     (case deserialize (parse kResLogout) body of (False, _) \<Rightarrow> (None, c) | (True, _) \<Rightarrow> (Some kExit, c))"

definition client_res_create_room ::
  "(message_kind \<Rightarrow> raw_buffer \<Rightarrow> bool \<times> message) \<Rightarrow> base_state \<Rightarrow> raw_buffer \<Rightarrow> client \<Rightarrow> State option \<times> client" where
  "client_res_create_room parse st body c =
     (case deserialize (parse kResCreateRoom) body of
        (False, _) \<Rightarrow> (None, c)
      | (True, m) \<Rightarrow>
          if \<not> success m then (None, state_enter st c)
          else (Some kInRoom, c\<lparr>cl_context := (cl_context c)\<lparr>ctx_room_id := room_id m\<rparr>\<rparr>))"

definition client_res_join_room ::
  "(message_kind \<Rightarrow> raw_buffer \<Rightarrow> bool \<times> message) \<Rightarrow> base_state \<Rightarrow> raw_buffer \<Rightarrow> client \<Rightarrow> State option \<times> client" where
  "client_res_join_room parse st body c =
     (case deserialize (parse kResJoinRoom) body of
        (False, _) \<Rightarrow> (None, c)
      | (True, m) \<Rightarrow>
          if \<not> success m then (None, state_enter st c)
          else (Some kInRoom, c\<lparr>cl_context := (cl_context c)\<lparr>ctx_room_id := room_id m\<rparr>\<rparr>))"

text \<open>The prompt of a forwarded message goes to standard output as it is; sender types outside
  of the enumeration, which the code only logs, are not values of \<open>SenderType\<close>.\<close>

definition client_fwd_client ::
  "(message_kind \<Rightarrow> raw_buffer \<Rightarrow> bool \<times> message) \<Rightarrow> raw_buffer \<Rightarrow> client \<Rightarrow> State option \<times> client" where
  "client_fwd_client parse body c =
     (case deserialize (parse kFwdClient) body of
        (False, _) \<Rightarrow> (None, c)
      | (True, m) \<Rightarrow>
          (None, show_prompt
             (case sender_type m of
                kContent \<Rightarrow> ''room sent message: '' @ text_of m
              | kUser \<Rightarrow> ''('' @ sender_uid m @ ''):'' @ text_of m) c))"

definition client_ntf_leave_room ::
  "(message_kind \<Rightarrow> raw_buffer \<Rightarrow> bool \<times> message) \<Rightarrow> raw_buffer \<Rightarrow> client \<Rightarrow> State option \<times> client" where
  "client_ntf_leave_room parse body c =
     (case deserialize (parse kNtfLeaveRoom) body of
        (False, _) \<Rightarrow> (None, c)
      | (True, _) \<Rightarrow> (Some kLoggedIn, c\<lparr>cl_context := (cl_context c)\<lparr>ctx_room_id := 0\<rparr>\<rparr>))"

definition client_res_leave_room ::
  "(message_kind \<Rightarrow> raw_buffer \<Rightarrow> bool \<times> message) \<Rightarrow> raw_buffer \<Rightarrow> client \<Rightarrow> State option \<times> client" where
  "client_res_leave_room parse body c =
     (case deserialize (parse kResLeaveRoom) body of
        (False, _) \<Rightarrow> (None, c)
      | (True, m) \<Rightarrow>
          if \<not> success m then (None, show_prompt ''unable to leave room'' c)
          else (Some kLoggedIn, c\<lparr>cl_context := (cl_context c)\<lparr>ctx_room_id := 0\<rparr>\<rparr>))"

definition state_init_on_message ::
  "(message_kind \<Rightarrow> raw_buffer \<Rightarrow> bool \<times> message) \<Rightarrow> (message \<Rightarrow> nat) \<Rightarrow> (message \<Rightarrow> raw_buffer)
     \<Rightarrow> 64 word \<Rightarrow> MessageType \<Rightarrow> raw_buffer \<Rightarrow> client \<Rightarrow> State option \<times> client" where
  [simp]: "state_init_on_message parse sz enc q type body c =
     (if type \<noteq> message_type kResLogin then base_on_message sz enc type c
      else
        (case deserialize (parse kResLogin) body of
           (False, _) \<Rightarrow> (None, c)
         | (True, m) \<Rightarrow> (Some kLoggedIn, c\<lparr>cl_context := (cl_context c)\<lparr>ctx_uid := uid m\<rparr>\<rparr>)))"

definition state_login_on_message ::
  "(message_kind \<Rightarrow> raw_buffer \<Rightarrow> bool \<times> message) \<Rightarrow> (message \<Rightarrow> nat) \<Rightarrow> (message \<Rightarrow> raw_buffer)
     \<Rightarrow> 64 word \<Rightarrow> bool \<Rightarrow> MessageType \<Rightarrow> raw_buffer \<Rightarrow> client \<Rightarrow> State option \<times> client" where
  [simp]: "state_login_on_message parse sz enc q a type body c =
     (if type = message_type kResLogout then login_res_logout parse body c
      else if type = message_type kResCreateRoom then client_res_create_room parse (state_login q a) body c
      else if type = message_type kResJoinRoom then client_res_join_room parse (state_login q a) body c
      else base_on_message sz enc type c)"

definition state_in_room_on_message ::
  "(message_kind \<Rightarrow> raw_buffer \<Rightarrow> bool \<times> message) \<Rightarrow> (message \<Rightarrow> nat) \<Rightarrow> (message \<Rightarrow> raw_buffer)
     \<Rightarrow> 64 word \<Rightarrow> pending_input \<Rightarrow> MessageType \<Rightarrow> raw_buffer \<Rightarrow> client \<Rightarrow> State option \<times> client" where
  [simp]: "state_in_room_on_message parse sz enc q p type body c =
     (if type = message_type kResLogout then in_room_res_logout parse body c
      else if type = message_type kFwdClient then client_fwd_client parse body c
      else if type = message_type kNtfLeaveRoom then client_ntf_leave_room parse body c
      else if type = message_type kResLeaveRoom then client_res_leave_room parse body c
      else base_on_message sz enc type c)"

fun state_on_message ::
  "(message_kind \<Rightarrow> raw_buffer \<Rightarrow> bool \<times> message) \<Rightarrow> (message \<Rightarrow> nat) \<Rightarrow> (message \<Rightarrow> raw_buffer)
     \<Rightarrow> base_state \<Rightarrow> MessageType \<Rightarrow> raw_buffer \<Rightarrow> client \<Rightarrow> State option \<times> client" where
  "state_on_message parse sz enc (state_init q) type body c = state_init_on_message parse sz enc q type body c"
| "state_on_message parse sz enc (state_login q a) type body c = state_login_on_message parse sz enc q a type body c"
| "state_on_message parse sz enc (state_in_room q p) type body c = state_in_room_on_message parse sz enc q p type body c"
| "state_on_message parse sz enc (state_exit q) type body c = base_on_message sz enc type c"

subsection \<open>The session\<close>

definition transition_to :: "State \<Rightarrow> client \<Rightarrow> client" where
  "transition_to next_state c =
     (if cl_stopped c then c
      else
        (let st = factory_create next_state;
             c = c\<lparr>cl_current_state := next_state, cl_state := Some st,
                   cl_context := (if next_state = kExit then context_clear else cl_context c)\<rparr>;
             c = state_enter st c
         in if next_state = kExit then finish c else c))"

definition read_next :: "client \<Rightarrow> client" where
  "read_next c = (if cl_stopped c then c else c\<lparr>cl_reading := True\<rparr>)"

definition client_start :: "client \<Rightarrow> client" where
  "client_start c = read_next (transition_to kInit c)"

definition handle_command ::
  "(message \<Rightarrow> nat) \<Rightarrow> (message \<Rightarrow> raw_buffer) \<Rightarrow> string \<Rightarrow> client \<Rightarrow> client" where
  "handle_command sz enc command c =
     (if cl_stopped c then c
      else case cl_state c of
        None \<Rightarrow> c
      | Some st \<Rightarrow>
          (case state_on_command sz enc st command c of
             (None, c) \<Rightarrow> c
           | (Some next_state, c) \<Rightarrow> if cl_failed c then c else transition_to next_state c))"

definition client_stop :: "client \<Rightarrow> client" where
  "client_stop c = (if cl_stopped c then c else transition_to kExit c)"

text \<open>\<open>dispatch\<close>; after an exception nothing is dispatched any more.\<close>

definition client_dispatch ::
  "(message_kind \<Rightarrow> raw_buffer \<Rightarrow> bool \<times> message) \<Rightarrow> (message \<Rightarrow> nat) \<Rightarrow> (message \<Rightarrow> raw_buffer)
     \<Rightarrow> MessageType \<Rightarrow> raw_buffer \<Rightarrow> client \<Rightarrow> client" where
  "client_dispatch parse sz enc type body c =
     (if cl_failed c \<or> cl_stopped c then c
      else case cl_state c of
        None \<Rightarrow> c
      | Some st \<Rightarrow>
          (case state_on_message parse sz enc st type body c of
             (None, c) \<Rightarrow> c
           | (Some next_state, c) \<Rightarrow> if cl_failed c then c else transition_to next_state c))"

text \<open>The completion handlers of \<open>read_next\<close> and \<open>write_next\<close>.\<close>

datatype read_result = ReadError | ReadData raw_buffer nat

fun client_handle_read ::
  "(message_kind \<Rightarrow> raw_buffer \<Rightarrow> bool \<times> message) \<Rightarrow> (message \<Rightarrow> nat) \<Rightarrow> (message \<Rightarrow> raw_buffer)
     \<Rightarrow> read_result \<Rightarrow> client \<Rightarrow> client" where
  "client_handle_read parse sz enc ReadError c = finish c"
| "client_handle_read parse sz enc (ReadData buffer len) c =
     (case handle_buffer (\<lambda>type body _. client_dispatch parse sz enc type body) (cl_interpreter c) buffer len c of
        None \<Rightarrow> c\<lparr>cl_failed := True\<rparr>
      | Some (ok, i, c) \<Rightarrow>
          (let c = c\<lparr>cl_interpreter := i\<rparr> in
           if cl_failed c then c else if \<not> ok then transition_to kExit c else read_next c))"

definition client_handle_write :: "bool \<Rightarrow> client \<Rightarrow> client" where
  "client_handle_write error c =
     (if error then transition_to kExit c
      else
        write_next (c\<lparr>cl_written := cl_written c @ [hd (cl_write_queue c)], cl_write_queue := tl (cl_write_queue c)\<rparr>))"

subsection \<open>Runs\<close>

text \<open>The handler of \<open>read_command\<close> in \<open>main.cpp\<close>, for a line without its newline.\<close>

definition read_command ::
  "(message \<Rightarrow> nat) \<Rightarrow> (message \<Rightarrow> raw_buffer) \<Rightarrow> string \<Rightarrow> client \<Rightarrow> client" where
  "read_command sz enc line c =
     (let command = (if line \<noteq> [] \<and> last line = CHR 0x0D then butlast line else line);
          c = handle_command sz enc command c
      in if cl_failed c then c else if cl_current_state c \<noteq> kExit then c\<lparr>cl_input := True\<rparr> else c)"

definition client_main :: client where
  "client_main = (client_start (set_exit_handler client_new))\<lparr>cl_input := True\<rparr>"

datatype client_event = InputLine string | InputError | ReadDone read_result | WriteDone bool

definition client_step ::
  "(message_kind \<Rightarrow> raw_buffer \<Rightarrow> bool \<times> message) \<Rightarrow> (message \<Rightarrow> nat) \<Rightarrow> (message \<Rightarrow> raw_buffer)
     \<Rightarrow> client \<Rightarrow> client_event \<Rightarrow> client" where
  "client_step parse sz enc c e =
     (if cl_failed c then c
      else case e of
        InputLine line \<Rightarrow> if cl_input c then read_command sz enc line (c\<lparr>cl_input := False\<rparr>) else c
      | InputError \<Rightarrow> if cl_input c then client_stop (c\<lparr>cl_input := False\<rparr>) else c
      | ReadDone r \<Rightarrow>
          if cl_reading c \<and> (case r of ReadError \<Rightarrow> True | ReadData buffer len \<Rightarrow> block_ok (buffer, len))
          then client_handle_read parse sz enc r (c\<lparr>cl_reading := False\<rparr>) else c
      | WriteDone error \<Rightarrow>
          if cl_writing c then client_handle_write error (c\<lparr>cl_writing := False\<rparr>) else c)"

subsection \<open>Invariant\<close>

text \<open>
  While the client runs, its state object is the one of its current state, a write is
  outstanding exactly when something is queued, and the context matches the state. The
  exit handler has run exactly when the client is stopped.
\<close>

definition ctx_ok :: "State \<Rightarrow> cli_context \<Rightarrow> bool" where
  "ctx_ok k x \<longleftrightarrow> (k = kInit \<longrightarrow> ctx_uid x = []) \<and> (k \<noteq> kInRoom \<longrightarrow> ctx_room_id x = 0)"

definition client_base :: "client \<Rightarrow> bool" where
  "client_base c \<longleftrightarrow>
     cl_exit_handler c \<and> cl_exits c = (if cl_stopped c then 1 else 0) \<and>
     cl_accepted c = cl_written c @ cl_write_queue c \<and> (cl_writing c \<longrightarrow> cl_write_queue c \<noteq> []) \<and>
     (if cl_stopped c then cl_current_state c = kExit \<and> \<not> cl_input c
      else
        (\<exists>st. cl_state c = Some st \<and> state_kind st = cl_current_state c) \<and> cl_current_state c \<noteq> kExit \<and>
        (cl_write_queue c \<noteq> [] \<longrightarrow> cl_writing c))"

definition client_core :: "client \<Rightarrow> bool" where
  "client_core c \<longleftrightarrow> client_base c \<and> (\<not> cl_stopped c \<longrightarrow> ctx_ok (cl_current_state c) (cl_context c))"

definition client_ok :: "client \<Rightarrow> bool" where
  "client_ok c \<longleftrightarrow>
     cl_failed c \<or> (client_core c \<and> interp_inv (cl_interpreter c) \<and> (\<not> cl_stopped c \<longrightarrow> cl_reading c \<and> cl_input c))"

text \<open>What the operations of a state object leave alone.\<close>

definition same_session :: "client \<Rightarrow> client \<Rightarrow> bool" where
  "same_session c c' \<longleftrightarrow>
     cl_stopped c' = cl_stopped c \<and> cl_current_state c' = cl_current_state c \<and> cl_reading c' = cl_reading c \<and>
     cl_input c' = cl_input c \<and> cl_interpreter c' = cl_interpreter c"

lemma same_session_refl [simp]: "same_session c c"
  by (simp add: same_session_def)

lemma same_session_trans: "same_session c c' \<Longrightarrow> same_session c' c'' \<Longrightarrow> same_session c c''"
  by (simp add: same_session_def)

lemma base_send: "client_base c \<Longrightarrow> client_base (send_message sz enc k m c)"
  by (auto simp: client_base_def send_message_def queue_write_def write_next_def Let_def
      split: sum.split length_error.split)

lemma send_fields [simp]:
  "same_session d (send_message sz enc k m c) = same_session d c" "cl_context (send_message sz enc k m c) = cl_context c"
  "cl_state (send_message sz enc k m c) = cl_state c"
  by (auto simp: same_session_def send_message_def queue_write_def write_next_def Let_def
      split: sum.split length_error.split)

lemma base_prompt [simp]: "client_base (show_prompt m c) = client_base c"
  by (simp add: client_base_def show_prompt_def)

lemma prompt_fields [simp]:
  "same_session d (show_prompt m c) = same_session d c" "cl_context (show_prompt m c) = cl_context c" "cl_failed (show_prompt m c) = cl_failed c"
  "cl_state (show_prompt m c) = cl_state c" "cl_stopped (show_prompt m c) = cl_stopped c"
  "cl_current_state (show_prompt m c) = cl_current_state c"
  by (simp_all add: same_session_def show_prompt_def)

lemma base_state_update:
  "client_base c \<Longrightarrow> cl_state c = Some st \<Longrightarrow> state_kind st' = state_kind st \<Longrightarrow>
   client_base (c\<lparr>cl_state := Some st'\<rparr>)"
  by (auto simp: client_base_def)

lemma base_context [simp]: "client_base (c\<lparr>cl_context := x\<rparr>) = client_base c"
  by (simp add: client_base_def)

lemma same_session_state [simp]:
  "same_session d (c\<lparr>cl_state := x\<rparr>) = same_session d c" "same_session d (c\<lparr>cl_context := y\<rparr>) = same_session d c"
  by (simp_all add: same_session_def)

lemma enter_ok:
  assumes "client_base c" and "cl_state c = Some st"
  shows "client_base (state_enter st c)" "same_session c (state_enter st c)" "cl_context (state_enter st c) = cl_context c"
proof -
  have "client_base (c\<lparr>cl_state := Some st'\<rparr>)" if "state_kind st' = state_kind st" for st'
    using base_state_update[OF assms that] .
  with assms(1) show "client_base (state_enter st c)" by (cases st) (auto simp: show_command_prompt_def)
  show "same_session c (state_enter st c)" by (cases st) (simp_all add: show_command_prompt_def)
  show "cl_context (state_enter st c) = cl_context c" by (cases st) (simp_all add: show_command_prompt_def)
qed

text \<open>What a state object does on a command or a message: it keeps the session, and the
  context it leaves fits the state it asks for.\<close>

definition reaction_ok :: "client \<Rightarrow> State option \<times> client \<Rightarrow> bool" where
  "reaction_ok c r \<longleftrightarrow>
     client_base (snd r) \<and> same_session c (snd r) \<and>
     (case fst r of
        None \<Rightarrow> cl_context (snd r) = cl_context c
      | Some k \<Rightarrow> k \<noteq> kInit \<and> (k \<noteq> kExit \<longrightarrow> ctx_ok k (cl_context (snd r))))"

lemma command_ok:
  assumes "client_base c" and "cl_state c = Some st"
  shows "reaction_ok c (state_on_command sz enc st command c)"
proof -
  have up: "client_base (c\<lparr>cl_state := Some st'\<rparr>)" if "state_kind st' = state_kind st" for st'
    using base_state_update[OF assms that] .
  have send: "reaction_ok c (None, send_message sz enc k m (c\<lparr>cl_state := Some st'\<rparr>))"
    "reaction_ok c (None, show_prompt p (c\<lparr>cl_state := Some st'\<rparr>))"
    "reaction_ok c (None, show_prompt p (send_message sz enc k m (c\<lparr>cl_state := Some st'\<rparr>)))"
    if "state_kind st' = state_kind st" for k m p st'
    using up[OF that] by (simp_all add: reaction_ok_def base_send)
  have keep: "reaction_ok c (None, show_prompt p c)" "reaction_ok c (None, c)" for p
    using assms(1) by (simp_all add: reaction_ok_def)
  show ?thesis
    by (cases st) (simp_all add: send keep show_command_prompt_def split: prod.split)
qed

lemma message_ok:
  assumes "client_core c" and "cl_state c = Some st" and "\<not> cl_stopped c"
  shows "reaction_ok c (state_on_message parse sz enc st type body c)"
proof -
  have b: "client_base c" and k: "state_kind st = cl_current_state c" and x: "ctx_ok (cl_current_state c) (cl_context c)"
    using assms by (auto simp: client_core_def client_base_def)
  note e = enter_ok[OF b assms(2)]
  show ?thesis using b k x e
    by (cases st)
      (auto simp: reaction_ok_def base_on_message_def login_res_logout_def in_room_res_logout_def client_res_create_room_def
        client_res_join_room_def client_fwd_client_def client_ntf_leave_room_def client_res_leave_room_def
        ctx_ok_def base_send simp del: state_enter.simps split: prod.splits bool.splits SenderType.splits)
qed

lemma transition_core:
  assumes "client_base c" and "k \<noteq> kExit \<Longrightarrow> ctx_ok k (cl_context c)"
  shows "client_core (transition_to k c)"
proof (cases "cl_stopped c")
  case True
  then show ?thesis using assms(1) by (simp add: transition_to_def client_core_def)
next
  case False
  let ?c = "c\<lparr>cl_current_state := k, cl_state := Some (factory_create k),
    cl_context := (if k = kExit then context_clear else cl_context c)\<rparr>"
  have k: "state_kind (factory_create k) = k" by (cases k) simp_all
  show ?thesis
  proof (cases "k = kExit")
    case True
    then show ?thesis using False assms(1)
      by (simp add: transition_to_def client_core_def client_base_def finish_def Let_def show_prompt_def)
  next
    case ne: False
    have "client_base ?c" using False assms(1) k ne by (simp add: client_base_def)
    then have "client_base (state_enter (factory_create k) ?c)" "same_session ?c (state_enter (factory_create k) ?c)"
      "cl_context (state_enter (factory_create k) ?c) = cl_context c"
      using enter_ok[of ?c "factory_create k"] ne by simp_all
    then show ?thesis using False ne assms(2)
      by (simp add: transition_to_def client_core_def Let_def same_session_def)
  qed
qed

lemma exit_core:
  assumes "cl_exit_handler c" and "cl_exits c = (if cl_stopped c then 1 else 0)"
    and "cl_accepted c = cl_written c @ cl_write_queue c" and "cl_writing c \<longrightarrow> cl_write_queue c \<noteq> []"
    and "cl_stopped c \<longrightarrow> cl_current_state c = kExit \<and> \<not> cl_input c"
  shows "client_core (transition_to kExit c)"
  using assms
  by (simp add: transition_to_def client_core_def client_base_def finish_def Let_def show_prompt_def)

lemma enter_fields:
  "same_session d (state_enter st d)" "cl_failed (state_enter st d) = cl_failed d"
proof -
  show "same_session d (state_enter st d)" by (cases st) (simp_all add: show_command_prompt_def)
  show "cl_failed (state_enter st d) = cl_failed d" by (cases st) (simp_all add: show_command_prompt_def)
qed

lemma transition_fields:
  "cl_interpreter (transition_to k c) = cl_interpreter c \<and> cl_reading (transition_to k c) = cl_reading c \<and>
   cl_failed (transition_to k c) = cl_failed c \<and> (cl_stopped (transition_to k c) \<longleftrightarrow> cl_stopped c \<or> k = kExit) \<and>
   (\<not> cl_stopped c \<longrightarrow> cl_current_state (transition_to k c) = k) \<and>
   (\<not> cl_stopped (transition_to k c) \<longrightarrow> cl_input (transition_to k c) = cl_input c)"
proof -
  define d where "d = c\<lparr>cl_current_state := k, cl_state := Some (factory_create k),
    cl_context := (if k = kExit then context_clear else cl_context c)\<rparr>"
  define e where "e = state_enter (factory_create k) d"
  have t: "transition_to k c = (if cl_stopped c then c else if k = kExit then finish e else e)"
    by (simp only: transition_to_def Let_def d_def e_def)
  have d: "cl_interpreter d = cl_interpreter c" "cl_reading d = cl_reading c" "cl_failed d = cl_failed c"
    "cl_stopped d = cl_stopped c" "cl_current_state d = k" "cl_input d = cl_input c"
    by (simp_all add: d_def)
  have "cl_interpreter e = cl_interpreter c" "cl_reading e = cl_reading c" "cl_failed e = cl_failed c"
    "cl_stopped e = cl_stopped c" "cl_current_state e = k" "cl_input e = cl_input c"
    using enter_fields[where d = d and st = "factory_create k"] d by (simp_all add: same_session_def e_def)
  then show ?thesis unfolding t by (simp add: finish_def Let_def)
qed

lemma reaction_core:
  assumes r: "reaction_ok c (n, c')" and c: "client_core c" "\<not> cl_stopped c"
  shows "client_core (case n of None \<Rightarrow> c' | Some k \<Rightarrow> if cl_failed c' then c' else transition_to k c') \<or>
    cl_failed (case n of None \<Rightarrow> c' | Some k \<Rightarrow> if cl_failed c' then c' else transition_to k c')"
proof (cases n)
  case None
  then show ?thesis using r c by (auto simp: reaction_ok_def client_core_def same_session_def)
next
  case (Some k)
  then show ?thesis using r transition_core[of c' k] by (auto simp: reaction_ok_def)
qed

lemma dispatch_ok:
  assumes "client_core c \<or> cl_failed c"
  shows "client_core (client_dispatch parse sz enc type body c) \<or> cl_failed (client_dispatch parse sz enc type body c)"
proof (cases "cl_failed c \<or> cl_stopped c")
  case False
  with assms have c: "client_core c" "\<not> cl_stopped c" by auto
  then obtain st where st: "cl_state c = Some st" by (auto simp: client_core_def client_base_def)
  obtain n c' where r: "state_on_message parse sz enc st type body c = (n, c')" by fastforce
  have "reaction_ok c (n, c')" using message_ok[OF c(1) st c(2)] r by metis
  from reaction_core[OF this c] show ?thesis
    using False st r by (simp add: client_dispatch_def split: option.splits)
qed (use assms in \<open>auto simp: client_dispatch_def\<close>)

lemma dispatch_fields:
  assumes "client_core c \<or> cl_failed c"
  shows "cl_interpreter (client_dispatch parse sz enc type body c) = cl_interpreter c \<and>
    cl_reading (client_dispatch parse sz enc type body c) = cl_reading c \<and>
    (\<not> cl_stopped (client_dispatch parse sz enc type body c) \<longrightarrow>
       cl_input (client_dispatch parse sz enc type body c) = cl_input c)"
proof (cases "cl_failed c \<or> cl_stopped c")
  case False
  with assms have c: "client_core c" "\<not> cl_stopped c" by auto
  then obtain st where st: "cl_state c = Some st" by (auto simp: client_core_def client_base_def)
  obtain n c' where r: "state_on_message parse sz enc st type body c = (n, c')" by fastforce
  have "same_session c c'" using message_ok[OF c(1) st c(2), of parse sz enc type body] r by (simp add: reaction_ok_def)
  then show ?thesis using False st r transition_fields[of _ c']
    by (auto simp: client_dispatch_def same_session_def split: option.splits)
qed (auto simp: client_dispatch_def)

lemma dispatch_idle: "cl_failed c \<or> cl_stopped c \<Longrightarrow> client_dispatch parse sz enc type body c = c"
  by (auto simp: client_dispatch_def)

lemma dispatches_ok:
  assumes "client_core c \<or> cl_failed c"
  shows "let c' = fold (\<lambda>(t, p). client_dispatch parse sz enc t p) fs c in
    (client_core c' \<or> cl_failed c') \<and> cl_interpreter c' = cl_interpreter c \<and> cl_reading c' = cl_reading c \<and>
    (\<not> cl_stopped c' \<longrightarrow> cl_input c' = cl_input c) \<and> (cl_stopped c \<longrightarrow> cl_stopped c')"
  using assms
proof (induction fs arbitrary: c)
  case (Cons f fs)
  obtain t p where f: "f = (t, p)" by fastforce
  let ?c = "client_dispatch parse sz enc t p c"
  have 1: "client_core ?c \<or> cl_failed ?c" using dispatch_ok[OF Cons.prems] .
  note 2 = dispatch_fields[OF Cons.prems, of parse sz enc t p]
  have "fold (\<lambda>(t, p). client_dispatch parse sz enc t p) fs ?c = ?c" if "cl_stopped ?c"
    using that by (induction fs) (auto simp: dispatch_idle)
  then show ?case using Cons.IH[OF 1] 2 f dispatch_idle[of c parse sz enc t p]
    by (cases "cl_stopped ?c") (auto simp: Let_def)
qed (simp add: Let_def)

subsection \<open>Every event keeps the invariant\<close>

lemma handle_read_ok:
  assumes c: "client_core c" "interp_inv (cl_interpreter c)" and i: "\<not> cl_stopped c \<longrightarrow> cl_input c"
    and r: "case r of ReadError \<Rightarrow> True | ReadData buffer len \<Rightarrow> block_ok (buffer, len)"
  shows "client_ok (client_handle_read parse sz enc r c)"
proof (cases r)
  case ReadError
  then show ?thesis using c by (simp add: client_ok_def client_core_def client_base_def finish_def Let_def)
next
  case (ReadData buffer len)
  let ?d = "\<lambda>type body _. client_dispatch parse sz enc type body"
  have b: "block_ok (buffer, len)" using r ReadData by simp
  obtain fs rest where st: "stream parse_frame (ibuffer (cl_interpreter c) @ take len buffer) = (fs, rest)" by fastforce
  define i' where "i' = (cl_interpreter c)\<lparr>ibuffer := (case rest of None \<Rightarrow> [] | Some b \<Rightarrow> b)\<rparr>"
  define c' where "c' = fold (\<lambda>(t, p). client_dispatch parse sz enc t p) fs c"
  have hb: "handle_buffer ?d (cl_interpreter c) buffer len c = Some (rest \<noteq> None, i', c')"
    using handle_buffer_stream[OF c(2) b, of ?d c] st by (simp add: i'_def c'_def)
  have ii: "interp_inv i'" using handle_buffer_inv(1)[OF c(2) b hb] .
  have f: "client_core c' \<or> cl_failed c'" "\<not> cl_stopped c' \<longrightarrow> cl_input c' = cl_input c"
    "cl_stopped c \<longrightarrow> cl_stopped c'"
    using dispatches_ok[of c parse sz enc fs] c by (simp_all add: c'_def Let_def)
  let ?c = "c'\<lparr>cl_interpreter := i'\<rparr>"
  have core: "client_core ?c = client_core c'" by (simp add: client_core_def client_base_def)
  have hr: "client_handle_read parse sz enc r c =
      (if cl_failed c' then ?c else if rest = None then transition_to kExit ?c else read_next ?c)"
    using hb ReadData by (cases rest) (simp_all add: Let_def)
  have stay: "cl_stopped c' \<or> cl_input c'" using f(2,3) i by auto
  show ?thesis
  proof (cases "cl_failed c'")
    case True
    then show ?thesis by (simp add: hr client_ok_def)
  next
    case nf: False
    have tr: "client_core (transition_to kExit ?c)" using f(1) core nf transition_core[of ?c kExit] by (simp add: client_core_def)
    show ?thesis
      using nf f(1) core ii stay tr transition_fields[of kExit ?c]
      by (auto simp: hr client_ok_def read_next_def) (simp_all add: client_core_def client_base_def)
  qed
qed

lemma handle_write_ok:
  assumes "client_core c" and "interp_inv (cl_interpreter c)" and "\<not> cl_stopped c \<longrightarrow> cl_reading c \<and> cl_input c"
    and "cl_writing c"
  shows "client_ok (client_handle_write error (c\<lparr>cl_writing := False\<rparr>))"
proof (cases error)
  case True
  have "client_core (transition_to kExit (c\<lparr>cl_writing := False\<rparr>))"
    using assms(1) by (intro exit_core) (auto simp: client_core_def client_base_def split: if_splits)
  then show ?thesis using True assms transition_fields[of kExit "c\<lparr>cl_writing := False\<rparr>"]
    by (simp add: client_handle_write_def client_ok_def)
next
  case False
  have "cl_write_queue c \<noteq> []" using assms(1,4) by (simp add: client_core_def client_base_def)
  then obtain b bs where "cl_write_queue c = b # bs" by (cases "cl_write_queue c") auto
  then show ?thesis using False assms
    by (auto simp: client_handle_write_def client_ok_def client_core_def client_base_def write_next_def)
qed

lemma client_step_ok:
  assumes "client_ok c"
  shows "client_ok (client_step parse sz enc c e)"
proof (cases "cl_failed c")
  case False
  with assms have c: "client_core c" "interp_inv (cl_interpreter c)" "\<not> cl_stopped c \<longrightarrow> cl_reading c \<and> cl_input c"
    by (auto simp: client_ok_def)
  show ?thesis
  proof (cases e)
    case (InputLine line)
    define d where "d = c\<lparr>cl_input := False\<rparr>"
    have d: "client_core d" "cl_failed d = cl_failed c" "cl_stopped d = cl_stopped c" "cl_reading d = cl_reading c"
      "cl_interpreter d = cl_interpreter c" "cl_state d = cl_state c"
      using c(1) by (simp_all add: d_def client_core_def client_base_def)
    show ?thesis
    proof (cases "cl_input c")
      case True
      then have ns: "\<not> cl_stopped c" using c(1) by (auto simp: client_core_def client_base_def)
      then obtain st where st: "cl_state d = Some st" using c(1) d(6) by (auto simp: client_core_def client_base_def)
      define command where "command = (if line \<noteq> [] \<and> last line = CHR 0x0D then butlast line else line)"
      obtain n d' where r: "state_on_command sz enc st command d = (n, d')" by fastforce
      have ok: "reaction_ok d (n, d')" using command_ok[OF _ st, of sz enc command] d(1) r by (simp add: client_core_def)
      define h where "h = (case n of None \<Rightarrow> d' | Some k \<Rightarrow> if cl_failed d' then d' else transition_to k d')"
      have h: "handle_command sz enc command d = h" using ns d(3) st r by (cases n) (simp_all add: handle_command_def h_def)
      have core: "client_core h \<or> cl_failed h" using reaction_core[OF ok d(1)] ns d(3) by (simp add: h_def)
      have f: "cl_reading h = cl_reading c" "cl_interpreter h = cl_interpreter c"
        using ok d transition_fields[of _ d'] by (auto simp: h_def reaction_ok_def same_session_def split: option.splits)
      have "client_step parse sz enc c e = (if cl_failed h then h else if cl_current_state h \<noteq> kExit then h\<lparr>cl_input := True\<rparr> else h)"
        using InputLine True False h by (simp add: client_step_def read_command_def d_def command_def)
      then show ?thesis using core f c ns by (auto simp: client_ok_def client_core_def client_base_def)
    qed (use InputLine False assms in \<open>simp add: client_step_def\<close>)
  next
    case InputError
    have "client_base (c\<lparr>cl_input := False\<rparr>)" using c(1) by (simp add: client_core_def client_base_def)
    from transition_core[OF this, of kExit] show ?thesis
      using InputError False c assms transition_fields[of kExit "c\<lparr>cl_input := False\<rparr>"]
      by (cases "cl_stopped c") (simp_all add: client_step_def client_stop_def client_ok_def client_core_def client_base_def)
  next
    case (ReadDone r)
    have "client_core (c\<lparr>cl_reading := False\<rparr>)" using c(1) by (simp add: client_core_def client_base_def)
    from handle_read_ok[OF this, of r parse sz enc] show ?thesis
      using ReadDone False c assms by (auto simp: client_step_def simp del: client_handle_read.simps)
  next
    case (WriteDone error)
    then show ?thesis using handle_write_ok[OF c] False assms by (auto simp: client_step_def)
  qed
qed (simp add: client_step_def client_ok_def)

lemma client_main_ok: "client_ok client_main"
  by (simp add: client_ok_def client_main_def client_start_def set_exit_handler_def client_new_def transition_to_def
      Let_def show_prompt_def read_next_def client_core_def client_base_def ctx_ok_def context_clear_def)

interpretation client: event_machine client_main "client_step parse sz enc" client_ok
  by unfold_locales (simp_all only: client_main_ok client_step_ok)

subsection \<open>The protocol\<close>

text \<open>The state a message leads to, and the room the client is then in.\<close>

fun protocol :: "State \<times> RoomId \<Rightarrow> message \<Rightarrow> State \<times> RoomId" where
  "protocol (kInit, r) (ResLogin _ _ _ _ _) = (kLoggedIn, r)"
| "protocol (kLoggedIn, r) (ResCreateRoom _ ok r') = (if ok then (kInRoom, r') else (kLoggedIn, r))"
| "protocol (kLoggedIn, r) (ResJoinRoom _ ok r') = (if ok then (kInRoom, r') else (kLoggedIn, r))"
| "protocol (kInRoom, r) (FwdClient _ _ _ _) = (kInRoom, r)"
| "protocol (kInRoom, r) (NtfLeaveRoom _ _ _) = (kLoggedIn, 0)"
| "protocol (kInRoom, r) (ResLeaveRoom _ ok) = (if ok then (kLoggedIn, 0) else (kInRoom, r))"
| "protocol (st, r) Ping = (st, r)"
| "protocol _ _ = (kExit, 0)"

definition standing :: "client \<Rightarrow> State \<times> RoomId" where
  "standing c = (cl_current_state c, ctx_room_id (cl_context c))"

lemma standing_ops [simp]:
  "standing (show_prompt p c) = standing c" "standing (send_message sz enc k m c) = standing c"
  "standing (c\<lparr>cl_state := x\<rparr>) = standing c" "standing (state_enter st c) = standing c"
proof -
  show "standing (show_prompt p c) = standing c" "standing (send_message sz enc k m c) = standing c"
    "standing (c\<lparr>cl_state := x\<rparr>) = standing c"
    using send_fields(1)[of c sz enc k m c] by (simp_all add: standing_def same_session_def)
  show "standing (state_enter st c) = standing c"
    using enter_fields[where d = c and st = st] by (cases st) (simp_all add: standing_def same_session_def show_command_prompt_def)
qed

lemma standing_transition:
  assumes "\<not> cl_stopped c"
  shows "standing (transition_to k c) = (k, if k = kExit then 0 else ctx_room_id (cl_context c))"
  using assms standing_ops(4) transition_fields[of k c]
  by (cases k) (simp_all add: transition_to_def Let_def finish_def standing_def show_prompt_def show_command_prompt_def
      context_clear_def)

lemma send_fits: "sz m \<le> kMaxPayloadSize \<Longrightarrow> cl_failed (send_message sz enc k m c) = cl_failed c"
  by (simp add: send_message_def serialize_def queue_write_def write_next_def Let_def)

lemma reaction_table:
  assumes "cl_state c = Some st" and "state_kind st = cl_current_state c" and "cl_current_state c \<noteq> kExit"
    and "\<not> cl_failed c" and "parse (kind_of m) body = (True, m)" and "sz Pong \<le> kMaxPayloadSize"
  shows "case state_on_message parse sz enc st (message_type (kind_of m)) body c of
    (None, c') \<Rightarrow> \<not> cl_failed c' \<and> standing c' = protocol (standing c) m
  | (Some k, c') \<Rightarrow> \<not> cl_failed c' \<and> cl_stopped c' = cl_stopped c \<and>
      protocol (standing c) m = (k, if k = kExit then 0 else ctx_room_id (cl_context c'))"
proof -
  have st: "standing c = (state_kind st, ctx_room_id (cl_context c))" using assms(2) by (simp add: standing_def)
  have "cl_failed (state_enter st c) = cl_failed c" by (rule enter_fields(2))
  moreover have "cl_failed (send_message sz enc kPong Pong c) = cl_failed c" using assms(6) by (simp add: send_fits)
  ultimately show ?thesis
    using assms st
    by (cases st; cases m)
      (simp_all add: base_on_message_def deserialize_def login_res_logout_def in_room_res_logout_def client_res_create_room_def
        client_res_join_room_def client_fwd_client_def client_ntf_leave_room_def client_res_leave_room_def
        del: state_enter.simps)
qed

text \<open>A client between messages: once stopped, it is out of every room.\<close>

definition settled_client :: "client \<Rightarrow> bool" where
  "settled_client c \<longleftrightarrow> client_core c \<and> \<not> cl_failed c \<and> (cl_stopped c \<longrightarrow> standing c = (kExit, 0))"

lemma protocol_exit [simp]: "protocol (kExit, 0) m = (kExit, 0)"
  by (cases m) simp_all

lemma protocol_exits [simp]: "foldl protocol (kExit, 0) ms = (kExit, 0)"
  by (induction ms) simp_all

lemma dispatch_protocol:
  assumes "settled_client c" and "parse (kind_of m) body = (True, m)" and "sz Pong \<le> kMaxPayloadSize"
  shows "let c' = client_dispatch parse sz enc (message_type (kind_of m)) body c in
    settled_client c' \<and> standing c' = protocol (standing c) m"
proof (cases "cl_stopped c")
  case True
  then show ?thesis using assms(1) by (simp add: dispatch_idle settled_client_def)
next
  case False
  let ?c' = "client_dispatch parse sz enc (message_type (kind_of m)) body c"
  from assms(1) have c: "client_core c" "\<not> cl_failed c" by (simp_all add: settled_client_def)
  then obtain st where st: "cl_state c = Some st" "state_kind st = cl_current_state c" "cl_current_state c \<noteq> kExit"
    using False by (auto simp: client_core_def client_base_def)
  obtain n d where r: "state_on_message parse sz enc st (message_type (kind_of m)) body c = (n, d)" by fastforce
  note t = reaction_table[where parse = parse and m = m and body = body and sz = sz and enc = enc,
      OF st c(2) assms(2,3), unfolded r]
  have ss: "same_session c d" using message_ok[OF c(1) st(1) False, of parse sz enc "message_type (kind_of m)" body] r
    by (simp add: reaction_ok_def)
  have c': "?c' = (case n of None \<Rightarrow> d | Some k \<Rightarrow> if cl_failed d then d else transition_to k d)"
    using c(2) False st(1) r by (cases n) (simp_all add: client_dispatch_def)
  have core: "client_core ?c' \<or> cl_failed ?c'" using dispatch_ok c by blast
  show ?thesis
  proof (cases n)
    case None
    then show ?thesis using t core c' ss False by (simp add: settled_client_def Let_def same_session_def)
  next
    case (Some k)
    then have "\<not> cl_failed d" "\<not> cl_stopped d" "protocol (standing c) m = (k, if k = kExit then 0 else ctx_room_id (cl_context d))"
      using t False by auto
    then show ?thesis using Some core c' standing_transition[of d k] transition_fields[of k d]
      by (auto simp: settled_client_def Let_def)
  qed
qed

definition message_frame :: "(message \<Rightarrow> raw_buffer) \<Rightarrow> message \<Rightarrow> MessageType \<times> raw_buffer" where
  "message_frame enc m = (message_type (kind_of m), enc m)"

lemma dispatches_protocol:
  assumes "settled_client c" and "\<forall>m \<in> set ms. parse (kind_of m) (enc m) = (True, m)" and "sz Pong \<le> kMaxPayloadSize"
  shows "let c' = fold (\<lambda>(t, p). client_dispatch parse sz enc t p) (map (message_frame enc) ms) c in
    settled_client c' \<and> standing c' = foldl protocol (standing c) ms"
  using assms(1,2)
proof (induction ms arbitrary: c)
  case (Cons m ms)
  let ?c = "client_dispatch parse sz enc (message_type (kind_of m)) (enc m) c"
  have "settled_client ?c" "standing ?c = protocol (standing c) m"
    using dispatch_protocol[where sz = sz and enc = enc, OF Cons.prems(1) _ assms(3), of parse m "enc m"] Cons.prems(2) by (simp_all add: Let_def)
  then show ?case using Cons.IH[of ?c] Cons.prems(2) by (simp add: message_frame_def Let_def)
qed simp

definition read_event :: "raw_buffer \<times> nat \<Rightarrow> client_event" where
  "read_event bl = (case bl of (buffer, len) \<Rightarrow> ReadDone (ReadData buffer len))"

lemma read_step:
  assumes c: "settled_client c" "interp_inv (cl_interpreter c)" "block_ok (buffer, len)" "cl_reading c"
    and st: "stream parse_frame (ibuffer (cl_interpreter c) @ take len buffer) = (map (message_frame enc) ms, Some rest)"
    and ms: "\<forall>m \<in> set ms. parse (kind_of m) (enc m) = (True, m)" "sz Pong \<le> kMaxPayloadSize"
  shows "let c' = client_step parse sz enc c (ReadDone (ReadData buffer len)) in
    settled_client c' \<and> standing c' = foldl protocol (standing c) ms \<and> interp_inv (cl_interpreter c') \<and>
    ibuffer (cl_interpreter c') = rest \<and> (\<not> cl_stopped c' \<longrightarrow> cl_reading c')"
proof -
  let ?d = "\<lambda>type body _. client_dispatch parse sz enc type body"
  define d where "d = c\<lparr>cl_reading := False\<rparr>"
  have d: "settled_client d" "standing d = standing c" "cl_interpreter d = cl_interpreter c" "cl_failed d = cl_failed c"
    using c(1) by (simp_all add: d_def settled_client_def client_core_def client_base_def standing_def)
  define i where "i = (cl_interpreter c)\<lparr>ibuffer := rest\<rparr>"
  define e where "e = fold (\<lambda>(t, p). client_dispatch parse sz enc t p) (map (message_frame enc) ms) d"
  have hb: "handle_buffer ?d (cl_interpreter d) buffer len d = Some (True, i, e)"
    using handle_buffer_stream[OF c(2,3), of ?d d] st d(3) by (simp add: i_def e_def)
  have i: "interp_inv i" using handle_buffer_inv(1)[OF _ c(3) hb] c(2) d(3) by simp
  have e: "settled_client e" "standing e = foldl protocol (standing c) ms"
    using dispatches_protocol[where sz = sz and parse = parse and enc = enc, OF d(1) ms] d(2) by (simp_all add: e_def Let_def)
  let ?e = "e\<lparr>cl_interpreter := i\<rparr>"
  have nf: "\<not> cl_failed c" "\<not> cl_failed e" using c(1) e(1) by (simp_all add: settled_client_def)
  have "client_step parse sz enc c (ReadDone (ReadData buffer len)) = read_next ?e"
    using c(3,4) nf hb by (simp add: client_step_def d_def[symmetric] Let_def)
  moreover have "settled_client (read_next ?e)" "standing (read_next ?e) = standing e"
    using e(1) by (simp_all add: read_next_def settled_client_def client_core_def client_base_def standing_def)
  ultimately show ?thesis using e(2) i by (simp add: Let_def read_next_def i_def)
qed

lemma dispatches_idle:
  "cl_stopped c \<Longrightarrow> fold (\<lambda>(t, p). client_dispatch parse sz enc t p) fs c = c"
  by (induction fs) (auto simp: dispatch_idle)

lemma read_stopped:
  assumes "settled_client c" "cl_stopped c" "interp_inv (cl_interpreter c)" "block_ok bl"
  shows "let c' = client_step parse sz enc c (read_event bl) in
    settled_client c' \<and> cl_stopped c' \<and> interp_inv (cl_interpreter c')"
proof -
  obtain buffer len where bl: "bl = (buffer, len)" by fastforce
  let ?d = "\<lambda>type body _. client_dispatch parse sz enc type body"
  define d where "d = c\<lparr>cl_reading := False\<rparr>"
  have d: "cl_stopped d" "cl_interpreter d = cl_interpreter c" "\<not> cl_failed d" "settled_client d"
    using assms(1,2) by (simp_all add: d_def settled_client_def client_core_def client_base_def standing_def)
  have b: "block_ok (buffer, len)" using assms(4) bl by simp
  obtain fs r where st: "stream parse_frame (ibuffer (cl_interpreter c) @ take len buffer) = (fs, r)" by fastforce
  obtain ok i where hb: "handle_buffer ?d (cl_interpreter d) buffer len d = Some (ok, i, d)"
    using handle_buffer_stream[OF assms(3) b, of ?d d] st d by (simp add: dispatches_idle)
  then have i: "interp_inv i" using handle_buffer_inv(1)[OF _ b hb] assms(3) d(2) by simp
  have "client_step parse sz enc c (read_event bl) = (if cl_reading c then d\<lparr>cl_interpreter := i\<rparr> else c)"
    using assms(1) bl b hb d(1,3) by (simp add: client_step_def read_event_def d_def[symmetric] settled_client_def
        transition_to_def read_next_def Let_def)
  moreover have "settled_client (d\<lparr>cl_interpreter := i\<rparr>)"
    using d(4) by (simp add: settled_client_def client_core_def client_base_def standing_def)
  ultimately show ?thesis using assms i d(1) by (simp add: Let_def)
qed

lemma reads_protocol:
  assumes "settled_client c" "interp_inv (cl_interpreter c)" "\<not> cl_stopped c \<longrightarrow> cl_reading c"
    and "\<forall>bl \<in> set blocks. block_ok bl"
    and "\<not> cl_stopped c \<longrightarrow> stream parse_frame (ibuffer (cl_interpreter c) @ block_bytes blocks) = (map (message_frame enc) ms, Some rest)"
    and "\<forall>m \<in> set ms. parse (kind_of m) (enc m) = (True, m)" and fits: "sz Pong \<le> kMaxPayloadSize"
  shows "let c' = run_events (client_step parse sz enc) c (map read_event blocks) in
    \<not> cl_failed c' \<and> standing c' = foldl protocol (standing c) ms"
  using assms(1-6)
proof (induction blocks arbitrary: c ms)
  case Nil
  then show ?case
    by (cases "cl_stopped c") (auto simp: settled_client_def block_bytes_def wire.stream_Incomplete interp_inv_def)
next
  case (Cons bl blocks)
  let ?c = "client_step parse sz enc c (read_event bl)"
  obtain buffer len where bl: "bl = (buffer, len)" by fastforce
  show ?case
  proof (cases "cl_stopped c")
    case True
    have c': "settled_client ?c" "cl_stopped ?c" "interp_inv (cl_interpreter ?c)"
      using read_stopped[OF Cons.prems(1) True Cons.prems(2), of bl parse sz enc] Cons.prems(4) by (simp_all add: Let_def)
    then have "standing ?c = standing c" using True Cons.prems(1) by (simp add: settled_client_def)
    then show ?thesis using Cons.IH[OF c'(1,3), of ms] c' Cons.prems(4,6) by (simp add: Let_def)
  next
    case False
    let ?b = "ibuffer (cl_interpreter c) @ take len buffer"
    have "stream parse_frame (?b @ block_bytes blocks) = (map (message_frame enc) ms, Some rest)"
      using Cons.prems(5) False bl by (simp add: block_bytes_def)
    then obtain fs r where st: "stream parse_frame ?b = (fs, Some r)"
      and re: "fs @ fst (stream parse_frame (r @ block_bytes blocks)) = map (message_frame enc) ms"
        "snd (stream parse_frame (r @ block_bytes blocks)) = Some rest"
      using wire.stream_append[of ?b "block_bytes blocks"] by (auto split: prod.splits option.splits)
    then obtain ms1 ms2 where ms: "ms = ms1 @ ms2" "fs = map (message_frame enc) ms1"
      "fst (stream parse_frame (r @ block_bytes blocks)) = map (message_frame enc) ms2"
      by (metis (no_types, lifting) append_eq_map_conv)
    have c': "settled_client ?c" "standing ?c = foldl protocol (standing c) ms1" "interp_inv (cl_interpreter ?c)"
      "ibuffer (cl_interpreter ?c) = r" "\<not> cl_stopped ?c \<longrightarrow> cl_reading ?c"
      using read_step[where sz = sz and parse = parse, OF Cons.prems(1,2) _ _ st[unfolded ms(2)] _ fits] Cons.prems(3,4,6) False bl ms(1)
      by (simp_all add: Let_def read_event_def)
    have "stream parse_frame (r @ block_bytes blocks) = (map (message_frame enc) ms2, Some rest)"
      using re(2) ms(3) by (metis prod.collapse)
    then show ?thesis using Cons.IH[OF c'(1,3,5), of ms2] c' Cons.prems(4,6) ms(1) by (simp add: Let_def)
  qed
qed

subsection \<open>Numbers\<close>

text \<open>How a room id is printed.\<close>

function decimal :: "nat \<Rightarrow> string" where
  "decimal n = (if n < 10 then [char_of (48 + n)] else decimal (n div 10) @ [char_of (48 + n mod 10)])"
  by auto
termination
  by (relation "measure id") auto

declare decimal.simps [simp del]

lemma digit_char: "n < 10 \<Longrightarrow> (of_char (char_of (48 + n)) :: nat) = 48 + n"
  by simp

lemma decimal_correct: "decimal n \<noteq> [] \<and> list_all is_digit (decimal n) \<and> decimal_value (decimal n) = n"
proof (induction n rule: decimal.induct)
  case (1 n)
  show ?case
  proof (cases "n < 10")
    case True
    then show ?thesis by (simp add: decimal.simps[of n] is_digit_def decimal_value_def digit_char)
  next
    case False
    have m: "(of_char (char_of (48 + n mod 10)) :: nat) = 48 + n mod 10" by (rule digit_char) simp
    show ?thesis using 1[OF False] False m
      by (simp add: decimal.simps[of n] is_digit_def decimal_value_def)
  qed
qed

text \<open>A command that \<open>from_chars\<close> takes as a whole: the numeral of a 32-bit number.\<close>

definition room_id_numeral :: "string \<Rightarrow> bool" where
  "room_id_numeral s \<longleftrightarrow> s \<noteq> [] \<and> list_all is_digit s \<and> decimal_value s < 2 ^ 32"

lemma from_chars_whole:
  "(fst (from_chars s v) = no_error \<and> fst (snd (from_chars s v)) = length s) \<longleftrightarrow> room_id_numeral s"
  "room_id_numeral s \<Longrightarrow> from_chars s v = (no_error, length s, of_nat (decimal_value s))"
proof -
  have all: "takeWhile is_digit s = s" if "list_all is_digit s"
    using that by (simp add: list_all_iff)
  show "from_chars s v = (no_error, length s, of_nat (decimal_value s))" if n: "room_id_numeral s"
  proof -
    have tw: "takeWhile is_digit s = s" using n all unfolding room_id_numeral_def by blast
    show ?thesis using n unfolding from_chars_def tw Let_def by (simp add: room_id_numeral_def)
  qed
  have "takeWhile is_digit s = s \<Longrightarrow> list_all is_digit s"
    by (metis list_all_iff set_takeWhileD)
  then have "length (takeWhile is_digit s) = length s \<longleftrightarrow> list_all is_digit s"
    by (metis all take_all_iff takeWhile_eq_take order_refl)
  then have len: "length (takeWhile is_digit s) = length s \<longleftrightarrow> list_all is_digit s" .
  show "(fst (from_chars s v) = no_error \<and> fst (snd (from_chars s v)) = length s) \<longleftrightarrow> room_id_numeral s"
  proof (cases "list_all is_digit s")
    case True
    show ?thesis unfolding from_chars_def all[OF True] Let_def using True by (auto simp: room_id_numeral_def)
  next
    case False
    then show ?thesis using len by (auto simp: from_chars_def room_id_numeral_def Let_def)
  qed
qed

subsection \<open>Properties\<close>

text \<open>C21. The client session, after any sequence of input lines and completed reads and writes
  that threw no exception: while it runs, the state object is the one of the current state,
  a read is outstanding, a write is outstanding exactly when something is queued, and only
  a client in a room has a room id; once it is stopped it is in the exit state and has
  called its exit handler exactly once. What was written is a prefix of what was queued.\<close>

theorem client_session_consistent:
  assumes "c = run_events (client_step parse sz enc) client_main es" and "\<not> cl_failed c"
  shows "cl_exits c = (if cl_stopped c then 1 else 0) \<and> cl_accepted c = cl_written c @ cl_write_queue c \<and>
    (if cl_stopped c then cl_current_state c = kExit
     else map_option state_kind (cl_state c) = Some (cl_current_state c) \<and> cl_current_state c \<noteq> kExit \<and>
       cl_reading c \<and> cl_input c \<and> (cl_writing c \<longleftrightarrow> cl_write_queue c \<noteq> []) \<and>
       (cl_current_state c \<noteq> kInRoom \<longrightarrow> ctx_room_id (cl_context c) = 0))"
proof -
  have "client_ok c" using client.ok_run[of parse sz enc es] assms(1) by simp
  then show ?thesis using assms(2) by (auto simp: client_ok_def client_core_def client_base_def ctx_ok_def)
qed

text \<open>C20. The client follows the protocol however its input is cut into reads: when it has read
  the frames of the messages \<open>ms\<close>, in blocks of any size, its state and its room are those
  the abstract automaton \<open>protocol\<close> reaches on \<open>ms\<close>; a message that a state does not expect
  ends the client.\<close>

theorem client_follows_protocol:
  assumes "\<forall>m \<in> set ms. parse (kind_of m) (enc m) = (True, m) \<and> length (enc m) \<le> kMaxPayloadSize"
    and "sz Pong \<le> kMaxPayloadSize" and "\<forall>bl \<in> set blocks. block_ok bl"
    and "block_bytes blocks = concat (map (\<lambda>m. frame (message_type (kind_of m)) (enc m)) ms)"
  shows "let c = run_events (client_step parse sz enc) client_main (map read_event blocks) in
    \<not> cl_failed c \<and> (cl_current_state c, ctx_room_id (cl_context c)) = foldl protocol (kInit, 0) ms"
proof -
  have ok: "client_ok client_main" by (rule client_main_ok)
  have m: "cl_failed client_main = False" "cl_stopped client_main = False" "cl_interpreter client_main = \<lparr>ilink = None, ibuffer = []\<rparr>"
    "cl_reading client_main" "standing client_main = (kInit, 0)"
    by (simp_all add: client_main_def client_start_def set_exit_handler_def client_new_def transition_to_def
      Let_def show_prompt_def read_next_def standing_def context_clear_def)
  have "concat (map (\<lambda>m. frame (message_type (kind_of m)) (enc m)) ms) = concat (map (\<lambda>(t, p). frame t p) (map (message_frame enc) ms))"
    by (simp add: message_frame_def comp_def)
  moreover have "stream parse_frame (concat (map (\<lambda>(t, p). frame t p) (map (message_frame enc) ms)) @ []) =
      (map (message_frame enc) ms @ fst (stream parse_frame []), snd (stream parse_frame []))"
    using assms(1) by (intro stream_frames) (auto simp: message_frame_def)
  ultimately have "stream parse_frame (block_bytes blocks) = (map (message_frame enc) ms, Some [])"
    using assms(4) by (simp add: stream_Nil)
  then show ?thesis
    using reads_protocol[of client_main blocks enc ms "[]" parse sz] ok m assms(1-3)
    by (simp add: settled_client_def client_ok_def standing_def Let_def)
qed

text \<open>C39. Joining by number: when the client waits for a room id, a line is accepted exactly when
  it is the decimal numeral of a 32-bit number, and then that number is requested; in
  particular the id of every room can be entered the way it is printed. Any other line
  changes nothing but the prompt.\<close>

theorem join_takes_room_ids:
  "state_on_command sz enc (state_login q True) line c =
     (None,
      if line \<noteq> [] \<and> list_all is_digit line \<and> decimal_value line < 2 ^ 32
      then send_message sz enc kReqJoinRoom (ReqJoinRoom q (of_nat (decimal_value line)))
             (c\<lparr>cl_state := Some (state_login (q + 1) False)\<rparr>)
      else show_prompt ''room id must be a number'' c) \<and>
   state_on_command sz enc (state_login q True) (decimal (unat r)) c =
     (None, send_message sz enc kReqJoinRoom (ReqJoinRoom q r) (c\<lparr>cl_state := Some (state_login (q + 1) False)\<rparr>))"
proof -
  have 1: "state_on_command sz enc (state_login q True) s c =
     (None,
      if room_id_numeral s
      then send_message sz enc kReqJoinRoom (ReqJoinRoom q (of_nat (decimal_value s)))
             (c\<lparr>cl_state := Some (state_login (q + 1) False)\<rparr>)
      else show_prompt ''room id must be a number'' c)" for s
    using from_chars_whole[of s 0] by (cases "room_id_numeral s") (auto split: prod.split)
  have "unat r < 2 ^ LENGTH(32)" by (rule unsigned_less)
  then have "room_id_numeral (decimal (unat r))" "decimal_value (decimal (unat r)) = unat r"
    using decimal_correct[of "unat r"] by (simp_all add: room_id_numeral_def)
  then show ?thesis using 1[of line] 1[of "decimal (unat r)"] by (simp add: room_id_numeral_def)
qed

theorem client_session_consistent_witness:
  "let c = run_events (client_step (\<lambda>_ _. (True, Ping)) (\<lambda>_. 1) (\<lambda>_. [7])) client_main [InputLine ''ann'', WriteDone False] in
     cl_exits c = 0 \<and> cl_accepted c = cl_written c \<and> cl_written c \<noteq> []"
proof -
  let ?c = "run_events (client_step (\<lambda>_ _. (True, Ping)) (\<lambda>_. 1) (\<lambda>_. [7])) client_main [InputLine ''ann'', WriteDone False]"
  have "\<not> cl_failed ?c \<and> \<not> cl_stopped ?c \<and> cl_write_queue ?c = [] \<and> cl_written ?c \<noteq> []"
    by (simp add: client_main_def client_start_def set_exit_handler_def client_new_def transition_to_def Let_def
        show_prompt_def read_next_def client_step_def read_command_def handle_command_def send_message_def serialize_def
        kMaxPayloadSize_def queue_write_def write_next_def client_handle_write_def)
  then show ?thesis using client_session_consistent[OF refl, of "\<lambda>_ _. (True, Ping)" "\<lambda>_. 1" "\<lambda>_. [7]" "[InputLine ''ann'', WriteDone False]"]
    by (simp add: Let_def)
qed

theorem client_follows_protocol_witness:
  "let parse = (\<lambda>k b. (True, if k = kResLogin then ResLogin 0 ''ann'' True False 0 else ResCreateRoom 0 True 42));
       enc = (\<lambda>m. [7]);
       bytes = frame (message_type kResLogin) [7] @ frame (message_type kResCreateRoom) [7];
       c = run_events (client_step parse (\<lambda>_. 1) enc) client_main
             (map read_event [(take 5 bytes @ replicate 123 0, 5), (drop 5 bytes @ replicate 107 0, 21)])
   in (cl_current_state c, ctx_room_id (cl_context c)) = (kInRoom, 42)"
  using client_follows_protocol[where ms = "[ResLogin 0 ''ann'' True False 0, ResCreateRoom 0 True 42]"
      and parse = "\<lambda>k b. (True, if k = kResLogin then ResLogin 0 ''ann'' True False 0 else ResCreateRoom 0 True 42)"
      and enc = "\<lambda>m. [7]" and sz = "\<lambda>_. 1"
      and blocks = "[(take 5 (frame (message_type kResLogin) [7] @ frame (message_type kResCreateRoom) [7]) @ replicate 123 0, 5),
        (drop 5 (frame (message_type kResLogin) [7] @ frame (message_type kResCreateRoom) [7]) @ replicate 107 0, 21)]"]
  by (simp add: Let_def kMaxPayloadSize_def block_ok_def block_bytes_def length_frame frame_consts del: message_type.simps)

end
