(* ===== verification/Spec2Isabelle.thy ===== *)
theory Spec2Isabelle
  imports Build_Selection Thread_Safe Logger Heartbeat Tcp_Server Send_Reservation Zmq_Channels Intranet Client_Session
begin

text \<open>
  Verification of RSP, a platform for room-based services: a user server that keeps the TCP
  sessions of the clients, a room server that runs the rooms, their contents as a plug-in, and a
  command line client. Paths below are relative to \<open>src/\<close>.

  \<^bold>\<open>How the parts interact.\<close> A client connects to the user server. Its connection
  (\<open>tcp_connection\<close>) reassembles frames from reads (\<open>conn_interpreter\<close>, \<open>serializer\<close>) and gives
  each message to the dispatcher, which calls the session; the session turns it into a job on its
  scheduler and strand. Jobs for rooms send a request through the room channel, which remembers it
  (\<open>pending_requests\<close>) and hands it to a ZeroMQ dealer. The room server's router delivers it to the
  user channel, which admits it (\<open>queued_requests\<close>) and lets the room manager and the rooms work on
  it, on the strand of the room; response and notifications take the way back. Shared by all are
  the job scheduler, the thread pools and the logger.

  \<^bold>\<open>Method.\<close> Every class is a record, every member function a function on it. A process is one
  record and a step function over events; an event is what the environment decides: which
  message arrives, which strand runs its next task, what a socket answers, what the clock says.
  A property of all runs is a property of all interleavings of these events. Where the code
  itself is written for concurrent callers without a strand or a lock (\<open>reserve_send_bytes\<close>,
  \<open>thread_safe\<close>) the steps are its single atomic operations. Exceptions, crashes (a null
  dereference) and termination of the process are values or flags of the state, never left out.
  Protobuf (\<open>parse\<close>, \<open>enc\<close>, \<open>sz\<close>), the ZeroMQ and TCP sockets, random room ids, clocks, \<open>git\<close>
  and the order in which Python enumerates a set are arguments of the definitions.

  \<^bold>\<open>Theories.\<close>
  \<^item> \<open>Rsp_Prelude\<close>: the types, the locales \<open>event_machine\<close> (an invariant of a step function holds in
    every run) and \<open>refinement\<close> (and so does what an abstract machine guarantees).
  \<^item> \<open>Ordered_Map\<close>: \<open>std::map\<close>, behind the locale \<open>std_map\<close>.
  \<^item> \<open>Serializer\<close> (\<open>rsplib/message/helper.hpp\<close>, \<open>serializer.hpp\<close>): header integers and frames;
    round trips and soundness of \<open>destruct_buffer\<close>.
  \<^item> \<open>Conn_Interpreter\<close> (\<open>conn_interpreter.hpp\<close>): however a stream is cut into reads, exactly its
    messages are dispatched; bounds and rejection of oversized headers. Its loop terminates because
    each turn consumes a header.
  \<^item> \<open>Job_Scheduler\<close> (\<open>rsplib/job\<close>): one job at a time, in order, each started or cancelled once; the
    recursion through synchronous completions is measured by the jobs that are left.
  \<^item> \<open>Pending_Requests\<close>, \<open>Queued_Requests\<close> (\<open>rsplib/message\<close>): both ends of a request; settled once,
    duplicates suppressed, cancellation against start.
  \<^item> \<open>Messages\<close>, \<open>Message_Dispatcher\<close> (\<open>proto\<close>, the dispatchers of library and servers): the messages
    as values, the routing tables.
  \<^item> \<open>Contents\<close>, \<open>Room_Server\<close>, \<open>Room_Invariants\<close>, \<open>Room_Properties\<close> (\<open>rsp-svr/room\<close>,
    \<open>rsp-svr/room_contents\<close>): rooms, manager, handlers, user channel and sample contents; the invariant of the
    process, that requests settle, membership, and the effect of joins, leaves and texts.
  \<^item> \<open>Tcp_Connection\<close>, \<open>Send_Reservation\<close>, \<open>Tcp_Server\<close> (\<open>rsplib/server\<close>, \<open>rsplib/thread/thread_pool.hpp\<close>,
    \<open>user/server/worker.hpp\<close>): sends as a refinement of an outbox, the byte budget under
    interleaved senders, closing; accepting, with the session in place before input is read.
  \<^item> \<open>Zmq_Channels\<close> (\<open>rsplib/broker\<close>): the worker threads of dealer, router, publisher, subscriber and
    broker; order of delivery, isolation of failures, subscriptions.
  \<^item> \<open>User_Server\<close>, \<open>User_Invariants\<close>, \<open>User_Runs\<close>, \<open>User_Properties\<close> (\<open>rsp-svr/user\<close>): sessions, jobs,
    session manager, acceptor and room channel; every room request of a client is answered once,
    and settles after its deadline at the latest.
  \<^item> \<open>Heartbeat\<close> (\<open>session::send_heartbeats\<close>), \<open>Thread_Safe\<close> (\<open>rsplib/thread/thread_safe.hpp\<close>), \<open>Logger\<close>
    (\<open>rsplib/logger\<close>): termination of the heartbeats, mutual exclusion, the text of the log.
  \<^item> \<open>Intranet\<close> (\<open>user_channel::start_async\<close>, \<open>room_channel::start\<close>): the servers' messages as bytes.
  \<^item> \<open>Client_Session\<close> (\<open>rsp-cli\<close>): the client, which follows an abstract automaton of the protocol.
  \<^item> \<open>Build_Selection\<close> (\<open>.github/scripts/select-build.py\<close>): the build selection computes a closure.
  \<^item> This theory: what spans several processes, creating a room and kicking a user end to end.

  Theorems that no claim number goes with are facts the components rest on, or behaviour that
  was not meant: crashes, races and stale entries, each shown on a concrete or general run.

  \<^bold>\<open>Bounds.\<close> No loop has fuel: all functions are total, by structural recursion or a measure.
  Widths are kept where they matter: header integers, the byte counters (64 bits), request ids
  (64 bits, with the hypothesis that fewer than \<open>2 ^ 64 - 1\<close> requests were made, after which ids
  repeat), room ids (32 bits). Clocks are unbounded integers. Messages over the payload limit make
  \<open>serialize\<close> throw; theorems state for which messages that is excluded.

  \<^bold>\<open>Not modelled.\<close>
  \<^item> \<open>room/so\<close>: \<open>dlopen\<close> and \<open>dlsym\<close>; the loaded contents are those of \<open>Contents\<close>.
  \<^item> \<open>debug/tracer.hpp\<close>, \<open>util/random.hpp\<close>, \<open>rspcli/prompt\<close>: signal handlers, random numbers, console.
  \<^item> \<open>main.cpp\<close> of the servers and \<open>intranet.hpp\<close>: construction of singletons, blocking waits; only the
    order of the registrations matters and is in \<open>Message_Dispatcher\<close>.
  \<^item> Of the logger, stream manipulators and the interleaving of two threads within one statement.
  \<^item> Data races on plain members: a critical section, and a task on a strand, is one step.
  \<^item> The strands of the room manager are modelled as separate queues, which has every behaviour of
    the one shared strand that the code creates.
  \<^item> Generated code (\<open>gen-proto\<close>), build files, shell scripts and tests.
\<close>

section \<open>Both servers together\<close>

lemma create_request_served:
  assumes "fst (admit (route, q) now (registry s)) \<noteq> None" and "\<not> stopping s"
    and "sz (User2RoomResCreateRoom q [] True new_id) \<le> kMaxPayloadSize"
  shows "let s1 = on_recv sz now new_id route (User2RoomReqCreateRoom q n) s; p = length (heap s) in
    sent s1 = sent s @ [(route, User2RoomResCreateRoom q [] True new_id)] \<and>
    find_room_of_user n s1 = Some p \<and> r_room_id (heap s1 ! p) = new_id \<and> r_owner (heap s1 ! p) = \<lparr>u_uid = n, u_route = route\<rparr>"
proof -
  let ?t = "length (tickets (registry s))"
  let ?a = "prune now (registry s)"
  let ?q = "?a\<lparr>tickets := tickets ?a @ [kQueued], active := om_emplace (route, q) ?t (active ?a)\<rparr>"
  have tk: "tickets ?a = tickets (registry s)" by (simp add: prune_def)
  have ad: "admit (route, q) now (registry s) = (Some ?t, ?q)" and fr: "om_find (active ?a) (route, q) = None"
    using assms(1) tk by (auto simp: admit_def Let_def split: if_splits)
  show ?thesis
    using assms(2) ad fr tk
    by (simp add: handle_request_def handle_create_room_def try_start_def ticket_cas_def manager_create_room_def room_create_room_def upd_room_def
        post_def room_new_def channel_send_small[where sz = sz, OF assms(3)] queued_finish_def om_find_emplace ticket_started_def
        find_room_of_user_def find_room_def om_find_set Let_def nth_append)
qed

text \<open>C1. Creating a room, end to end. A client's request on an idle session goes to the room
  server with a fresh request id; if the room server admits it, it creates the room with
  the client's uid as owner and responds with that id; when the response arrives before the
  deadline, the client gets its own request id and the id of the new room, and the session
  is in that room, which is the room the room server finds for the user.\<close>

theorem create_room_end_to_end:
  assumes "u = run_events (user_step parse sz) user_server_init es" and "\<not> crashed u"
    and "requests_made u < 2 ^ 64 - 1" and "idle_session u i"
    and "s = run_events (room_step sz) (room_server_init cap ret) es'" and "\<not> stopping s"
    and "\<not> terminated s" and "parse kReqCreateRoom b = (True, ReqCreateRoom req)"
    and "u1 = run_events (user_step parse sz) u [Receive (message_type kReqCreateRoom) b (Some i) now, RunSession i now]"
    and "fst (admit (route, next_request_id u) t (registry s)) \<noteq> None"
    and "s1 = room_step sz s (Recv t new_id route (last (to_room u1)))"
    and "parse kUser2RoomResCreateRoom b' = (True, snd (last (sent s1)))" and "now' < now + request_timeout"
    and "u2 = run_events (user_step parse sz) u1
           [Receive (message_type kUser2RoomResCreateRoom) b' None now', RunSession i now']"
    and "sz (User2RoomReqCreateRoom (next_request_id u) (s_uid (sessions u ! i))) \<le> kMaxPayloadSize"
    and "sz (User2RoomResCreateRoom (next_request_id u) [] True new_id) \<le> kMaxPayloadSize"
    and "sz (ResCreateRoom req True new_id) \<le> kMaxPayloadSize"
  shows "s_out (sessions u2 ! i) =
      s_out (sessions u ! i) @ [LinkSend (Some (length (job_heap u))) (ResCreateRoom req True new_id)] \<and>
    s_room_id (sessions u2 ! i) = new_id \<and> idle_session u2 i \<and> waiting u2 = waiting u \<and>
    (\<exists>p. find_room_of_user (s_uid (sessions u ! i)) s1 = Some p \<and> r_room_id (heap s1 ! p) = new_id \<and>
       r_owner (heap s1 ! p) = \<lparr>u_uid = s_uid (sessions u ! i), u_route = route\<rparr>)"
proof -
  have ok: "user_ok {} {} [] u" using user_server.ok_run[of parse sz es] assms(1-3) by (simp add: settled_def wrapped_def)
  have fresh: "om_find (requests (waiting u)) (next_request_id u) = None"
    using ok assms(3) by (intro next_id(3)) (simp_all add: user_ok_def wrapped_def)
  have u1: "u1 = create_requested req i now u"
    unfolding assms(9) using create_request_run[where sz = sz, OF ok assms(4,2,15)] assms(8) by blast
  then have m: "last (to_room u1) = User2RoomReqCreateRoom (next_request_id u) (s_uid (sessions u ! i))"
    by (simp add: create_requested_def Let_def)
  have s1: "s1 = on_recv sz t new_id route (User2RoomReqCreateRoom (next_request_id u) (s_uid (sessions u ! i))) s"
    using assms(7,11) m by simp
  note served = create_request_served[where sz = sz and new_id = new_id, OF assms(10,6,16), of "s_uid (sessions u ! i)", folded s1, unfolded Let_def]
  have "u2 = create_answered req i True new_id u"
    unfolding assms(14) u1
    using create_response_run[where sz = sz, OF assms(4,2,17,13) _ fresh, of parse b' "[]"] assms(12) served by simp
  moreover have "i < length (sessions u)" "strand_of u i = []" "\<not> stopped (sched_of u i)"
    using assms(4) by (simp_all add: idle_session_def)
  ultimately show ?thesis using served by (simp add: create_answered_def Let_def idle_session_def observers)
qed

theorem create_room_end_to_end_witness:
  "let step = user_step sample_parse (\<lambda>_. 9);
       u1 = run_events step logged_in_state [Receive (message_type kReqCreateRoom) [] (Some 0) 1, RunSession 0 1];
       s1 = room_step (\<lambda>_. 9) (room_server_init 8 30) (Recv 1 12345 ''user-1'' (last (to_room u1)));
       u2 = run_events step u1 [Receive (message_type kUser2RoomResCreateRoom) [] None 2, RunSession 0 2]
   in s_room_id (sessions u2 ! 0) = 12345 \<and>
      (\<exists>p. find_room_of_user ''ann'' s1 = Some p \<and> r_room_id (heap s1 ! p) = 12345)"
proof -
  let ?step = "user_step sample_parse (\<lambda>_. 9)"
  define u1 where "u1 = run_events ?step logged_in_state [Receive (message_type kReqCreateRoom) [] (Some 0) 1, RunSession 0 1]"
  have m: "last (to_room u1) = User2RoomReqCreateRoom 1 ''ann''"
    by (simp add: u1_def user_eval sample_parse_def logged_in_state_def del: message_type.simps)
  define s1 where "s1 = room_step (\<lambda>_. 9) (room_server_init 8 30) (Recv 1 12345 ''user-1'' (last (to_room u1)))"
  have r: "snd (last (sent s1)) = User2RoomResCreateRoom 1 [] True 12345"
    unfolding s1_def m by (simp add: room_eval)
  have "idle_session logged_in_state 0" by (simp add: idle_session_def logged_in_state_def observers)
  moreover have "room_server_init 8 30 = run_events (room_step (\<lambda>_. 9)) (room_server_init 8 30) []" by simp
  ultimately show ?thesis
    using create_room_end_to_end[where i = 0 and cap = 8 and ret = 30 and es' = "[]" and req = 7 and b' = "[]"
        and now' = 2, OF logged_in_run[symmetric] _ _ _ _ _ _ _ u1_def _ s1_def _ _ refl _ _ _] r
    unfolding u1_def[symmetric] s1_def[symmetric] Let_def
    by (auto simp: logged_in_state_def sample_parse_def kMaxPayloadSize_def room_server_init_def
        queued_init_def admit_def prune_def om_find_Nil request_timeout_def
        simp del: message_type.simps run_events_simps(2,3))
qed

subsection \<open>Kicking a user\<close>

lemma client_kick_sent:
  assumes "cl_state c = Some (state_in_room q kCommand)" and "cl_input c" and "\<not> cl_stopped c" and "\<not> cl_failed c"
    and "cl_current_state c = kInRoom" and "name \<noteq> []" and "last name \<noteq> CHR 0x0D"
    and "sz (FwdRoom (''kickout:'' @ name)) = length (enc (FwdRoom (''kickout:'' @ name)))"
    and "sz (FwdRoom (''kickout:'' @ name)) \<le> kMaxPayloadSize"
  shows "cl_accepted (run_events (client_step parse sz enc) c [InputLine ''4'', InputLine name]) =
    cl_accepted c @ [frame (message_type kFwdRoom) (enc (FwdRoom (''kickout:'' @ name)))]"
proof -
  have s: "serialize sz enc (message_type kFwdRoom) (FwdRoom (''kickout:'' @ name)) =
      Inr (frame (message_type kFwdRoom) (enc (FwdRoom (''kickout:'' @ name))))"
    using assms(8,9) by (intro serialize_eq_frame) simp_all
  show ?thesis
    using assms(1-7) s
    by (simp add: client_step_def read_command_def handle_command_def show_prompt_def send_message_def
        show_command_prompt_def queue_write_def write_next_def Let_def del: message_type.simps)
qed

lemma kick_text_posted:
  assumes "struct_inv s" and "find_room_of_user u s = Some p" and "CHR '':'' \<notin> set name" and "name \<noteq> []"
  shows "handle_fwd_room u (''kickout:'' @ name) s = post p (KickOutUserImpl name kRoomOwner) s"
proof -
  obtain i where i: "om_find (rooms s) i = Some p" using find_room_of_userD[OF assms(2)] by blast
  have "contents_on_recv_message us u (''kickout:'' @ name) = [ApiKickOutUser name kRoomOwner]" for us
    using contents_protocol[of name "[]" us u] assms(3,4) by simp
  then show ?thesis
    using assms(2) struct_rooms(4)[OF assms(1) i]
    by (simp add: handle_fwd_room_def on_recv_message_def contents_call_def kick_out_user_def del: append.simps)
qed

text \<open>C2. Kicking a user, end to end. A client in a room that enters the kick command and a name
  queues one frame; decoded by the user server and run on an idle session, it is forwarded
  to the room server under the uid of that session, and there it becomes, on the strand of
  the room the user is in, the kick of exactly the user that was named.\<close>

theorem kick_end_to_end:
  assumes "cl_state c = Some (state_in_room q kCommand)" and "cl_current_state c = kInRoom" and "cl_input c"
    and "\<not> cl_stopped c" and "\<not> cl_failed c"
    and "CHR '':'' \<notin> set name" and "name \<noteq> []" and "last name \<noteq> CHR 0x0D"
    and "sz (FwdRoom (''kickout:'' @ name)) = length (enc (FwdRoom (''kickout:'' @ name)))"
    and "sz (FwdRoom (''kickout:'' @ name)) \<le> kMaxPayloadSize"
    and "parse kFwdRoom (enc (FwdRoom (''kickout:'' @ name))) = (True, FwdRoom (''kickout:'' @ name))"
    and "c1 = run_events (client_step parse sz enc) c [InputLine ''4'', InputLine name]"
    and "m = destruct_buffer (last (cl_accepted c1))"
    and "u = run_events (user_step parse sz) user_server_init es" and "\<not> crashed u"
    and "requests_made u < 2 ^ 64 - 1" and "idle_session u i"
    and "u1 = run_events (user_step parse sz) u [Receive (mtype m) (payload m) (Some i) now, RunSession i now]"
    and "struct_inv s" and "\<not> terminated s" and "find_room_of_user (s_uid (sessions u ! i)) s = Some p"
    and "s1 = room_step sz s (Recv now' new_id route (last (to_room u1)))"
    and "sz (User2RoomFwdRoom 0 (s_uid (sessions u ! i)) (''kickout:'' @ name)) \<le> kMaxPayloadSize"
  shows "cl_accepted c1 = cl_accepted c @ [last (cl_accepted c1)] \<and> status m = kComplete \<and>
    posted s1 = posted s @ [(p, KickOutUserImpl name kRoomOwner)]"
proof -
  let ?t = "''kickout:'' @ name"
  have len: "length (enc (FwdRoom ?t)) \<le> kMaxPayloadSize" using assms(9,10) by (simp only:)
  have c1: "cl_accepted c1 = cl_accepted c @ [frame (message_type kFwdRoom) (enc (FwdRoom ?t))]"
    unfolding assms(12) using assms(1-5,7-10) by (intro client_kick_sent) assumption+
  have m: "status m = kComplete" "mtype m = message_type kFwdRoom" "payload m = enc (FwdRoom ?t)"
    using destruct_frame[OF len, of "message_type kFwdRoom" "[]"] c1 assms(13)
    by (simp_all del: message_type.simps append.simps(2))
  have ok: "user_ok {} {} [] u"
    using user_server.ok_run[of parse sz es] assms(14-16) by (simp add: settled_def wrapped_def)
  have "to_room u1 = to_room u @ [User2RoomFwdRoom 0 (s_uid (sessions u ! i)) ?t]"
    unfolding assms(18) m(2,3) using forward_run[where sz = sz and parse = parse, OF ok assms(17,15,23,11)] by (simp only: Let_def)
  then have "s1 = handle_fwd_room (s_uid (sessions u ! i)) ?t s" using assms(20,22) by (simp del: append.simps(2))
  then show ?thesis
    using c1 m(1) kick_text_posted[OF assms(19,21,6,7)] by (simp add: post_def del: append.simps(2))
qed

definition sample_client :: client where
  "sample_client = client_main\<lparr>cl_state := Some (state_in_room 0 kCommand), cl_current_state := kInRoom\<rparr>"

theorem kick_end_to_end_witness:
  "let c1 = run_events (client_step sample_parse (\<lambda>_. 9) (\<lambda>_. replicate 9 7)) sample_client [InputLine ''4'', InputLine ''bob''];
       m = destruct_buffer (last (cl_accepted c1));
       u1 = run_events (user_step sample_parse (\<lambda>_. 9)) logged_in_state [Receive (mtype m) (payload m) (Some 0) 3, RunSession 0 3];
       s1 = room_step (\<lambda>_. 9) one_room (Recv 4 0 ''user-1'' (last (to_room u1)))
   in status m = kComplete \<and> posted s1 = [(0, KickOutUserImpl ''bob'' kRoomOwner)]"
proof -
  have c: "cl_state sample_client = Some (state_in_room 0 kCommand)" "cl_current_state sample_client = kInRoom"
    "cl_input sample_client" "\<not> cl_stopped sample_client" "\<not> cl_failed sample_client"
    by (simp_all add: sample_client_def client_main_def client_start_def set_exit_handler_def client_new_def
        transition_to_def Let_def show_prompt_def read_next_def)
  have "idle_session logged_in_state 0" by (simp add: idle_session_def logged_in_state_def observers)
  moreover have "find_room_of_user ''ann'' one_room = Some 0" "\<not> terminated one_room" "posted one_room = []"
    by (simp_all add: one_room_def find_room_of_user_def find_room_def om_find_def)
  ultimately show ?thesis
    using kick_end_to_end[where name = "''bob''" and sz = "\<lambda>_. 9" and enc = "\<lambda>_. replicate 9 7" and parse = sample_parse
        and i = 0 and now = 3 and p = 0 and now' = 4 and new_id = 0 and route = "''user-1''",
        OF c _ _ _ _ _ _ refl refl logged_in_run[symmetric] _ _ _ refl one_room_ok(1) _ _ refl]
    unfolding Let_def
    by (simp add: sample_parse_def kMaxPayloadSize_def logged_in_state_def del: run_events_simps room_step.simps)
qed

subsection \<open>A race between chat and leave\<close>

text \<open>A room task that sends a text works on the members at the time the text was received. When
  the text arrives after a leave request but before the strand has run it, the member that
  leaves is answered first and then sent the text, and the client, no longer in a room,
  takes the text for an unknown message and exits.\<close>

theorem chat_racing_leave_ends_client:
  "let s = run_events (room_step (\<lambda>_. 9)) (room_server_init 8 30)
         [Recv 0 12345 ''user-1'' (User2RoomReqCreateRoom 1 ''ann''), RunStrand 0 0,
          Recv 1 0 ''user-1'' (User2RoomReqJoinRoom 2 ''bob'' 12345), RunStrand 0 1, RunStrand 0 1];
       s' = run_events (room_step (\<lambda>_. 9)) s
         [Recv 2 0 ''user-1'' (User2RoomReqLeaveRoom 3 0 ''bob''), Recv 2 0 ''user-1'' (User2RoomFwdRoom 0 ''ann'' ''hi''),
          RunStrand 0 3, RunStrand 0 3]
   in sent s' = sent s @ [(''user-1'', User2RoomResLeaveRoom 3 [] True),
          (''user-1'', User2RoomFwdClient kContent [] ''ann'' ''(ann):hi''),
          (''user-1'', User2RoomFwdClient kContent [] ''bob'' ''(ann):hi'')] \<and>
      foldl protocol (kInRoom, 12345) [ResLeaveRoom 0 True, FwdClient kContent [] ''bob'' ''(ann):hi''] = (kExit, 0)"
  by (simp add: room_eval handle_fwd_room_def on_recv_message_def contents_on_recv_message_def getline_loop_last)

end
